(* ===== verification/Prelude.thy ===== *)
theory Prelude
  imports Main "HOL-Library.Word"
begin

unbundle bit_operations_syntax

text \<open>
  Shared ground of the development: C programs as state-passing functions that may also stop
  without returning (an abort, an invalid memory access, a retry loop that never ends), a
  weakest-precondition calculus for them, and the machine integers of the LP64 target.

  A C function that changes a state of type \<open>'s\<close> and returns an \<open>'a\<close> is modelled as a value of
  type \<open>('s, 'a) prog\<close>. \<open>Ok a s\<close> is a normal return; \<open>Stop Abort\<close> is a failed \<open>av_assert\<close> or a
  call of \<open>abort\<close>; \<open>Stop Segv\<close> is an access the C standard leaves undefined (a null, dangling or
  out-of-bounds pointer); \<open>Stop Diverge\<close> is an execution that never returns; \<open>Stop (Exit n)\<close> is
  a call of \<open>exit(n)\<close>.
\<close>

section \<open>Programs\<close>

datatype stop = Abort | Segv | Diverge | Exit int

datatype ('s, 'a) outcome = Ok 'a 's | Stop stop

type_synonym ('s, 'a) prog = "'s \<Rightarrow> ('s, 'a) outcome"

definition pret :: "'a \<Rightarrow> ('s, 'a) prog" where
  "pret a = (\<lambda>s. Ok a s)"

definition pstop :: "stop \<Rightarrow> ('s, 'a) prog" where
  "pstop e = (\<lambda>s. Stop e)"

definition pbind :: "('s, 'a) prog \<Rightarrow> ('a \<Rightarrow> ('s, 'b) prog) \<Rightarrow> ('s, 'b) prog" where
  "pbind m f = (\<lambda>s. case m s of Ok a s' \<Rightarrow> f a s' | Stop e \<Rightarrow> Stop e)"

abbreviation pthen :: "('s, 'a) prog \<Rightarrow> ('s, 'b) prog \<Rightarrow> ('s, 'b) prog" where
  "pthen m k \<equiv> pbind m (\<lambda>_. k)"

text \<open>Reading and changing the state.\<close>

definition pgets :: "('s \<Rightarrow> 'a) \<Rightarrow> ('s, 'a) prog" where
  "pgets f = (\<lambda>s. Ok (f s) s)"

definition pmodify :: "('s \<Rightarrow> 's) \<Rightarrow> ('s, unit) prog" where
  "pmodify f = (\<lambda>s. Ok () (f s))"

text \<open>A total call that returns a result beside the new state.\<close>

definition pcall :: "('s \<Rightarrow> 'a \<times> 's) \<Rightarrow> ('s, 'a) prog" where
  "pcall f = (\<lambda>s. case f s of (a, s') \<Rightarrow> Ok a s')"

text \<open>A loop whose model is an option: \<open>None\<close> is a loop that does not return.\<close>

definition plift :: "('s \<Rightarrow> ('a \<times> 's) option) \<Rightarrow> ('s, 'a) prog" where
  "plift f = (\<lambda>s. case f s of Some (a, s') \<Rightarrow> Ok a s' | None \<Rightarrow> Stop Diverge)"

text \<open>\<open>av_assert\<close>, \<open>av_assert_se\<close> (src/util.h): a false condition aborts.\<close>

definition av_assert :: "bool \<Rightarrow> ('s, unit) prog" where
  "av_assert c = (if c then pret () else pstop Abort)"

text \<open>\<open>av_assert(p)\<close> on a pointer to a structure, which is passed by value.\<close>

definition av_assert_ptr :: "'a option \<Rightarrow> ('s, 'a) prog" where
  "av_assert_ptr x = (case x of Some a \<Rightarrow> pret a | None \<Rightarrow> pstop Abort)"

text \<open>An access that must be valid: otherwise the behaviour is undefined.\<close>

definition pvalid :: "'a option \<Rightarrow> ('s, 'a) prog" where
  "pvalid x = (case x of Some a \<Rightarrow> pret a | None \<Rightarrow> pstop Segv)"

text \<open>Running a program on one part of a larger state.\<close>

definition pzoom :: "('t \<Rightarrow> 's) \<Rightarrow> ('s \<Rightarrow> 't \<Rightarrow> 't) \<Rightarrow> ('s, 'a) prog \<Rightarrow> ('t, 'a) prog" where
  "pzoom get put m = (\<lambda>t. case m (get t) of Ok a s' \<Rightarrow> Ok a (put s' t) | Stop e \<Rightarrow> Stop e)"

section \<open>Weakest preconditions\<close>

text \<open>
  \<open>wp E m Q s\<close>: run from \<open>s\<close>, the program returns with \<open>Q\<close>, or it stops in a way \<open>E\<close> allows.
  \<open>wp never m Q\<close> is total correctness.
\<close>

definition wp :: "(stop \<Rightarrow> bool) \<Rightarrow> ('s, 'a) prog \<Rightarrow> ('a \<Rightarrow> 's \<Rightarrow> bool) \<Rightarrow> 's \<Rightarrow> bool" where
  "wp E m Q s = (case m s of Ok a s' \<Rightarrow> Q a s' | Stop e \<Rightarrow> E e)"

abbreviation never :: "stop \<Rightarrow> bool" where
  "never \<equiv> \<lambda>_. False"

definition not_segv :: "stop \<Rightarrow> bool" where
  "not_segv e = (e \<noteq> Segv)"

lemma not_segv_simps [simp]: "not_segv Abort" "not_segv Diverge" "not_segv (Exit n)" "\<not> not_segv Segv"
  by (simp_all add: not_segv_def)

named_theorems wp_rules \<open>equations that push a weakest precondition through a program\<close>

text \<open>
  The equations leave the state out where they can, so that they also rewrite below the
  abstraction of a continuation.
\<close>

lemma wp_pret [wp_rules]: "wp E (pret a) Q = Q a"
  by (rule ext) (simp add: wp_def pret_def)

lemma wp_pstop [wp_rules]: "wp E (pstop e) Q = (\<lambda>s. E e)"
  by (rule ext) (simp add: wp_def pstop_def)

lemma wp_pbind [wp_rules]: "wp E (pbind m f) Q = wp E m (\<lambda>a. wp E (f a) Q)"
  by (rule ext) (simp add: wp_def pbind_def split: outcome.split)

lemma wp_pgets [wp_rules]: "wp E (pgets f) Q = (\<lambda>s. Q (f s) s)"
  by (rule ext) (simp add: wp_def pgets_def)

lemma wp_pmodify [wp_rules]: "wp E (pmodify f) Q = (\<lambda>s. Q () (f s))"
  by (rule ext) (simp add: wp_def pmodify_def)

lemma wp_pcall [wp_rules]: "wp E (pcall f) Q = (\<lambda>s. Q (fst (f s)) (snd (f s)))"
  by (rule ext) (simp add: wp_def pcall_def split: prod.split)

lemma wp_av_assert [wp_rules]: "wp E (av_assert c) Q = (if c then Q () else (\<lambda>s. E Abort))"
  by (simp add: av_assert_def wp_pret wp_pstop)

lemma wp_av_assert_ptr [wp_rules]:
  "wp E (av_assert_ptr x) Q = (case x of Some a \<Rightarrow> Q a | None \<Rightarrow> (\<lambda>s. E Abort))"
  by (simp add: av_assert_ptr_def wp_pret wp_pstop split: option.split)

lemma wp_pvalid [wp_rules]:
  "wp E (pvalid x) Q = (case x of Some a \<Rightarrow> Q a | None \<Rightarrow> (\<lambda>s. E Segv))"
  by (simp add: pvalid_def wp_pret wp_pstop split: option.split)

lemma wp_if [wp_rules]:
  "wp E (if c then m else n) Q = (if c then wp E m Q else wp E n Q)"
  by simp

lemma wp_case_option [wp_rules]:
  "wp E (case x of None \<Rightarrow> m | Some a \<Rightarrow> f a) Q =
     (case x of None \<Rightarrow> wp E m Q | Some a \<Rightarrow> wp E (f a) Q)"
  by (simp split: option.split)

lemma wp_case_prod [wp_rules]:
  "wp E (case x of (a, b) \<Rightarrow> f a b) Q = (case x of (a, b) \<Rightarrow> wp E (f a b) Q)"
  by (simp split: prod.split)

lemma wp_plift: "f s = Some (a, s') \<Longrightarrow> wp E (plift f) Q s = Q a s'"
  by (simp add: wp_def plift_def)

lemma wp_plift_iff:
  "wp E (plift f) Q s = (case f s of Some (a, s') \<Rightarrow> Q a s' | None \<Rightarrow> E Diverge)"
  by (simp add: wp_def plift_def split: option.split)

lemma wp_pzoom [wp_rules]:
  "wp E (pzoom get put m) Q = (\<lambda>t. wp E m (\<lambda>a s. Q a (put s t)) (get t))"
  by (rule ext) (simp add: wp_def pzoom_def split: outcome.split)

lemma wp_mono:
  "wp E m Q s \<Longrightarrow> (\<And>a s'. Q a s' \<Longrightarrow> Q' a s') \<Longrightarrow> wp E m Q' s"
  by (auto simp: wp_def split: outcome.splits)

lemma wp_mono2:
  "wp E m (\<lambda>(a, b). Q a b) s \<Longrightarrow> (\<And>a b s'. Q a b s' \<Longrightarrow> Q' (a, b) s') \<Longrightarrow> wp E m Q' s"
  by (erule wp_mono) auto

lemma wp_bindI:
  "wp E m R s \<Longrightarrow> (\<And>a s'. R a s' \<Longrightarrow> wp E (f a) Q s') \<Longrightarrow> wp E (pbind m f) Q s"
  unfolding wp_pbind by (rule wp_mono)

lemma wp_bindI2:
  "wp E m (\<lambda>(a, b). R a b) s \<Longrightarrow> (\<And>a b s'. R a b s' \<Longrightarrow> wp E (f (a, b)) Q s') \<Longrightarrow>
   wp E (pbind m f) Q s"
  unfolding wp_pbind by (rule wp_mono2)

lemma wp_mono_stop:
  "wp E m Q s \<Longrightarrow> (\<And>e. E e \<Longrightarrow> E' e) \<Longrightarrow> wp E' m Q s"
  by (auto simp: wp_def split: outcome.splits)

lemma wp_conj: "wp E m (\<lambda>a s'. P a s' \<and> Q a s') s \<longleftrightarrow> wp E m P s \<and> wp E m Q s"
  by (auto simp: wp_def split: outcome.splits)

lemma wp_OkD: "wp E m Q s \<Longrightarrow> m s = Ok a s' \<Longrightarrow> Q a s'"
  by (simp add: wp_def)

lemma wp_neverE:
  assumes "wp never m Q s"
  obtains a s' where "m s = Ok a s'" and "Q a s'"
  using assms by (auto simp: wp_def split: outcome.splits)

lemma wp_total: "wp E m Q s \<Longrightarrow> \<exists>a s'. m s = Ok a s' \<Longrightarrow> wp never m Q s"
  by (auto simp: wp_def)

lemma wp_StopD: "wp E m Q s \<Longrightarrow> m s = Stop e \<Longrightarrow> E e"
  by (simp add: wp_def)

lemma wpI_cases:
  "(\<And>a s'. m s = Ok a s' \<Longrightarrow> Q a s') \<Longrightarrow> (\<And>e. m s = Stop e \<Longrightarrow> E e) \<Longrightarrow> wp E m Q s"
  by (simp add: wp_def split: outcome.split)

text \<open>
  The same as introduction rules: \<open>(intro wp_intro)\<close> walks along the program and leaves one goal
  for every path, with the calls and branches taken as its premises.
\<close>

named_theorems wp_intro \<open>rules that follow the paths of a program\<close>

lemma wp_callI [wp_intro]:
  "(\<And>r v. f s = (r, v) \<Longrightarrow> wp E (k r) Q v) \<Longrightarrow> wp E (pbind (pcall f) k) Q s"
  by (cases "f s") (simp add: wp_rules)

lemma wp_getsI [wp_intro]: "wp E (k (f s)) Q s \<Longrightarrow> wp E (pbind (pgets f) k) Q s"
  by (simp add: wp_rules)

lemma wp_bind_pretI [wp_intro]: "wp E (k a) Q s \<Longrightarrow> wp E (pbind (pret a) k) Q s"
  by (simp add: wp_rules)

lemma wp_assertI [wp_intro]:
  "(c \<Longrightarrow> wp E (k ()) Q s) \<Longrightarrow> (\<not> c \<Longrightarrow> E Abort) \<Longrightarrow> wp E (pbind (av_assert c) k) Q s"
  by (simp add: wp_rules)

lemma wp_assert_ptrI [wp_intro]:
  "wp E (k a) Q s \<Longrightarrow> wp E (pbind (av_assert_ptr (Some a)) k) Q s"
  by (simp add: wp_rules)

lemma wp_ifI [wp_intro]:
  "(c \<Longrightarrow> wp E m Q s) \<Longrightarrow> (\<not> c \<Longrightarrow> wp E n Q s) \<Longrightarrow> wp E (if c then m else n) Q s"
  by simp

lemma wp_bind_ifI [wp_intro]:
  "(c \<Longrightarrow> wp E (pbind m k) Q s) \<Longrightarrow> (\<not> c \<Longrightarrow> wp E (pbind n k) Q s) \<Longrightarrow>
   wp E (pbind (if c then m else n) k) Q s"
  by simp

lemma wp_splitI [wp_intro]:
  "(\<And>a b. x = (a, b) \<Longrightarrow> wp E (f a b) Q s) \<Longrightarrow> wp E (case x of (a, b) \<Rightarrow> f a b) Q s"
  by (cases x) simp

lemma wp_assocI [wp_intro]:
  "wp E (pbind m (\<lambda>a. pbind (f a) k)) Q s \<Longrightarrow> wp E (pbind (pbind m f) k) Q s"
  by (simp add: wp_rules)

lemma wp_retI [wp_intro]: "Q a s \<Longrightarrow> wp E (pret a) Q s"
  by (simp add: wp_rules)

lemmas prog_defs = pret_def pstop_def pbind_def pgets_def pmodify_def pcall_def plift_def
  av_assert_def av_assert_ptr_def pvalid_def pzoom_def

section \<open>Machine integers\<close>

text \<open>The target is LP64, as glibc on x86-64: \<open>int\<close> has 32 bits, pointers and \<open>size_t\<close> 64.\<close>

type_synonym u8 = "8 word"
type_synonym u32 = "32 word"
type_synonym u64 = "64 word"

text \<open>A C string is its characters up to the terminating NUL.\<close>

definition is_cstring :: "string \<Rightarrow> bool" where
  "is_cstring s = list_all (\<lambda>c. c \<noteq> CHR 0x00) s"

text \<open>Four bytes of memory as a little-endian \<open>int\<close>, and back.\<close>

definition bytes_of_int :: "u32 \<Rightarrow> u8 list" where
  "bytes_of_int v = [ucast v, ucast (drop_bit 8 v), ucast (drop_bit 16 v), ucast (drop_bit 24 v)]"

definition int_of_bytes :: "u8 \<Rightarrow> u8 \<Rightarrow> u8 \<Rightarrow> u8 \<Rightarrow> u32" where
  "int_of_bytes b0 b1 b2 b3 =
     ucast b0 OR push_bit 8 (ucast b1) OR push_bit 16 (ucast b2) OR push_bit 24 (ucast b3)"

lemma int_of_bytes_of_int:
  "int_of_bytes (ucast v) (ucast (drop_bit 8 v)) (ucast (drop_bit 16 v)) (ucast (drop_bit 24 v))
     = v"
proof (rule bit_word_eqI)
  fix n
  assume "n < LENGTH(32)"
  then show "bit (int_of_bytes (ucast v) (ucast (drop_bit 8 v)) (ucast (drop_bit 16 v))
      (ucast (drop_bit 24 v))) n = bit v n"
    by (cases "n < 16"; cases "n < 24") (auto simp: int_of_bytes_def bit_simps not_less)
qed

end
