(* ===== verification/Posix.thy ===== *)
theory Posix
  imports Prelude
begin

text \<open>
  The operating system the program calls: POSIX shared memory, memory mappings, descriptors,
  processes, the C library's \<open>errno\<close>, \<open>rand\<close> and \<open>time\<close>, and the data types of
  linux/videodev2.h. It is the environment, not code of the repository, and it is modelled as
  adversarially as the manual pages allow: every call consumes one tick of a clock and asks an
  arbitrary oracle \<open>fault\<close> whether this call fails and with which error, an arbitrary oracle
  \<open>xfer\<close> how many bytes a transfer moves, and an arbitrary \<open>driver\<close> what an ioctl answers. The
  theorems hold for every value of these oracles unless they say otherwise.
\<close>

section \<open>Types of the system interface\<close>

datatype errno = EOK | EINTR | EINVAL | ERANGE | EACCES | ENOENT | EEXIST | ESRCH | EPERM
  | EBADF | ENOTSOCK | ENOMEM | EMFILE | ENOSPC | EIO | EAGAIN | EBUSY | ENOTTY

text \<open>
  A pointer into a mapping is the mapping and a byte offset into it; \<open>MapFailed\<close> is
  \<open>MAP_FAILED\<close>.
\<close>

datatype ptr = Null | MapFailed | Ptr nat nat

fun ptr_add :: "ptr \<Rightarrow> u64 \<Rightarrow> ptr" where
  "ptr_add (Ptr b off) n = Ptr b (off + unat n)"
| "ptr_add p n = p"

subsection \<open>linux/videodev2.h\<close>

record v4l2_timecode =
  vt_type :: u32
  vt_flags :: u32
  vt_frames :: u8
  vt_seconds :: u8
  vt_minutes :: u8
  vt_hours :: u8
  vt_userbits :: u32

record v4l2_capability =
  capabilities :: u32

record v4l2_format =
  fmt_type :: u32
  pix_width :: u32
  pix_height :: u32
  pix_pixelformat :: u32
  pix_field :: u32

record v4l2_requestbuffers =
  rb_count :: u32
  rb_type :: u32
  rb_memory :: u32

record v4l2_buffer =
  vb_index :: u32
  vb_type :: u32
  vb_field :: u32
  vb_timestamp :: "u64 \<times> u64"
  vb_timecode :: v4l2_timecode
  vb_sequence :: u32
  vb_memory :: u32
  vb_offset :: u32
  vb_length :: u32

record v4l2_streamparm =
  sp_type :: u32
  sp_numerator :: u32
  sp_denominator :: u32

datatype ioctl_req = VIDIOC_QUERYCAP | VIDIOC_S_FMT | VIDIOC_S_PARM | VIDIOC_REQBUFS | VIDIOC_DQBUF

datatype ioctl_arg = Arg_cap v4l2_capability | Arg_fmt v4l2_format | Arg_parm v4l2_streamparm
  | Arg_rb v4l2_requestbuffers | Arg_buf v4l2_buffer

subsection \<open>Kernel objects\<close>

record inode =
  i_size :: nat
  i_data :: "nat \<Rightarrow> u8"
  i_mode :: u32

record mapping =
  m_ino :: nat
  m_lo :: nat        \<comment> \<open>the bytes below have been unmapped\<close>
  m_len :: nat
  m_write :: bool

datatype fkind = F_shm nat | F_stream | F_sock | F_v4l

record fobj =
  f_kind :: fkind
  f_in :: "u8 list"     \<comment> \<open>what is left to read\<close>
  f_out :: "u8 list"    \<comment> \<open>what has been written\<close>
  f_write :: bool

datatype log_msg = Log_msg nat string string   \<comment> \<open>level, function, format string\<close>

text \<open>What the program cannot change: the oracles and the rest of the machine.\<close>

record env =
  fault :: "nat \<Rightarrow> errno option"
  xfer :: "nat \<Rightarrow> nat"
  close_err_releases :: bool  \<comment> \<open>does a failing close release the descriptor? (Linux: yes)\<close>
  devs :: "string \<Rightarrow> fobj option"  \<comment> \<open>what opening a path of /dev gives\<close>
  procs :: "int \<Rightarrow> errno option"   \<comment> \<open>the answer of kill(pid, 0)\<close>
  self_pid :: u32
  driver :: "nat \<Rightarrow> ioctl_req \<Rightarrow> ioctl_arg \<Rightarrow> int \<times> errno \<times> ioctl_arg"
  rand_next :: "nat \<Rightarrow> nat \<times> u32"
  now :: u64

record os =
  env :: env
  errno :: errno
  clock :: nat
  fds :: "int \<Rightarrow> fobj option"
  next_fd :: nat
  dir :: "(string \<times> nat) list"   \<comment> \<open>/dev/shm: name and inode\<close>
  inodes :: "nat \<Rightarrow> inode option"
  next_ino :: nat
  maps :: "nat \<Rightarrow> mapping option"
  next_map :: nat
  rand_state :: nat
  logs :: "log_msg list"
  has_whined :: bool   \<comment> \<open>the static variable of src/random.c\<close>

section \<open>System calls\<close>

text \<open>One tick of the clock; the call fails with the oracle's error or runs \<open>act\<close>.\<close>

definition syscall :: "'r \<Rightarrow> (os \<Rightarrow> 'r \<times> os) \<Rightarrow> os \<Rightarrow> 'r \<times> os" where
  "syscall failed act w =
     (let w1 = w\<lparr>clock := Suc (clock w)\<rparr>
      in case fault (env w) (clock w) of
           Some e \<Rightarrow> (failed, w1\<lparr>errno := e\<rparr>)
         | None \<Rightarrow> act w1)"

definition fail_with :: "'r \<Rightarrow> errno \<Rightarrow> os \<Rightarrow> 'r \<times> os" where
  "fail_with r e w = (r, w\<lparr>errno := e\<rparr>)"

subsection \<open>Descriptors\<close>

definition new_fd :: "fobj \<Rightarrow> os \<Rightarrow> int \<times> os" where
  "new_fd f w = (int (next_fd w),
     w\<lparr>fds := (fds w)(int (next_fd w) := Some f), next_fd := Suc (next_fd w)\<rparr>)"

definition sys_open :: "string \<Rightarrow> os \<Rightarrow> int \<times> os" where
  "sys_open path = syscall (-1) (\<lambda>w.
     case devs (env w) path of None \<Rightarrow> fail_with (-1) ENOENT w | Some f \<Rightarrow> new_fd f w)"

definition sys_close :: "int \<Rightarrow> os \<Rightarrow> int \<times> os" where
  "sys_close fd w =
     (let w1 = w\<lparr>clock := Suc (clock w)\<rparr>
      in case fault (env w) (clock w) of
           Some e \<Rightarrow> (-1, (if close_err_releases (env w)
                           then w1\<lparr>errno := e, fds := (fds w)(fd := None)\<rparr>
                           else w1\<lparr>errno := e\<rparr>))
         | None \<Rightarrow> (case fds w fd of
                     None \<Rightarrow> fail_with (-1) EBADF w1
                   | Some f \<Rightarrow> (0, w1\<lparr>fds := (fds w)(fd := None)\<rparr>)))"

text \<open>\<open>read\<close> moves between one byte and what is there; zero bytes mean end of file.\<close>

definition xfer_len :: "nat \<Rightarrow> nat \<Rightarrow> os \<Rightarrow> nat" where
  "xfer_len want avail w = min (min want avail) (Suc (xfer (env w) (clock w)))"

definition sys_read :: "int \<Rightarrow> nat \<Rightarrow> os \<Rightarrow> (int \<times> u8 list) \<times> os" where
  "sys_read fd count = syscall (-1, []) (\<lambda>w.
     case fds w fd of
       None \<Rightarrow> fail_with (-1, []) EBADF w
     | Some f \<Rightarrow>
         let n = xfer_len count (length (f_in f)) w
         in ((int n, take n (f_in f)),
             w\<lparr>fds := (fds w)(fd := Some (f\<lparr>f_in := drop n (f_in f)\<rparr>))\<rparr>))"

definition put_bytes :: "int \<Rightarrow> fobj \<Rightarrow> u8 list \<Rightarrow> os \<Rightarrow> int \<times> os" where
  "put_bytes fd f bs w =
     (let n = xfer_len (length bs) (length bs) w
      in (int n, w\<lparr>fds := (fds w)(fd := Some (f\<lparr>f_out := f_out f @ take n bs\<rparr>))\<rparr>))"

definition sys_send :: "int \<Rightarrow> u8 list \<Rightarrow> os \<Rightarrow> int \<times> os" where
  "sys_send fd bs = syscall (-1) (\<lambda>w.
     case fds w fd of
       None \<Rightarrow> fail_with (-1) EBADF w
     | Some f \<Rightarrow> if f_kind f = F_sock then put_bytes fd f bs w else fail_with (-1) ENOTSOCK w)"

definition sys_write :: "int \<Rightarrow> u8 list \<Rightarrow> os \<Rightarrow> int \<times> os" where
  "sys_write fd bs = syscall (-1) (\<lambda>w.
     case fds w fd of
       None \<Rightarrow> fail_with (-1) EBADF w
     | Some f \<Rightarrow> if f_write f then put_bytes fd f bs w else fail_with (-1) EBADF w)"

definition sys_ioctl :: "int \<Rightarrow> ioctl_req \<Rightarrow> ioctl_arg \<Rightarrow> os \<Rightarrow> (int \<times> ioctl_arg) \<times> os" where
  "sys_ioctl fd req arg = syscall (-1, arg) (\<lambda>w.
     case fds w fd of
       None \<Rightarrow> fail_with (-1, arg) EBADF w
     | Some f \<Rightarrow>
         if f_kind f = F_v4l
         then (case driver (env w) (clock w) req arg of
                 (r, e, arg') \<Rightarrow> if r < 0 then fail_with (-1, arg') e w else ((r, arg'), w))
         else fail_with (-1, arg) ENOTTY w)"

subsection \<open>Shared memory objects\<close>

text \<open>The object named \<open>/x\<close> of \<open>shm_open\<close> is the file \<open>x\<close> of /dev/shm.\<close>

definition shm_file :: "string \<Rightarrow> string" where
  "shm_file fn = (case fn of CHR ''/'' # x \<Rightarrow> x | _ \<Rightarrow> fn)"

definition sys_shm_open_excl :: "string \<Rightarrow> u32 \<Rightarrow> os \<Rightarrow> int \<times> os" where
  \<comment> \<open>\<open>shm_open(fn, O_RDWR|O_CREAT|O_EXCL, mode)\<close>\<close>
  "sys_shm_open_excl fn mode = syscall (-1) (\<lambda>w.
     case map_of (dir w) (shm_file fn) of
       Some i \<Rightarrow> fail_with (-1) EEXIST w
     | None \<Rightarrow>
         let i = next_ino w
         in new_fd \<lparr>f_kind = F_shm i, f_in = [], f_out = [], f_write = True\<rparr>
              (w\<lparr>inodes := (inodes w)(i := Some \<lparr>i_size = 0, i_data = (\<lambda>_. 0), i_mode = mode\<rparr>),
                 next_ino := Suc i, dir := dir w @ [(shm_file fn, i)]\<rparr>))"

definition sys_shm_open_ro :: "string \<Rightarrow> os \<Rightarrow> int \<times> os" where
  \<comment> \<open>\<open>shm_open(fn, O_RDONLY, 0)\<close>\<close>
  "sys_shm_open_ro fn = syscall (-1) (\<lambda>w.
     case map_of (dir w) (shm_file fn) of
       None \<Rightarrow> fail_with (-1) ENOENT w
     | Some i \<Rightarrow> new_fd \<lparr>f_kind = F_shm i, f_in = [], f_out = [], f_write = False\<rparr> w)"

definition sys_shm_unlink :: "string \<Rightarrow> os \<Rightarrow> int \<times> os" where
  "sys_shm_unlink fn = syscall (-1) (\<lambda>w.
     case map_of (dir w) (shm_file fn) of
       None \<Rightarrow> fail_with (-1) ENOENT w
     | Some i \<Rightarrow> (0, w\<lparr>dir := filter (\<lambda>e. fst e \<noteq> shm_file fn) (dir w)\<rparr>))"

definition sys_ftruncate :: "int \<Rightarrow> u64 \<Rightarrow> os \<Rightarrow> int \<times> os" where
  "sys_ftruncate fd len = syscall (-1) (\<lambda>w.
     case fds w fd of
       None \<Rightarrow> fail_with (-1) EBADF w
     | Some f \<Rightarrow>
         (case f_kind f of
            F_shm i \<Rightarrow>
              (case inodes w i of
                 None \<Rightarrow> fail_with (-1) EINVAL w
               | Some nd \<Rightarrow>
                   if f_write f
                   then (0, w\<lparr>inodes := (inodes w)(i := Some (nd\<lparr>i_size := unat len,
                          i_data := (\<lambda>k. if k < i_size nd \<and> k < unat len then i_data nd k else 0)\<rparr>))\<rparr>)
                   else fail_with (-1) EINVAL w)
          | _ \<Rightarrow> fail_with (-1) EINVAL w))"

text \<open>\<open>fstat\<close>, of which the program reads \<open>st_size\<close> (a signed \<open>off_t\<close>).\<close>

definition sys_fstat_size :: "int \<Rightarrow> os \<Rightarrow> (int \<times> int) \<times> os" where
  "sys_fstat_size fd = syscall (-1, 0) (\<lambda>w.
     case fds w fd of
       None \<Rightarrow> fail_with (-1, 0) EBADF w
     | Some f \<Rightarrow>
         (case f_kind f of
            F_shm i \<Rightarrow> (case inodes w i of
                          None \<Rightarrow> fail_with (-1, 0) EBADF w
                        | Some nd \<Rightarrow> ((0, int (i_size nd)), w))
          | _ \<Rightarrow> ((0, 0), w)))"

subsection \<open>Memory\<close>

definition page :: nat where
  "page = 4096"

definition page_up :: "nat \<Rightarrow> nat" where
  "page_up n = (n + (page - 1)) div page * page"

definition new_map :: "nat \<Rightarrow> nat \<Rightarrow> bool \<Rightarrow> os \<Rightarrow> ptr \<times> os" where
  "new_map i len wr w = (Ptr (next_map w) 0,
     w\<lparr>maps := (maps w)(next_map w := Some \<lparr>m_ino = i, m_lo = 0, m_len = page_up len,
         m_write = wr\<rparr>), next_map := Suc (next_map w)\<rparr>)"

text \<open>A mapping of no file is a mapping of fresh, unnamed, zeroed memory.\<close>

definition new_anon_map :: "nat \<Rightarrow> os \<Rightarrow> ptr \<times> os" where
  "new_anon_map len w =
     (let i = next_ino w
      in new_map i len True
           (w\<lparr>inodes := (inodes w)(i := Some \<lparr>i_size = page_up len, i_data = (\<lambda>_. 0), i_mode = 0\<rparr>),
              next_ino := Suc i\<rparr>))"

definition sys_mmap_anon :: "u64 \<Rightarrow> os \<Rightarrow> ptr \<times> os" where
  "sys_mmap_anon len = syscall MapFailed (\<lambda>w.
     if len = 0 then fail_with MapFailed EINVAL w else new_anon_map (unat len) w)"

definition sys_mmap :: "u64 \<Rightarrow> bool \<Rightarrow> int \<Rightarrow> os \<Rightarrow> ptr \<times> os" where
  \<comment> \<open>\<open>mmap(NULL, len, PROT_READ or PROT_READ|PROT_WRITE, MAP_SHARED, fd, offset)\<close>\<close>
  "sys_mmap len wr fd = syscall MapFailed (\<lambda>w.
     if len = 0 then fail_with MapFailed EINVAL w
     else case fds w fd of
       None \<Rightarrow> fail_with MapFailed EBADF w
     | Some f \<Rightarrow>
         (case f_kind f of
            F_shm i \<Rightarrow> if wr \<and> \<not> f_write f then fail_with MapFailed EACCES w
                        else new_map i (unat len) wr w
          | F_v4l \<Rightarrow> new_anon_map (unat len) w
          | _ \<Rightarrow> fail_with MapFailed EACCES w))"

text \<open>\<open>munmap\<close> drops whole pages; a range that is not mapped is no error.\<close>

definition sys_munmap :: "ptr \<Rightarrow> u64 \<Rightarrow> os \<Rightarrow> int \<times> os" where
  "sys_munmap p len = syscall (-1) (\<lambda>w.
     if len = 0 then fail_with (-1) EINVAL w
     else case p of
       Ptr b 0 \<Rightarrow>
         (case maps w b of
            None \<Rightarrow> (0, w)
          | Some m \<Rightarrow>
              if m_len m \<le> page_up (unat len)
              then (0, w\<lparr>maps := (maps w)(b := None)\<rparr>)
              else (0, w\<lparr>maps := (maps w)(b := Some (m\<lparr>m_lo := max (m_lo m) (page_up (unat len))\<rparr>))\<rparr>))
     | _ \<Rightarrow> fail_with (-1) EINVAL w)"

text \<open>
  A four-byte access is defined inside a mapping and inside the pages of its file; anything else
  is a SIGSEGV or a SIGBUS.
\<close>

definition access :: "ptr \<Rightarrow> bool \<Rightarrow> os \<Rightarrow> (nat \<times> inode \<times> nat) option" where
  "access p wr w =
     (case p of
        Ptr b off \<Rightarrow>
          (case maps w b of
             None \<Rightarrow> None
           | Some m \<Rightarrow>
               (case inodes w (m_ino m) of
                  None \<Rightarrow> None
                | Some nd \<Rightarrow>
                    if m_lo m \<le> off \<and> off + 4 \<le> m_len m \<and> off + 4 \<le> page_up (i_size nd)
                       \<and> (wr \<longrightarrow> m_write m)
                    then Some (m_ino m, nd, off) else None))
      | _ \<Rightarrow> None)"

definition inode_int :: "inode \<Rightarrow> nat \<Rightarrow> u32" where
  "inode_int nd off = int_of_bytes (i_data nd off) (i_data nd (off + 1)) (i_data nd (off + 2))
     (i_data nd (off + 3))"

definition inode_put_int :: "inode \<Rightarrow> nat \<Rightarrow> u32 \<Rightarrow> inode" where
  "inode_put_int nd off v =
     nd\<lparr>i_data := (i_data nd)(off := ucast v, off + 1 := ucast (drop_bit 8 v),
        off + 2 := ucast (drop_bit 16 v), off + 3 := ucast (drop_bit 24 v))\<rparr>"

definition load_int :: "ptr \<Rightarrow> (os, u32) prog" where
  "load_int p w = (case access p False w of
     None \<Rightarrow> Stop Segv
   | Some (i, nd, off) \<Rightarrow> Ok (inode_int nd off) w)"

definition store_int :: "ptr \<Rightarrow> u32 \<Rightarrow> (os, unit) prog" where
  "store_int p v w = (case access p True w of
     None \<Rightarrow> Stop Segv
   | Some (i, nd, off) \<Rightarrow> Ok () (w\<lparr>inodes := (inodes w)(i := Some (inode_put_int nd off v))\<rparr>))"

subsection \<open>Processes, time, random numbers, directories\<close>

definition sys_kill0 :: "u32 \<Rightarrow> os \<Rightarrow> int \<times> os" where
  \<comment> \<open>\<open>kill(pid, 0)\<close> delivers nothing and does not wait: its answer is the process table's\<close>
  "sys_kill0 pid w =
     (let w1 = w\<lparr>clock := Suc (clock w)\<rparr>
      in case procs (env w) (sint pid) of None \<Rightarrow> (0, w1) | Some e \<Rightarrow> fail_with (-1) e w1)"

definition sys_opendir :: "os \<Rightarrow> string list option \<times> os" where
  \<comment> \<open>\<open>opendir\<close> of /dev/shm: the names a reader will see\<close>
  "sys_opendir = syscall None (\<lambda>w. (Some (map fst (dir w)), w))"

definition sys_readdir :: "string list \<Rightarrow> os \<Rightarrow> string option \<times> os" where
  "sys_readdir ds = syscall None (\<lambda>w. (case ds of [] \<Rightarrow> None | d # _ \<Rightarrow> Some d, w))"

definition sys_closedir :: "os \<Rightarrow> int \<times> os" where
  "sys_closedir = syscall (-1) (\<lambda>w. (0, w))"

definition sys_srand :: "u32 \<Rightarrow> os \<Rightarrow> unit \<times> os" where
  "sys_srand seed w = ((), w\<lparr>rand_state := unat seed\<rparr>)"

definition sys_rand :: "os \<Rightarrow> u32 \<times> os" where
  "sys_rand w = (case rand_next (env w) (rand_state w) of (s, v) \<Rightarrow> (v, w\<lparr>rand_state := s\<rparr>))"

definition put_log :: "nat \<Rightarrow> string \<Rightarrow> string \<Rightarrow> os \<Rightarrow> unit \<times> os" where
  "put_log lvl func fmt w = ((), w\<lparr>logs := logs w @ [Log_msg lvl func fmt]\<rparr>)"

section \<open>Frame facts\<close>

lemmas act_defs = fail_with_def put_bytes_def new_fd_def new_map_def new_anon_map_def Let_def

lemmas syscall_defs = syscall_def act_defs sys_open_def sys_close_def sys_read_def sys_send_def
  sys_write_def sys_ioctl_def sys_shm_open_excl_def sys_shm_open_ro_def sys_shm_unlink_def
  sys_ftruncate_def sys_fstat_size_def sys_mmap_anon_def sys_mmap_def sys_munmap_def
  sys_kill0_def sys_opendir_def sys_readdir_def sys_closedir_def

text \<open>No call changes the environment.\<close>

lemma sys_env [simp]:
  "env (snd (sys_open p w)) = env w"
  "env (snd (sys_close fd w)) = env w"
  "env (snd (sys_read fd n w)) = env w"
  "env (snd (sys_send fd bs w)) = env w"
  "env (snd (sys_write fd bs w)) = env w"
  "env (snd (sys_ioctl fd req arg w)) = env w"
  "env (snd (sys_shm_open_ro fn w)) = env w"
  "env (snd (sys_shm_open_excl fn m w)) = env w"
  "env (snd (sys_shm_unlink fn w)) = env w"
  "env (snd (sys_ftruncate fd len w)) = env w"
  "env (snd (sys_fstat_size fd w)) = env w"
  "env (snd (sys_mmap_anon len w)) = env w"
  "env (snd (sys_mmap len wr fd w)) = env w"
  "env (snd (sys_kill0 pid w)) = env w"
  "env (snd (sys_opendir w)) = env w"
  "env (snd (sys_readdir ds w)) = env w"
  "env (snd (sys_closedir w)) = env w"
  by (simp_all add: syscall_defs split: option.split fkind.split prod.split)

lemma sys_munmap_env [simp]: "env (snd (sys_munmap p len w)) = env w"
  by (cases p; cases "case p of Ptr b off \<Rightarrow> off | _ \<Rightarrow> 0")
    (auto simp: sys_munmap_def syscall_def act_defs split: option.split)

section \<open>The consistency of the kernel's tables\<close>

text \<open>
  Descriptors, inodes and mappings are numbered below their counters; names and mappings point to
  inodes that exist; no directory lists a name twice.
\<close>

definition fds_ok :: "os \<Rightarrow> bool" where
  "fds_ok w \<longleftrightarrow> (\<forall>fd f. fds w fd = Some f \<longrightarrow> 0 \<le> fd \<and> fd < int (next_fd w) \<and>
     (\<forall>i. f_kind f = F_shm i \<longrightarrow> inodes w i \<noteq> None))"

definition mem_ok :: "os \<Rightarrow> bool" where
  "mem_ok w \<longleftrightarrow>
     (\<forall>i. inodes w i \<noteq> None \<longrightarrow> i < next_ino w) \<and>
     (\<forall>b m. maps w b = Some m \<longrightarrow> b < next_map w \<and> inodes w (m_ino m) \<noteq> None)"

definition dir_ok :: "os \<Rightarrow> bool" where
  "dir_ok w \<longleftrightarrow> distinct (map fst (dir w)) \<and> (\<forall>(n, i) \<in> set (dir w). inodes w i \<noteq> None)"

definition devs_ok :: "os \<Rightarrow> bool" where
  "devs_ok w \<longleftrightarrow> (\<forall>p f i. devs (env w) p = Some f \<longrightarrow> f_kind f \<noteq> F_shm i)"

definition os_ok :: "os \<Rightarrow> bool" where
  "os_ok w \<longleftrightarrow> fds_ok w \<and> mem_ok w \<and> dir_ok w \<and> devs_ok w"

lemmas os_ok_defs = os_ok_def fds_ok_def mem_ok_def dir_ok_def devs_ok_def

lemma os_ok_fresh_fd: "os_ok w \<Longrightarrow> fds w (int (next_fd w)) = None"
  by (cases "fds w (int (next_fd w))") (auto simp: os_ok_def fds_ok_def)

lemma os_ok_fresh_ino: "os_ok w \<Longrightarrow> inodes w (next_ino w) = None"
  by (cases "inodes w (next_ino w)") (auto simp: os_ok_def mem_ok_def)

lemma os_ok_fresh_map: "os_ok w \<Longrightarrow> maps w (next_map w) = None"
  by (cases "maps w (next_map w)") (auto simp: os_ok_def mem_ok_def)

lemma os_ok_dir_inode:
  "os_ok w \<Longrightarrow> map_of (dir w) n = Some i \<Longrightarrow> \<exists>nd. inodes w i = Some nd"
  by (auto simp: os_ok_def dir_ok_def dest!: map_of_SomeD)

end
