(* ===== verification/Logging.thy ===== *)
theory Logging
  imports Posix
begin

text \<open>
  src/log.h: the log levels and the macro that prints one message to stderr. A message printed
  by the other components is recorded in the state as its level, function and format string;
  this theory models the text the macro prints in front of it.
\<close>

datatype av_log_level = AV_LOG_ERROR | AV_LOG_WARN | AV_LOG_NOTICE | AV_LOG_INFO | AV_LOG_DEBUG

fun level_num :: "av_log_level \<Rightarrow> nat" where
  "level_num AV_LOG_ERROR = 0"
| "level_num AV_LOG_WARN = 1"
| "level_num AV_LOG_NOTICE = 2"
| "level_num AV_LOG_INFO = 3"
| "level_num AV_LOG_DEBUG = 4"

instantiation av_log_level :: linorder
begin

definition less_eq_av_log_level :: "av_log_level \<Rightarrow> av_log_level \<Rightarrow> bool" where
  "less_eq_av_log_level a b = (level_num a \<le> level_num b)"

definition less_av_log_level :: "av_log_level \<Rightarrow> av_log_level \<Rightarrow> bool" where
  "less_av_log_level a b = (level_num a < level_num b)"

instance
proof
  fix a b :: av_log_level
  show "a = b" if "a \<le> b" "b \<le> a"
    using that by (cases a; cases b) (auto simp: less_eq_av_log_level_def)
qed (auto simp: less_eq_av_log_level_def less_av_log_level_def)

end

section \<open>Printing numbers\<close>

text \<open>The decimal digits of \<open>%u\<close> and \<open>%i\<close> (of a number that is not negative).\<close>

definition digit_char :: "nat \<Rightarrow> char" where
  "digit_char d = char_of (48 + d)"

fun fmt_u :: "nat \<Rightarrow> string" where
  "fmt_u n = (if n < 10 then [digit_char n] else fmt_u (n div 10) @ [digit_char (n mod 10)])"

declare fmt_u.simps [simp del]

lemma fmt_u_not_Nil [simp]: "fmt_u n \<noteq> []"
  by (subst fmt_u.simps) simp

lemma length_fmt_u_le: "n < 10 ^ k \<Longrightarrow> 0 < k \<Longrightarrow> length (fmt_u n) \<le> k"
proof (induction n arbitrary: k rule: fmt_u.induct)
  case (1 n)
  show ?case
  proof (cases "n < 10")
    case True
    with "1.prems" show ?thesis by (simp add: fmt_u.simps [of n])
  next
    case False
    with "1.prems" obtain j where k: "k = Suc j" "0 < j"
      by (cases k; cases "k - 1") auto
    with "1.prems" False have "n div 10 < 10 ^ j" by (simp add: less_mult_imp_div_less mult.commute)
    with "1.IH" [OF False, of j] k show ?thesis
      using False by (simp add: fmt_u.simps [of n])
  qed
qed

section \<open>The log macro\<close>

text \<open>
  \<open>av_log_level_meta(lvl, file, line, func, format, ...)\<close>: with \<open>av_log_verbose\<close> set the level,
  file, line and function come first, without it the function alone.
\<close>

definition av_log_level_meta :: "bool \<Rightarrow> av_log_level \<Rightarrow> string \<Rightarrow> nat \<Rightarrow> string \<Rightarrow> string \<Rightarrow> string" where
  "av_log_level_meta verbose lvl file line func msg =
     (if verbose
      then fmt_u (level_num lvl) @ '' '' @ file @ '':'' @ fmt_u line @ '' '' @ func @ ''() '' @ msg
      else func @ ''() '' @ msg)"

definition av_log :: "av_log_level \<Rightarrow> string \<Rightarrow> string \<Rightarrow> (os, unit) prog" where
  "av_log lvl func fmt = pcall (put_log (level_num lvl) func fmt)"

abbreviation av_log_error :: "string \<Rightarrow> string \<Rightarrow> (os, unit) prog" where
  "av_log_error \<equiv> av_log AV_LOG_ERROR"

abbreviation av_log_warn :: "string \<Rightarrow> string \<Rightarrow> (os, unit) prog" where
  "av_log_warn \<equiv> av_log AV_LOG_WARN"

abbreviation av_log_notice :: "string \<Rightarrow> string \<Rightarrow> (os, unit) prog" where
  "av_log_notice \<equiv> av_log AV_LOG_NOTICE"

abbreviation av_log_info :: "string \<Rightarrow> string \<Rightarrow> (os, unit) prog" where
  "av_log_info \<equiv> av_log AV_LOG_INFO"

abbreviation av_log_debug :: "string \<Rightarrow> string \<Rightarrow> (os, unit) prog" where
  "av_log_debug \<equiv> av_log AV_LOG_DEBUG"

text \<open>The macro loops for ever around the call of \<open>exit\<close>, which does not return.\<close>

definition av_log_error_and_exit :: "int \<Rightarrow> string \<Rightarrow> string \<Rightarrow> (os, 'a) prog" where
  "av_log_error_and_exit code func fmt = pthen (av_log_error func fmt) (pstop (Exit code))"

lemma wp_av_log [wp_rules]:
  "wp E (av_log lvl func fmt) Q =
     (\<lambda>w. Q () (w\<lparr>logs := logs w @ [Log_msg (level_num lvl) func fmt]\<rparr>))"
  by (simp add: av_log_def wp_rules put_log_def)

lemma wp_logI [wp_intro]:
  "wp E (k ()) Q (w\<lparr>logs := logs w @ [Log_msg (level_num lvl) func fmt]\<rparr>) \<Longrightarrow>
   wp E (pbind (av_log lvl func fmt) k) Q w"
  by (simp add: wp_rules)

end
