(* ===== verification/Util_IO.thy ===== *)
theory Util_IO
  imports Posix
begin

text \<open>
  src/util.c, the system-call wrappers: the loops that repeat a call as long as it fails with
  \<open>EINTR\<close>, and the loops that repeat a transfer until everything has been moved. A loop that
  never leaves its \<open>EINTR\<close> branch is \<open>None\<close> of the option model and \<open>Stop Diverge\<close> of the
  program; the locale \<open>eintr_call\<close> states what makes the loop return.
\<close>

section \<open>The EINTR loop\<close>

text \<open>
  \<open>for (;;) { if ((r = call) < 0) if (errno == EINTR) continue; return r; }\<close>, the body shared by
  \<open>av_read\<close>, \<open>av_close\<close>, \<open>av_ioctl\<close> and the two loops of \<open>av_write\<close>; \<open>rc\<close> is the returned number
  of a call that also hands back data.
\<close>

partial_function (option) retry_eintr ::
    "('r \<Rightarrow> int) \<Rightarrow> (os \<Rightarrow> 'r \<times> os) \<Rightarrow> os \<Rightarrow> ('r \<times> os) option" where
  "retry_eintr rc call w =
     (case call w of (r, w') \<Rightarrow>
        if rc r < 0 \<and> errno w' = EINTR then retry_eintr rc call w' else Some (r, w'))"

text \<open>What holds of every returned call, by the loop's invariant \<open>P\<close>.\<close>

lemma retry_eintr_rule:
  assumes ret: "retry_eintr rc call w = Some (r, w')"
    and init: "P w"
    and again: "\<And>w r w'. P w \<Longrightarrow> call w = (r, w') \<Longrightarrow> rc r < 0 \<Longrightarrow> errno w' = EINTR \<Longrightarrow> P w'"
    and leave: "\<And>w r w'. P w \<Longrightarrow> call w = (r, w') \<Longrightarrow> \<not> (rc r < 0 \<and> errno w' = EINTR) \<Longrightarrow> Q r w'"
  shows "Q r w'"
proof -
  have "rc = rc \<and> call = call \<longrightarrow> P w \<longrightarrow> Q (fst x) (snd x)"
    if "retry_eintr rc call w = Some x" for x
  proof (rule retry_eintr.raw_induct [where P = "\<lambda>rc' call' w x. rc' = rc \<and> call' = call
        \<longrightarrow> P w \<longrightarrow> Q (fst x) (snd x)", OF _ that])
    fix f rc' call' w x
    assume IH: "\<And>rc' call' w x. f rc' call' w = Some x \<Longrightarrow>
        rc' = rc \<and> call' = call \<longrightarrow> P w \<longrightarrow> Q (fst x) (snd x)"
      and eq: "(case call' w of (r, w') \<Rightarrow>
        if rc' r < 0 \<and> errno w' = EINTR then f rc' call' w' else Some (r, w')) = Some x"
    show "rc' = rc \<and> call' = call \<longrightarrow> P w \<longrightarrow> Q (fst x) (snd x)"
    proof (intro impI, elim conjE)
      assume hyps: "rc' = rc" "call' = call" "P w"
      obtain r1 w1 where c: "call w = (r1, w1)" by (cases "call w")
      show "Q (fst x) (snd x)"
      proof (cases "rc r1 < 0 \<and> errno w1 = EINTR")
        case True
        with eq hyps c have "f rc call w1 = Some x" by simp
        with IH hyps again [OF \<open>P w\<close> c] True show ?thesis by blast
      next
        case False
        with eq hyps c have "x = (r1, w1)" by auto
        with leave [OF \<open>P w\<close> c False] show ?thesis by simp
      qed
    qed
  qed
  with ret init show ?thesis by simp
qed

text \<open>
  The contract of a call the loop may wrap: it takes one tick, and it fails with \<open>EINTR\<close> only at a
  tick at which it is interruptible. The loop returns as soon as one such tick is not.
\<close>

locale eintr_call =
  fixes rc :: "'r \<Rightarrow> int"
    and call :: "os \<Rightarrow> 'r \<times> os"
    and interruptible :: "os \<Rightarrow> nat \<Rightarrow> bool"
  assumes call_tick: "clock (snd (call w)) = Suc (clock w)"
    and call_stable: "interruptible (snd (call w)) = interruptible w"
    and call_eintr: "rc (fst (call w)) < 0 \<Longrightarrow> errno (snd (call w)) = EINTR \<Longrightarrow>
           interruptible w (clock w)"
begin

lemma returns_within:
  assumes "clock w \<le> n" and "\<not> interruptible w n"
  shows "\<exists>r w'. retry_eintr rc call w = Some (r, w') \<and> clock w' \<le> Suc n"
  using assms
proof (induction "n - clock w" arbitrary: w rule: less_induct)
  case less
  obtain r w' where c: "call w = (r, w')" by (cases "call w")
  have tick: "clock w' = Suc (clock w)" using call_tick [of w] c by simp
  show ?case
  proof (cases "rc r < 0 \<and> errno w' = EINTR")
    case True
    then have "interruptible w (clock w)" using call_eintr [of w] c by simp
    with less.prems have lt: "clock w < n" by (cases "clock w = n") auto
    have "\<not> interruptible w' n" using less.prems(2) call_stable [of w] c by simp
    moreover have "n - clock w' < n - clock w" "clock w' \<le> n" using lt tick by linarith+
    ultimately obtain r'' w''
      where "retry_eintr rc call w' = Some (r'', w'')" "clock w'' \<le> Suc n"
      using less.hyps [of w'] by blast
    with c True show ?thesis by (subst retry_eintr.simps) simp
  next
    case False
    with c tick less.prems show ?thesis by (subst retry_eintr.simps) auto
  qed
qed

lemma not_eintr:
  assumes "retry_eintr rc call w = Some (r, w')"
  shows "\<not> (rc r < 0 \<and> errno w' = EINTR)"
  using assms by (rule retry_eintr_rule [where P = "\<lambda>_. True"]) auto

end

text \<open>The same rule as a weakest precondition that allows the loop not to return.\<close>

lemma wp_retry:
  assumes dv: "E Diverge" and init: "P w"
    and again: "\<And>w r w'. P w \<Longrightarrow> call w = (r, w') \<Longrightarrow> rc r < 0 \<Longrightarrow> errno w' = EINTR \<Longrightarrow> P w'"
    and leave: "\<And>w r w'. P w \<Longrightarrow> call w = (r, w') \<Longrightarrow> \<not> (rc r < 0 \<and> errno w' = EINTR) \<Longrightarrow> Q r w'"
  shows "wp E (plift (retry_eintr rc call)) Q w"
proof (cases "retry_eintr rc call w")
  case None
  with dv show ?thesis by (simp add: wp_plift_iff)
next
  case (Some x)
  obtain r w' where x: "x = (r, w')" by (cases x)
  with Some have "retry_eintr rc call w = Some (r, w')" by simp
  then have "Q r w'" using init again leave by (rule retry_eintr_rule)
  with Some x show ?thesis by (simp add: wp_plift_iff)
qed

section \<open>The wrappers\<close>

definition av_read :: "int \<Rightarrow> nat \<Rightarrow> (os, int \<times> u8 list) prog" where
  "av_read fd count = plift (retry_eintr fst (sys_read fd count))"

definition av_close :: "int \<Rightarrow> (os, int) prog" where
  "av_close fd = plift (retry_eintr id (sys_close fd))"

definition av_ioctl :: "int \<Rightarrow> ioctl_req \<Rightarrow> ioctl_arg \<Rightarrow> (os, int \<times> ioctl_arg) prog" where
  "av_ioctl fd request arg = plift (retry_eintr fst (sys_ioctl fd request arg))"

text \<open>
  \<open>av_write\<close>: \<open>send\<close> first, unless \<open>*type\<close> says the descriptor is no socket; on \<open>ENOTSOCK\<close> it
  notes that in \<open>*type\<close> (\<open>None\<close> is a null \<open>type\<close>) and uses \<open>write\<close>.
\<close>

definition av_write :: "int \<Rightarrow> u8 list \<Rightarrow> int option \<Rightarrow> (os, int \<times> int option) prog" where
  "av_write fd buf type =
     (let write_loop = (\<lambda>type. pbind (plift (retry_eintr id (sys_write fd buf)))
                                  (\<lambda>r. pret (r, type)))
      in if type = None \<or> type = Some 0
         then pbind (plift (retry_eintr id (sys_send fd buf))) (\<lambda>r.
                if 0 \<le> r then pret (r, type)
                else pbind (pgets errno) (\<lambda>e.
                  if e \<noteq> ENOTSOCK then pret (r, type)
                  else write_loop (map_option (\<lambda>_. 1) type)))
         else write_loop type)"

text \<open>
  The \<open>while (size > 0)\<close> loop of \<open>av_loop_read\<close>: \<open>done\<close> is \<open>ret\<close> together with the bytes stored
  so far. \<open>type\<close> is passed on to \<open>av_read\<close>, which does not look at it.
\<close>

function loop_read :: "int \<Rightarrow> nat \<Rightarrow> int \<Rightarrow> u8 list \<Rightarrow> (os, int \<times> u8 list) prog" where
  "loop_read fd sz ret stored w =
     (if sz = 0 then Ok (ret, stored) w
      else case av_read fd sz w of
             Stop e \<Rightarrow> Stop e
           | Ok (r, bs) w' \<Rightarrow>
               if r < 0 then Ok (r, stored) w'
               else if r = 0 then Ok (ret, stored) w'
               else loop_read fd (sz - nat r) (ret + r) (stored @ bs) w')"
  by pat_completeness auto
termination
  by (relation "measure (\<lambda>(fd, sz, ret, stored, w). sz)") auto

declare loop_read.simps [simp del]

definition av_loop_read :: "int \<Rightarrow> nat \<Rightarrow> (os, int \<times> u8 list) prog" where
  "av_loop_read fd sz =
     pthen (av_assert (0 \<le> fd))
    (pthen (av_assert (sz \<noteq> 0))
    (loop_read fd sz 0 []))"

function loop_write :: "int \<Rightarrow> u8 list \<Rightarrow> int option \<Rightarrow> int \<Rightarrow> (os, int) prog" where
  "loop_write fd data type ret w =
     (if data = [] then Ok ret w
      else case av_write fd data type w of
             Stop e \<Rightarrow> Stop e
           | Ok (r, type') w' \<Rightarrow>
               if r < 0 then Ok r w'
               else if r = 0 then Ok ret w'
               else loop_write fd (drop (nat r) data) type' (ret + r) w')"
  by pat_completeness auto
termination
  by (relation "measure (\<lambda>(fd, data, type, ret, w). length data)") auto

declare loop_write.simps [simp del]

text \<open>\<open>av_loop_write\<close>: a null \<open>type\<close> is replaced by a local that starts at 0.\<close>

definition av_loop_write :: "int \<Rightarrow> u8 list \<Rightarrow> int option \<Rightarrow> (os, int) prog" where
  "av_loop_write fd data type =
     pthen (av_assert (0 \<le> fd))
    (pthen (av_assert (data \<noteq> []))
    (loop_write fd data (case type of None \<Rightarrow> Some 0 | Some t \<Rightarrow> Some t) 0))"

section \<open>The calls as interruptible calls\<close>

abbreviation fault_eintr :: "os \<Rightarrow> nat \<Rightarrow> bool" where
  "fault_eintr w n \<equiv> fault (env w) n = Some EINTR"

interpretation read_call: eintr_call fst "sys_read fd count" fault_eintr
  by unfold_locales
    (auto simp: sys_read_def syscall_def act_defs split: option.splits)

interpretation close_call: eintr_call id "sys_close fd" fault_eintr
  by unfold_locales
    (auto simp: sys_close_def act_defs split: option.splits if_splits)

interpretation send_call: eintr_call id "sys_send fd bs" fault_eintr
  by unfold_locales
    (auto simp: sys_send_def syscall_def act_defs split: option.splits if_splits)

interpretation write_call: eintr_call id "sys_write fd bs" fault_eintr
  by unfold_locales
    (auto simp: sys_write_def syscall_def act_defs split: option.splits if_splits)

text \<open>An ioctl is interruptible also where the driver itself answers \<open>EINTR\<close>.\<close>

definition ioctl_eintr :: "ioctl_req \<Rightarrow> ioctl_arg \<Rightarrow> os \<Rightarrow> nat \<Rightarrow> bool" where
  "ioctl_eintr req arg w n \<longleftrightarrow>
     fault_eintr w n \<or> fst (snd (driver (env w) (Suc n) req arg)) = EINTR"

interpretation ioctl_call: eintr_call fst "sys_ioctl fd req arg" "ioctl_eintr req arg"
  by unfold_locales
    (auto simp: sys_ioctl_def syscall_def act_defs ioctl_eintr_def
      split: option.splits if_splits prod.splits)

section \<open>What the wrappers do\<close>

text \<open>A fault other than \<open>EINTR\<close>: the only source of a negative result on an open descriptor.\<close>

definition hard_fault :: "os \<Rightarrow> bool" where
  "hard_fault w \<longleftrightarrow> (\<exists>n e. fault (env w) n = Some e \<and> e \<noteq> EINTR)"

text \<open>Interruptions do not go on for ever.\<close>

definition fair :: "os \<Rightarrow> bool" where
  "fair w \<longleftrightarrow> (\<forall>n. \<exists>m \<ge> n. \<not> fault_eintr w m)"

text \<open>Some call fails at some time.\<close>

definition faulty :: "os \<Rightarrow> bool" where
  "faulty w \<longleftrightarrow> (\<exists>n. fault (env w) n \<noteq> None)"

lemma faulty_cong: "env w' = env w \<Longrightarrow> faulty w' = faulty w"
  by (simp add: faulty_def)

lemma hard_fault_faulty: "hard_fault w \<Longrightarrow> faulty w"
  by (auto simp: hard_fault_def faulty_def)

lemma not_faulty_fair: "\<not> faulty w \<Longrightarrow> fair w"
  by (auto simp: faulty_def fair_def)

lemma hard_fault_cong: "env w' = env w \<Longrightarrow> hard_fault w' = hard_fault w"
  by (simp add: hard_fault_def)

lemma fair_cong: "env w' = env w \<Longrightarrow> fair w' = fair w"
  by (simp add: fair_def)

lemma hard_faultI: "fault (env w) n = Some e \<Longrightarrow> e \<noteq> EINTR \<Longrightarrow> hard_fault w"
  by (auto simp: hard_fault_def)

text \<open>
  \<open>io_to F w w'\<close>: from \<open>w\<close> only the clock, \<open>errno\<close> and the number of the next descriptor have
  moved, and the descriptor table is \<open>F\<close>. It is the form in which the facts below say where a
  call leads.
\<close>

definition io_to :: "(int \<Rightarrow> fobj option) \<Rightarrow> os \<Rightarrow> os \<Rightarrow> bool" where
  "io_to F w w' \<longleftrightarrow> w' = w\<lparr>clock := clock w', errno := errno w', fds := F, next_fd := next_fd w'\<rparr>
     \<and> next_fd w \<le> next_fd w'"

lemma io_toD:
  assumes "io_to F w w'"
  shows "env w' = env w" "fds w' = F" "next_fd w \<le> next_fd w'" "dir w' = dir w"
    "inodes w' = inodes w" "next_ino w' = next_ino w" "maps w' = maps w"
    "next_map w' = next_map w" "rand_state w' = rand_state w" "logs w' = logs w"
    "has_whined w' = has_whined w"
    "hard_fault w' = hard_fault w" "fair w' = fair w" "faulty w' = faulty w"
proof -
  have e: "w' = w\<lparr>clock := clock w', errno := errno w', fds := F, next_fd := next_fd w'\<rparr>"
    using assms by (simp add: io_to_def)
  show "env w' = env w" by (subst e) simp
  then show "hard_fault w' = hard_fault w" "fair w' = fair w" "faulty w' = faulty w"
    by (rule hard_fault_cong, rule fair_cong, rule faulty_cong)
  show "fds w' = F" "dir w' = dir w"
    "inodes w' = inodes w" "next_ino w' = next_ino w" "maps w' = maps w"
    "next_map w' = next_map w" "rand_state w' = rand_state w" "logs w' = logs w"
    "has_whined w' = has_whined w"
    by (subst e, simp)+
  show "next_fd w \<le> next_fd w'" using assms by (simp add: io_to_def)
qed

lemma io_to_refl [simp]: "io_to (fds w) w w"
  by (simp add: io_to_def)

lemma io_to_trans: "io_to F w w' \<Longrightarrow> io_to G w' w'' \<Longrightarrow> io_to G w w''"
proof -
  assume a: "io_to F w w'" and b: "io_to G w' w''"
  have "w'' = w'\<lparr>clock := clock w'', errno := errno w'', fds := G, next_fd := next_fd w''\<rparr>"
    using b by (simp add: io_to_def)
  also have "w'\<lparr>clock := clock w'', errno := errno w'', fds := G, next_fd := next_fd w''\<rparr> =
      w\<lparr>clock := clock w'', errno := errno w'', fds := G, next_fd := next_fd w''\<rparr>"
    using a by (subst io_to_def [THEN iffD1, THEN conjunct1, of F w w']) simp_all
  finally show ?thesis using io_toD(3) [OF a] io_toD(3) [OF b] by (simp add: io_to_def)
qed

lemma os_ok_io_to:
  assumes "os_ok w" and "io_to F w w'" and "\<And>fd f. F fd = Some f \<Longrightarrow> \<exists>g. fds w fd = Some g \<and> f_kind g = f_kind f"
  shows "os_ok w'"
proof -
  note d = io_toD [OF assms(2)]
  have "fds_ok w'" unfolding fds_ok_def
  proof (intro allI impI)
    fix fd f
    assume "fds w' fd = Some f"
    then obtain g where "fds w fd = Some g" "f_kind g = f_kind f" using assms(3) d by auto
    then show "0 \<le> fd \<and> fd < int (next_fd w') \<and> (\<forall>i. f_kind f = F_shm i \<longrightarrow> inodes w' i \<noteq> None)"
      using assms(1) d by (fastforce simp: os_ok_def fds_ok_def)
  qed
  then show ?thesis using assms(1) d by (simp add: os_ok_def mem_ok_def dir_ok_def devs_ok_def)
qed

subsection \<open>Opening and closing\<close>

lemma sys_open_io:
  assumes "sys_open path w = (fd, w')" and "os_ok w"
  shows "fd = -1 \<and> io_to (fds w) w w' \<and> (\<not> faulty w \<longrightarrow> devs (env w) path = None) \<or>
    (\<exists>f. devs (env w) path = Some f \<and> fd = int (next_fd w) \<and> fds w fd = None \<and>
       io_to ((fds w)(fd \<mapsto> f)) w w' \<and> fd < int (next_fd w'))"
  using assms os_ok_fresh_fd [OF assms(2)]
  by (auto simp: sys_open_def syscall_def act_defs io_to_def faulty_def split: option.splits)

text \<open>
  A close takes the descriptor out of the table, except that a failing close may keep it on a
  system where \<open>close_err_releases\<close> does not hold.
\<close>

definition closed :: "int \<Rightarrow> os \<Rightarrow> (int \<Rightarrow> fobj option) \<Rightarrow> bool" where
  "closed fd w F \<longleftrightarrow> F = (fds w)(fd := None) \<or> F = fds w \<and> \<not> close_err_releases (env w)"

lemma sys_close_io:
  assumes "sys_close fd w = (r, w')"
  shows "(\<exists>F. closed fd w F \<and> io_to F w w' \<and> (r = 0 \<longrightarrow> F = (fds w)(fd := None))) \<and>
    (r = 0 \<or> r = -1)"
proof (cases "fault (env w) (clock w)")
  case (Some e)
  then have r: "r = -1" using assms by (simp add: sys_close_def Let_def split: if_splits)
  show ?thesis
  proof (cases "close_err_releases (env w)")
    case True
    with Some assms have "io_to ((fds w)(fd := None)) w w'"
      by (auto simp: sys_close_def io_to_def Let_def)
    with r show ?thesis by (auto simp: closed_def)
  next
    case False
    with Some assms have "io_to (fds w) w w'" by (auto simp: sys_close_def io_to_def Let_def)
    with r False show ?thesis by (auto simp: closed_def)
  qed
next
  case None
  with assms show ?thesis
    by (cases "fds w fd") (auto simp: sys_close_def io_to_def closed_def act_defs fun_upd_idem)
qed

lemma closed_trans: "closed fd w F \<Longrightarrow> fds v = F \<Longrightarrow> env v = env w \<Longrightarrow> closed fd v G \<Longrightarrow> closed fd w G"
  by (auto simp: closed_def)

lemma av_close_io:
  "wp ((=) Diverge) (av_close fd) (\<lambda>r w'. (r = 0 \<or> r = -1) \<and>
     (\<exists>F. closed fd w F \<and> io_to F w w' \<and> (r = 0 \<longrightarrow> F = (fds w)(fd := None)))) w"
proof -
  let ?I = "\<lambda>v. v = w \<or> (\<exists>F. closed fd w F \<and> io_to F w v)"
  have step: "\<exists>F. closed fd w F \<and> io_to F w v' \<and> (r = 0 \<longrightarrow> F = (fds w)(fd := None))"
    if I: "?I v" and c: "sys_close fd v = (r, v')" for v r v'
  proof -
    from sys_close_io [OF c] obtain F where F: "closed fd v F" "io_to F v v'"
      "r = 0 \<longrightarrow> F = (fds v)(fd := None)" by blast
    from I show ?thesis
    proof
      assume "v = w"
      with F show ?thesis by blast
    next
      assume "\<exists>G. closed fd w G \<and> io_to G w v"
      then obtain G where G: "closed fd w G" "io_to G w v" by blast
      note d = io_toD [OF G(2)]
      have "closed fd w F" using closed_trans [OF G(1) d(2) d(1) F(1)] .
      moreover have "r = 0 \<longrightarrow> F = (fds w)(fd := None)" using F(3) G(1) d by (auto simp: closed_def)
      ultimately show ?thesis using io_to_trans [OF G(2) F(2)] by blast
    qed
  qed
  show ?thesis unfolding av_close_def
  proof (rule wp_retry [where P = ?I], goal_cases)
    case (3 v r v')
    with step show ?case by blast
  next
    case (4 v r v')
    with step [OF 4(1,2)] sys_close_io [OF 4(2)] show ?case by auto
  qed simp_all
qed

subsection \<open>Reading\<close>

lemma sys_read_io:
  assumes "sys_read fd n w = ((r, bs), w')" and "fds w fd = Some f"
  shows "r < 0 \<and> bs = [] \<and> (errno w' \<noteq> EINTR \<longrightarrow> hard_fault w) \<and> io_to (fds w) w w'
       \<or> r = int (length bs) \<and> length bs \<le> n \<and> (bs = [] \<longrightarrow> n = 0 \<or> f_in f = []) \<and>
           (\<exists>rest. f_in f = bs @ rest \<and> io_to ((fds w)(fd \<mapsto> f\<lparr>f_in := rest\<rparr>)) w w')"
proof (cases "fault (env w) (clock w)")
  case (Some e)
  with assms show ?thesis
    by (auto simp: sys_read_def syscall_def io_to_def intro: hard_faultI)
next
  case None
  define k where "k = xfer_len n (length (f_in f)) (w\<lparr>clock := Suc (clock w)\<rparr>)"
  have k: "k \<le> n" "k \<le> length (f_in f)" "k = 0 \<longrightarrow> n = 0 \<or> f_in f = []"
    by (auto simp: k_def xfer_len_def min_def split: if_splits)
  from None assms have "r = int k" "bs = take k (f_in f)"
    and w': "w' = w\<lparr>clock := Suc (clock w), fds := (fds w)(fd \<mapsto> f\<lparr>f_in := drop k (f_in f)\<rparr>)\<rparr>"
    by (auto simp: sys_read_def syscall_def Let_def k_def)
  moreover have "io_to ((fds w)(fd \<mapsto> f\<lparr>f_in := drop k (f_in f)\<rparr>)) w w'"
    unfolding w' io_to_def by simp
  ultimately show ?thesis using k
    by (intro disjI2 conjI exI [where x = "drop k (f_in f)"]) auto
qed

lemma av_read_io:
  assumes f: "fds w fd = Some f"
  shows "wp ((=) Diverge) (av_read fd n) (\<lambda>(r, bs) w'.
           r < 0 \<and> bs = [] \<and> hard_fault w \<and> io_to (fds w) w w'
         \<or> r = int (length bs) \<and> length bs \<le> n \<and> (bs = [] \<longrightarrow> n = 0 \<or> f_in f = []) \<and>
           (\<exists>rest. f_in f = bs @ rest \<and> io_to ((fds w)(fd \<mapsto> f\<lparr>f_in := rest\<rparr>)) w w')) w"
  unfolding av_read_def
proof (rule wp_retry [where P = "\<lambda>v. io_to (fds w) w v"], goal_cases)
  case (3 v r v')
  note v = io_toD [OF 3(1)]
  from 3 f v sys_read_io [of fd n v "fst r" "snd r" v' f] have "io_to (fds w) v v'" by auto
  with 3(1) show ?case by (rule io_to_trans)
next
  case (4 v r v')
  note v = io_toD [OF 4(1)]
  from 4 f v sys_read_io [of fd n v "fst r" "snd r" v' f] show ?case
    by (cases r) (auto intro: io_to_trans [OF 4(1)])
qed simp_all

lemma loop_read_io:
  assumes "fds w fd = Some f"
  shows "wp ((=) Diverge) (loop_read fd sz ret st) (\<lambda>(r, out) w'. \<exists>bs rest.
           f_in f = bs @ rest \<and> out = st @ bs \<and> length bs \<le> sz \<and>
           io_to ((fds w)(fd \<mapsto> f\<lparr>f_in := rest\<rparr>)) w w' \<and>
           (r < 0 \<and> hard_fault w \<or>
            r = ret + int (length bs) \<and> (length bs = sz \<or> rest = []))) w"
  using assms
proof (induction fd sz ret st w arbitrary: f rule: loop_read.induct)
  case (1 fd sz ret st w)
  have same: "(fds w)(fd \<mapsto> f\<lparr>f_in := f_in f\<rparr>) = fds w"
    using "1.prems" by (simp add: fun_upd_idem)
  show ?case
  proof (cases "sz = 0 \<or> (\<exists>e. av_read fd sz w = Stop e)")
    case True
    then show ?thesis
      using same av_read_io [OF "1.prems", of sz]
      by (subst wp_def, subst loop_read.simps) (auto simp: wp_def)
  next
    case False
    then obtain r bs w' where rd: "av_read fd sz w = Ok (r, bs) w'" and sz: "0 < sz"
      by (cases "av_read fd sz w") auto
    note io = av_read_io [OF "1.prems", of sz, THEN wp_OkD, OF rd]
    show ?thesis
    proof (cases "r \<le> 0")
      case True
      then have "loop_read fd sz ret st w = Ok (if r < 0 then r else ret, st) w'"
        using rd sz by (subst loop_read.simps) simp
      moreover from True io sz have "if r < 0 then hard_fault w else f_in f = []" by auto
      moreover have "io_to ((fds w)(fd \<mapsto> f\<lparr>f_in := f_in f\<rparr>)) w w'"
      proof (cases "r < 0")
        case True
        with io have "io_to (fds w) w w'" by auto
        then show ?thesis using same by simp
      next
        case False
        with io \<open>r \<le> 0\<close> obtain rest
          where "f_in f = [] @ rest" "io_to ((fds w)(fd \<mapsto> f\<lparr>f_in := rest\<rparr>)) w w'" by auto
        then show ?thesis by simp
      qed
      ultimately show ?thesis
        by (subst wp_def) (auto intro!: exI [of _ "[]"] exI [of _ "f_in f"] split: if_splits)
    next
      case False
      with io obtain rest where io: "r = int (length bs)" "length bs \<le> sz"
        "f_in f = bs @ rest" and w': "io_to ((fds w)(fd \<mapsto> f\<lparr>f_in := rest\<rparr>)) w w'"
        by auto
      have step: "loop_read fd sz ret st w = loop_read fd (sz - nat r) (ret + r) (st @ bs) w'"
        using rd sz False by (subst loop_read.simps) simp
      have fd': "fds w' fd = Some (f\<lparr>f_in := rest\<rparr>)" using io_toD(2) [OF w'] by simp
      note IH = "1.IH" [OF _ rd refl _ _ fd', THEN wp_mono]
      have "wp ((=) Diverge) (loop_read fd (sz - nat r) (ret + r) (st @ bs)) (\<lambda>(r', out) w''.
          \<exists>bs rest. f_in f = bs @ rest \<and> out = st @ bs \<and> length bs \<le> sz \<and>
           io_to ((fds w)(fd \<mapsto> f\<lparr>f_in := rest\<rparr>)) w w'' \<and>
           (r' < 0 \<and> hard_fault w \<or>
            r' = ret + int (length bs) \<and> (length bs = sz \<or> rest = []))) w'"
      proof (rule IH, goal_cases)
        case (4 x w'')
        then obtain bs' rest' where "rest = bs' @ rest'" "snd x = st @ bs @ bs'"
          "length bs' \<le> sz - nat r" "io_to ((fds w')(fd \<mapsto> f\<lparr>f_in := rest'\<rparr>)) w' w''"
          "fst x < 0 \<and> hard_fault w' \<or>
             fst x = ret + r + int (length bs') \<and> (length bs' = sz - nat r \<or> rest' = [])"
          by (auto simp: fun_upd_def split: prod.splits)
        then show ?case using io io_to_trans [OF w'] io_toD [OF w']
          by (cases x) (auto intro!: exI [of _ "bs @ bs'"] exI [of _ rest'])
      qed (use sz False in auto)
      then show ?thesis unfolding wp_def step .
    qed
  qed
qed

subsection \<open>Writing\<close>

lemma put_bytes_io:
  assumes "put_bytes fd f bs v = (r, w')" and "bs \<noteq> []" and "io_to (fds w) w v"
  shows "\<exists>k. r = int k \<and> 0 < k \<and> k \<le> length bs \<and>
           io_to ((fds w)(fd \<mapsto> f\<lparr>f_out := f_out f @ take k bs\<rparr>)) w w'"
proof -
  define k where "k = xfer_len (length bs) (length bs) v"
  have k: "0 < k" "k \<le> length bs" using assms(2)
    by (auto simp: k_def xfer_len_def)
  from assms(1) have "r = int k" and
    w': "w' = v\<lparr>fds := (fds v)(fd \<mapsto> f\<lparr>f_out := f_out f @ take k bs\<rparr>)\<rparr>"
    by (auto simp: put_bytes_def Let_def k_def)
  have "fds v = fds w" using assms(3) by (rule io_toD)
  then have "io_to ((fds w)(fd \<mapsto> f\<lparr>f_out := f_out f @ take k bs\<rparr>)) v w'"
    unfolding w' io_to_def by simp
  then have "io_to ((fds w)(fd \<mapsto> f\<lparr>f_out := f_out f @ take k bs\<rparr>)) w w'"
    by (rule io_to_trans [OF assms(3)])
  with k \<open>r = int k\<close> show ?thesis by blast
qed

lemma io_to_tick: "io_to (fds w) w (w\<lparr>clock := c\<rparr>)"
  by (simp add: io_to_def)

lemma io_to_fail: "io_to (fds w) w (w\<lparr>clock := c, errno := e\<rparr>)"
  by (simp add: io_to_def)

text \<open>The outcome of a \<open>send\<close> or \<open>write\<close> of \<open>bs\<close>: a failure, or a non-empty prefix moved.\<close>

definition put_outcome :: "int \<Rightarrow> fobj \<Rightarrow> u8 list \<Rightarrow> os \<Rightarrow> int \<Rightarrow> os \<Rightarrow> bool" where
  "put_outcome fd f bs w r w' \<longleftrightarrow>
     r < 0 \<and> io_to (fds w) w w' \<or>
     (\<exists>k. r = int k \<and> 0 < k \<and> k \<le> length bs \<and>
        io_to ((fds w)(fd \<mapsto> f\<lparr>f_out := f_out f @ take k bs\<rparr>)) w w')"

lemma put_outcome_trans:
  assumes "io_to (fds w) w v" and "put_outcome fd f bs v r w'"
  shows "put_outcome fd f bs w r w'"
  using assms io_toD(2) [OF assms(1)] io_to_trans [OF assms(1)]
  by (auto simp: put_outcome_def)

lemma sys_send_io:
  assumes "sys_send fd bs w = (r, w')" and "fds w fd = Some f" and "bs \<noteq> []"
  shows "put_outcome fd f bs w r w' \<and>
    (r < 0 \<longrightarrow> errno w' \<noteq> EINTR \<longrightarrow> errno w' \<noteq> ENOTSOCK \<longrightarrow> hard_fault w)"
proof (cases "fault (env w) (clock w)")
  case (Some e)
  with assms show ?thesis
    by (auto simp: sys_send_def syscall_def put_outcome_def io_to_def intro: hard_faultI)
next
  case None
  with assms put_bytes_io [of fd f bs "w\<lparr>clock := Suc (clock w)\<rparr>" r w' w] io_to_tick [of w]
  show ?thesis
    by (auto simp: sys_send_def syscall_def put_outcome_def fail_with_def Let_def io_to_fail
        split: if_splits)
qed

lemma sys_write_io:
  assumes "sys_write fd bs w = (r, w')" and "fds w fd = Some f" and "bs \<noteq> []" and "f_write f"
  shows "put_outcome fd f bs w r w' \<and> (r < 0 \<longrightarrow> errno w' \<noteq> EINTR \<longrightarrow> hard_fault w)"
proof (cases "fault (env w) (clock w)")
  case (Some e)
  with assms show ?thesis
    by (auto simp: sys_write_def syscall_def put_outcome_def io_to_def intro: hard_faultI)
next
  case None
  with assms put_bytes_io [of fd f bs "w\<lparr>clock := Suc (clock w)\<rparr>" r w' w] io_to_tick [of w]
  show ?thesis
    by (auto simp: sys_write_def syscall_def put_outcome_def)
qed

lemma write_retry_io:
  assumes f: "fds w fd = Some f" and ne: "bs \<noteq> []" and wr: "f_write f"
  shows "wp ((=) Diverge) (plift (retry_eintr id (sys_write fd bs)))
     (\<lambda>r w'. put_outcome fd f bs w r w' \<and> (r < 0 \<longrightarrow> hard_fault w)) w"
proof (rule wp_retry [where P = "\<lambda>v. io_to (fds w) w v"], goal_cases)
  case (3 v r v')
  note v = io_toD [OF 3(1)]
  from 3 f v ne wr sys_write_io [of fd bs v r v' f] have "io_to (fds w) v v'"
    by (auto simp: put_outcome_def)
  with 3(1) show ?case by (rule io_to_trans)
next
  case (4 v r v')
  note v = io_toD [OF 4(1)]
  from 4 f v ne wr sys_write_io [of fd bs v r v' f] put_outcome_trans [OF 4(1)]
  show ?case by auto
qed simp_all

lemma send_retry_io:
  assumes f: "fds w fd = Some f" and ne: "bs \<noteq> []"
  shows "wp ((=) Diverge) (plift (retry_eintr id (sys_send fd bs)))
     (\<lambda>r w'. put_outcome fd f bs w r w' \<and> (r < 0 \<longrightarrow> errno w' \<noteq> ENOTSOCK \<longrightarrow> hard_fault w)) w"
proof (rule wp_retry [where P = "\<lambda>v. io_to (fds w) w v"], goal_cases)
  case (3 v r v')
  note v = io_toD [OF 3(1)]
  from 3 f v ne sys_send_io [of fd bs v r v' f] have "io_to (fds w) v v'"
    by (auto simp: put_outcome_def)
  with 3(1) show ?case by (rule io_to_trans)
next
  case (4 v r v')
  note v = io_toD [OF 4(1)]
  from 4 f v ne sys_send_io [of fd bs v r v' f] put_outcome_trans [OF 4(1)]
  show ?case by auto
qed simp_all

lemma av_write_io:
  assumes f: "fds w fd = Some f" and ne: "bs \<noteq> []" and wr: "f_write f"
  shows "wp ((=) Diverge) (av_write fd bs ty)
     (\<lambda>(r, ty') w'. put_outcome fd f bs w r w' \<and> (r < 0 \<longrightarrow> hard_fault w)) w"
proof -
  have wrl: "wp ((=) Diverge) (plift (retry_eintr id (sys_write fd bs)))
     (\<lambda>r w'. put_outcome fd f bs w r w' \<and> (r < 0 \<longrightarrow> hard_fault w)) v"
    if "io_to (fds w) w v" for v
    using write_retry_io [of v fd f bs, OF _ ne wr] f io_toD [OF that] put_outcome_trans [OF that]
    by (auto intro: wp_mono)
  show ?thesis
  proof (cases "ty = None \<or> ty = Some 0")
    case True
    have "wp ((=) Diverge) (plift (retry_eintr id (sys_send fd bs))) (\<lambda>r w'.
        if 0 \<le> r then put_outcome fd f bs w r w'
        else if errno w' \<noteq> ENOTSOCK then put_outcome fd f bs w r w' \<and> hard_fault w
        else io_to (fds w) w w') w"
      by (rule wp_mono [OF send_retry_io [OF f ne]]) (auto simp: put_outcome_def)
    then have "wp ((=) Diverge) (plift (retry_eintr id (sys_send fd bs))) (\<lambda>r w'.
        if 0 \<le> r then put_outcome fd f bs w r w'
        else if errno w' \<noteq> ENOTSOCK then put_outcome fd f bs w r w' \<and> hard_fault w
        else wp ((=) Diverge) (plift (retry_eintr id (sys_write fd bs)))
          (\<lambda>r w'. put_outcome fd f bs w r w' \<and> (r < 0 \<longrightarrow> hard_fault w)) w') w"
      by (rule wp_mono) (auto split: if_splits intro: wrl)
    with True show ?thesis
      by (auto simp: av_write_def wp_rules Let_def elim!: wp_mono split: if_splits)
  next
    case False
    then have "av_write fd bs ty = pbind (plift (retry_eintr id (sys_write fd bs)))
        (\<lambda>r. pret (r, ty))"
      by (auto simp: av_write_def Let_def)
    with wrl [of w] show ?thesis by (simp add: wp_rules)
  qed
qed

lemma loop_write_io:
  assumes "fds w fd = Some f" and "f_write f"
  shows "wp ((=) Diverge) (loop_write fd data ty ret) (\<lambda>r w'. \<exists>k \<le> length data.
           io_to ((fds w)(fd \<mapsto> f\<lparr>f_out := f_out f @ take k data\<rparr>)) w w' \<and>
           (r < 0 \<and> hard_fault w \<or> r = ret + int k \<and> k = length data)) w"
  using assms
proof (induction fd data ty ret w arbitrary: f rule: loop_write.induct)
  case (1 fd data ty ret w)
  show ?case
  proof (cases "data = [] \<or> (\<exists>e. av_write fd data ty w = Stop e)")
    case True
    then show ?thesis
      using "1.prems" av_write_io [OF "1.prems"(1) _ "1.prems"(2), of data ty]
      by (subst wp_def, subst loop_write.simps) (auto simp: wp_def fun_upd_idem)
  next
    case False
    then obtain r ty' w' where wr: "av_write fd data ty w = Ok (r, ty') w'" and ne: "data \<noteq> []"
      by (cases "av_write fd data ty w") auto
    note io = av_write_io [OF "1.prems"(1) ne "1.prems"(2), of ty, THEN wp_OkD, OF wr, simplified]
    show ?thesis
    proof (cases "r < 0")
      case True
      then have "loop_write fd data ty ret w = Ok r w'"
        using wr ne by (subst loop_write.simps) simp
      with True io "1.prems"(1) show ?thesis
        by (subst wp_def) (auto simp: put_outcome_def fun_upd_idem intro!: exI [of _ 0])
    next
      case False
      with io obtain k where k: "r = int k" "0 < k" "k \<le> length data"
        and w': "io_to ((fds w)(fd \<mapsto> f\<lparr>f_out := f_out f @ take k data\<rparr>)) w w'"
        by (auto simp: put_outcome_def)
      let ?f = "f\<lparr>f_out := f_out f @ take k data\<rparr>"
      have step: "loop_write fd data ty ret w = loop_write fd (drop (nat r) data) ty' (ret + r) w'"
        using wr ne k by (subst loop_write.simps) simp
      have fd': "fds w' fd = Some ?f" using io_toD(2) [OF w'] by simp
      note IH = "1.IH" [OF _ wr refl _ _ fd', THEN wp_mono]
      have "wp ((=) Diverge) (loop_write fd (drop (nat r) data) ty' (ret + r)) (\<lambda>r' w''.
          \<exists>k \<le> length data. io_to ((fds w)(fd \<mapsto> f\<lparr>f_out := f_out f @ take k data\<rparr>)) w w'' \<and>
           (r' < 0 \<and> hard_fault w \<or> r' = ret + int k \<and> k = length data)) w'"
      proof (rule IH, goal_cases)
        case (5 r' w'')
        then obtain j where "j \<le> length data - k"
          "io_to ((fds w')(fd \<mapsto> f\<lparr>f_out := f_out f @ take (k + j) data\<rparr>)) w' w''"
          "r' < 0 \<and> hard_fault w' \<or> r' = ret + r + int j \<and> j = length data - k"
          using k by (auto simp: take_add fun_upd_def)
        then show ?case using k io_to_trans [OF w'] io_toD [OF w']
          by (intro exI [of _ "k + j"]) auto
      qed (use ne k "1.prems" in auto)
      then show ?thesis unfolding wp_def step .
    qed
  qed
qed

subsection \<open>Returning\<close>

lemma retry_total:
  assumes "eintr_call rc call fault_eintr" and "fair w"
  shows "\<exists>r w'. retry_eintr rc call w = Some (r, w')"
proof -
  from \<open>fair w\<close> obtain m where "clock w \<le> m" "\<not> fault_eintr w m"
    by (auto simp: fair_def)
  then show ?thesis using eintr_call.returns_within [OF assms(1)] by blast
qed

lemma av_read_total: "fair w \<Longrightarrow> \<exists>r w'. av_read fd n w = Ok r w'"
  using retry_total [OF read_call.eintr_call_axioms, of w fd n]
  by (auto simp: av_read_def plift_def)

lemma av_close_total: "fair w \<Longrightarrow> \<exists>r w'. av_close fd w = Ok r w'"
  using retry_total [OF close_call.eintr_call_axioms, of w fd]
  by (auto simp: av_close_def plift_def)

lemma av_write_total:
  assumes "fair w"
  shows "\<exists>r w'. av_write fd bs ty w = Ok r w'"
proof -
  have wrl: "\<exists>r w'. plift (retry_eintr id (sys_write fd bs)) v = Ok r w'" if "fair v" for v
    using retry_total [OF write_call.eintr_call_axioms that, of fd bs] by (auto simp: plift_def)
  obtain r v where s: "retry_eintr id (sys_send fd bs) w = Some (r, v)"
    using retry_total [OF send_call.eintr_call_axioms assms, of fd bs] by blast
  have step: "env v' = env v" if "sys_send fd bs v = (r', v')" for v r' v'
    using arg_cong [OF that, of "\<lambda>x. env (snd x)"] by (simp only: sys_env snd_conv)
  from s have "env v = env w"
  proof (rule retry_eintr_rule [where P = "\<lambda>v. env v = env w" and Q = "\<lambda>_ v. env v = env w"])
  qed (auto dest: step)
  then have "fair v" using assms fair_cong [of v w] by simp
  show ?thesis
  proof (cases "ty = None \<or> ty = Some 0")
    case True
    with s have "av_write fd bs ty w =
        (if 0 \<le> r \<or> errno v \<noteq> ENOTSOCK then Ok (r, ty) v
         else (case plift (retry_eintr id (sys_write fd bs)) v of
                 Ok r' v' \<Rightarrow> Ok (r', map_option (\<lambda>_. 1) ty) v' | Stop e \<Rightarrow> Stop e))"
      by (simp add: av_write_def pbind_def plift_def pret_def pgets_def Let_def)
    with wrl [OF \<open>fair v\<close>] show ?thesis by auto
  next
    case False
    then have "av_write fd bs ty w = (case plift (retry_eintr id (sys_write fd bs)) w of
        Ok r' v' \<Rightarrow> Ok (r', ty) v' | Stop e \<Rightarrow> Stop e)"
      by (auto simp: av_write_def pbind_def pret_def Let_def)
    with wrl [OF assms] show ?thesis by auto
  qed
qed

lemma loop_read_total:
  assumes "fds w fd = Some f" and "fair w"
  shows "\<exists>r w'. loop_read fd sz ret st w = Ok r w'"
  using assms
proof (induction fd sz ret st w arbitrary: f rule: loop_read.induct)
  case (1 fd sz ret st w)
  show ?case
  proof (cases "sz = 0")
    case True
    then show ?thesis by (subst loop_read.simps) simp
  next
    case False
    obtain r bs w' where rd: "av_read fd sz w = Ok (r, bs) w'"
      using av_read_total [OF "1.prems"(2), of fd sz] by auto
    show ?thesis
    proof (cases "r \<le> 0")
      case True
      then show ?thesis using rd False by (subst loop_read.simps) simp
    next
      case pos: False
      with av_read_io [OF "1.prems"(1), of sz, THEN wp_OkD, OF rd]
      obtain f' where "fds w' fd = Some f'" "fair w'"
        using "1.prems" io_toD [of "(fds w)(fd \<mapsto> f\<lparr>f_in := rest\<rparr>)" w w' for rest] by auto
      with "1.IH" [OF False rd refl] pos
      show ?thesis using rd False by (subst loop_read.simps) simp
    qed
  qed
qed

lemma loop_write_total:
  assumes "fds w fd = Some f" and "f_write f" and "fair w"
  shows "\<exists>r w'. loop_write fd data ty ret w = Ok r w'"
  using assms
proof (induction fd data ty ret w arbitrary: f rule: loop_write.induct)
  case (1 fd data ty ret w)
  show ?case
  proof (cases "data = []")
    case True
    then show ?thesis by (subst loop_write.simps) simp
  next
    case False
    obtain r ty' w' where wr: "av_write fd data ty w = Ok (r, ty') w'"
      using av_write_total [OF "1.prems"(3), of fd data ty] by auto
    show ?thesis
    proof (cases "r \<le> 0")
      case True
      then show ?thesis using wr False by (subst loop_write.simps) simp
    next
      case pos: False
      with av_write_io [OF "1.prems"(1) False "1.prems"(2), of ty, THEN wp_OkD, OF wr]
      obtain k where k: "io_to ((fds w)(fd \<mapsto> f\<lparr>f_out := f_out f @ take k data\<rparr>)) w w'"
        by (auto simp: put_outcome_def)
      then have "fds w' fd = Some (f\<lparr>f_out := f_out f @ take k data\<rparr>)" "fair w'"
        using "1.prems" io_toD [OF k] by simp_all
      with "1.IH" [OF False wr refl] pos "1.prems"(2)
      show ?thesis using wr False by (subst loop_write.simps) simp
    qed
  qed
qed

end
