(* ===== verification/Randomness.thy ===== *)
theory Randomness
  imports Logging Util_IO
begin

text \<open>
  src/random.c: random bytes from /dev/urandom or /dev/random, and from the C library's \<open>rand\<close>
  where neither can be read. The buffer \<open>ret_data\<close> is a list of bytes that comes in with whatever
  it holds and goes out filled.
\<close>

definition devices :: "string list" where
  "devices = [''/dev/urandom'', ''/dev/random'']"

text \<open>\<open>av_loop_read\<close> into the start of a buffer.\<close>

definition overwrite :: "u8 list \<Rightarrow> u8 list \<Rightarrow> u8 list" where
  "overwrite bs buf = bs @ drop (length bs) buf"

text \<open>One round of the loop over the devices: open, read, close.\<close>

definition random_device :: "string \<Rightarrow> u8 list \<Rightarrow> (os, int \<times> u8 list) prog" where
  "random_device dev buf =
     pbind (pcall (sys_open dev)) (\<lambda>fd.
       if 0 \<le> fd
       then pbind (av_loop_read fd (length buf)) (\<lambda>(r, bs).
              pthen (av_close fd)
                (pret (if r < 0 \<or> r \<noteq> int (length buf) then -1 else 0, overwrite bs buf)))
       else pret (-1, buf))"

fun random_loop :: "string list \<Rightarrow> int \<Rightarrow> u8 list \<Rightarrow> (os, int \<times> u8 list) prog" where
  "random_loop [] ret buf = pret (ret, buf)"
| "random_loop (dev # ds) ret buf =
     pbind (random_device dev buf) (\<lambda>(ret', buf').
       if ret' = 0 then pret (ret', buf') else random_loop ds ret' buf')"

definition random_proper :: "u8 list \<Rightarrow> (os, int \<times> u8 list) prog" where
  "random_proper buf =
     pthen (av_assert (0 < length buf)) (random_loop devices (-1) buf)"

text \<open>The warning, printed once.\<close>

definition whine :: "string \<Rightarrow> string \<Rightarrow> (os, unit) prog" where
  "whine func msg =
     pbind (pgets has_whined) (\<lambda>hw.
       if hw then pret ()
       else pthen (av_log_warn func msg) (pmodify (\<lambda>w. w\<lparr>has_whined := True\<rparr>)))"

definition av_random_seed :: "u8 list \<Rightarrow> (os, unit) prog" where
  \<comment> \<open>the argument is the uninitialised \<open>seed\<close>\<close>
  "av_random_seed seed0 =
     pbind (random_proper seed0) (\<lambda>(r, seed).
     pbind (if r < 0
            then pthen (whine ''av_random_seed''
                   ''Failed to get proper entropy. Falling back to seeding with current time.'')
                 (pgets (\<lambda>w. ucast (now (env w))))
            else pret (int_of_bytes (seed ! 0) (seed ! 1) (seed ! 2) (seed ! 3)))
     (\<lambda>s. pcall (sys_srand s)))"

fun fill_rand :: "nat \<Rightarrow> (os, u8 list) prog" where
  "fill_rand 0 = pret []"
| "fill_rand (Suc l) =
     pbind (pcall sys_rand) (\<lambda>v. pbind (fill_rand l) (\<lambda>bs. pret (ucast v # bs)))"

definition av_random :: "u8 list \<Rightarrow> (os, u8 list) prog" where
  "av_random buf =
     pthen (av_assert (0 < length buf))
    (pbind (random_proper buf) (\<lambda>(r, buf').
       if 0 \<le> r then pret buf'
       else pthen (whine ''av_random''
              ''Failed to get proper entropy. Falling back to unsecure pseudo RNG.'')
            (fill_rand (length buf))))"

section \<open>What the functions do\<close>

text \<open>
  Where a random read leads: only the clock, \<open>errno\<close> and descriptor numbers move, and every
  descriptor opened is closed again, unless closing itself fails and keeps it.
\<close>

definition rand_frame :: "os \<Rightarrow> os \<Rightarrow> bool" where
  "rand_frame w w' \<longleftrightarrow> os_ok w' \<and>
     (\<exists>F. io_to F w w' \<and> (close_err_releases (env w) \<longrightarrow> F = fds w))"

lemma rand_frame_refl: "os_ok w \<Longrightarrow> rand_frame w w"
  unfolding rand_frame_def by (intro conjI exI [of _ "fds w"] io_to_refl) simp_all

lemma rand_frame_trans: "rand_frame w v \<Longrightarrow> rand_frame v w' \<Longrightarrow> rand_frame w w'"
  unfolding rand_frame_def by (metis io_toD(1) io_toD(2) io_to_trans)

lemma rand_frameD:
  assumes "rand_frame w w'"
  shows "os_ok w'" "env w' = env w" "dir w' = dir w" "inodes w' = inodes w"
    "next_ino w' = next_ino w" "maps w' = maps w" "next_map w' = next_map w"
    "rand_state w' = rand_state w" "logs w' = logs w" "has_whined w' = has_whined w"
    "fair w' = fair w" "hard_fault w' = hard_fault w"
    "close_err_releases (env w) \<Longrightarrow> fds w' = fds w"
  using assms by (auto simp: rand_frame_def dest: io_toD)

text \<open>The bytes the device would deliver in full, if it exists and holds enough of them.\<close>

definition device_bytes :: "os \<Rightarrow> string \<Rightarrow> nat \<Rightarrow> u8 list option" where
  "device_bytes w path n = (case devs (env w) path of
     None \<Rightarrow> None | Some f \<Rightarrow> if n \<le> length (f_in f) then Some (take n (f_in f)) else None)"

lemma random_device_spec:
  assumes ok: "os_ok w" and ne: "buf \<noteq> []"
  shows "wp ((=) Diverge) (random_device path buf) (\<lambda>(r, buf') w'.
     rand_frame w w' \<and> length buf' = length buf \<and> (r = 0 \<or> r = -1) \<and>
     (r = 0 \<longrightarrow> device_bytes w path (length buf) = Some buf') \<and>
     (r \<noteq> 0 \<longrightarrow> faulty w \<or> device_bytes w path (length buf) = None)) w"
proof -
  obtain fd v where op: "sys_open path w = (fd, v)" by (cases "sys_open path w")
  from sys_open_io [OF op ok] show ?thesis
  proof (elim disjE exE conjE)
    assume "fd = -1" "io_to (fds w) w v" "\<not> faulty w \<longrightarrow> devs (env w) path = None"
    moreover from this have "os_ok v" using os_ok_io_to [OF ok] by blast
    ultimately show ?thesis
      by (auto simp: random_device_def wp_rules op rand_frame_def device_bytes_def)
  next
    fix f
    assume f: "devs (env w) path = Some f" and fd: "fd = int (next_fd w)" "fds w fd = None"
      and v: "io_to ((fds w)(fd \<mapsto> f)) w v" and next_fd: "fd < int (next_fd v)"
    have read: "wp ((=) Diverge) (av_loop_read fd (length buf)) (\<lambda>(r, bs) u. \<exists>rest.
        f_in f = bs @ rest \<and> length bs \<le> length buf \<and>
        io_to ((fds w)(fd \<mapsto> f\<lparr>f_in := rest\<rparr>)) w u \<and> fd < int (next_fd u) \<and>
        (r = int (length buf) \<longrightarrow> length bs = length buf) \<and>
        (r \<noteq> int (length buf) \<longrightarrow> faulty w \<or> length (f_in f) < length buf)) v"
    proof -
      have "fds v fd = Some f" using io_toD(2) [OF v] by simp
      note io = loop_read_io [OF this, of "length buf" 0 "[]"]
      have "wp ((=) Diverge) (loop_read fd (length buf) 0 []) (\<lambda>(r, bs) u. \<exists>rest.
          f_in f = bs @ rest \<and> length bs \<le> length buf \<and>
          io_to ((fds w)(fd \<mapsto> f\<lparr>f_in := rest\<rparr>)) w u \<and> fd < int (next_fd u) \<and>
          (r = int (length buf) \<longrightarrow> length bs = length buf) \<and>
          (r \<noteq> int (length buf) \<longrightarrow> faulty w \<or> length (f_in f) < length buf)) v"
      proof (rule wp_mono [OF io], clarsimp, goal_cases)
        case (1 r u bs rest)
        then show ?case
          using io_toD [OF v] hard_fault_faulty [of w] io_toD(3) [OF 1(3)] io_to_trans [OF v 1(3)] next_fd
          by auto
      qed
      then show ?thesis using fd ne by (simp add: av_loop_read_def wp_rules)
    qed
    have close: "wp ((=) Diverge) (av_close fd) (\<lambda>_ u'. rand_frame w u') u"
      if u: "io_to ((fds w)(fd \<mapsto> f\<lparr>f_in := rest\<rparr>)) w u" "fd < int (next_fd u)" for u rest
    proof (rule wp_mono [OF av_close_io])
      fix r u'
      assume "(r = 0 \<or> r = -1) \<and>
        (\<exists>F. closed fd u F \<and> io_to F u u' \<and> (r = 0 \<longrightarrow> F = (fds u)(fd := None)))"
      then obtain F where F: "closed fd u F" "io_to F u u'" by blast
      note d = io_toD [OF u(1)] and wu' = io_to_trans [OF u(1) F(2)]
      have cl: "(fds u)(fd := None) = fds w" using d fd by (auto simp: fun_upd_idem)
      have "os_ok u'"
      proof (cases "F = fds w")
        case True
        then show ?thesis using os_ok_io_to [OF ok wu'] by blast
      next
        case False
        then have F': "F = (fds w)(fd \<mapsto> f\<lparr>f_in := rest\<rparr>)" using F(1) cl d by (auto simp: closed_def)
        have "devs_ok w" using ok by (simp add: os_ok_def)
        with f have nk: "f_kind f \<noteq> F_shm i" for i by (auto simp: devs_ok_def)
        have "next_fd u \<le> next_fd u'" using io_toD(3) [OF F(2)] .
        with u(2) fd nk have "fds_ok u'"
          using ok io_toD [OF wu'] F' by (fastforce simp: os_ok_def fds_ok_def)
        then show ?thesis using ok io_toD [OF wu']
          by (simp add: os_ok_def mem_ok_def dir_ok_def devs_ok_def)
      qed
      moreover have "close_err_releases (env w) \<longrightarrow> F = fds w"
        using F(1) cl d by (auto simp: closed_def)
      ultimately show "rand_frame w u'" using wu' by (auto simp: rand_frame_def)
    qed
    have "wp ((=) Diverge) (pbind (av_loop_read fd (length buf)) (\<lambda>(r, bs).
        pthen (av_close fd)
          (pret (if r < 0 \<or> r \<noteq> int (length buf) then (-1 :: int) else 0, overwrite bs buf))))
      (\<lambda>(r, buf') w'.
         rand_frame w w' \<and> length buf' = length buf \<and> (r = 0 \<or> r = -1) \<and>
         (r = 0 \<longrightarrow> device_bytes w path (length buf) = Some buf') \<and>
         (r \<noteq> 0 \<longrightarrow> faulty w \<or> device_bytes w path (length buf) = None)) v"
    proof (rule wp_bindI2 [OF read])
      fix r :: int and bs u
      assume post: "\<exists>rest. f_in f = bs @ rest \<and> length bs \<le> length buf \<and>
        io_to ((fds w)(fd \<mapsto> f\<lparr>f_in := rest\<rparr>)) w u \<and> fd < int (next_fd u) \<and>
        (r = int (length buf) \<longrightarrow> length bs = length buf) \<and>
        (r \<noteq> int (length buf) \<longrightarrow> faulty w \<or> length (f_in f) < length buf)"
      then obtain rest where u: "io_to ((fds w)(fd \<mapsto> f\<lparr>f_in := rest\<rparr>)) w u"
        "fd < int (next_fd u)" by blast
      show "wp ((=) Diverge) (case (r, bs) of (r, bs) \<Rightarrow> pthen (av_close fd)
          (pret (if r < 0 \<or> r \<noteq> int (length buf) then (-1 :: int) else 0, overwrite bs buf)))
        (\<lambda>(r, buf') w'.
           rand_frame w w' \<and> length buf' = length buf \<and> (r = 0 \<or> r = -1) \<and>
           (r = 0 \<longrightarrow> device_bytes w path (length buf) = Some buf') \<and>
           (r \<noteq> 0 \<longrightarrow> faulty w \<or> device_bytes w path (length buf) = None)) u"
        unfolding prod.case
        by (rule wp_bindI [OF close [OF u]])
          (use post f in \<open>auto simp: wp_rules overwrite_def device_bytes_def\<close>)
    qed
    then show ?thesis using fd by (simp add: random_device_def wp_rules op)
  qed
qed

lemma random_loop_spec:
  assumes "os_ok w" and "buf \<noteq> []"
  shows "wp ((=) Diverge) (random_loop ds (-1) buf) (\<lambda>(r, buf') w'.
     rand_frame w w' \<and> length buf' = length buf \<and> (r = 0 \<or> r = -1) \<and>
     (r = 0 \<longrightarrow> (\<exists>p \<in> set ds. device_bytes w p (length buf) = Some buf')) \<and>
     (r \<noteq> 0 \<longrightarrow> faulty w \<or> (\<forall>p \<in> set ds. device_bytes w p (length buf) = None))) w"
  using assms
proof (induction ds arbitrary: w buf)
  case Nil
  then show ?case by (simp add: wp_rules rand_frame_refl)
next
  case (Cons p ds)
  show ?case unfolding random_loop.simps
  proof (rule wp_bindI2 [OF random_device_spec [OF Cons.prems, of p]], unfold prod.case)
    fix r :: int and buf1 w1
    assume 1: "rand_frame w w1 \<and> length buf1 = length buf \<and> (r = 0 \<or> r = -1) \<and>
     (r = 0 \<longrightarrow> device_bytes w p (length buf) = Some buf1) \<and>
     (r \<noteq> 0 \<longrightarrow> faulty w \<or> device_bytes w p (length buf) = None)"
    then have f: "rand_frame w w1" and len: "length buf1 = length buf" by auto
    from len Cons.prems have ne: "buf1 \<noteq> []" by auto
    have db: "device_bytes w1 q n = device_bytes w q n" for q n
      using rand_frameD(2) [OF f] by (simp add: device_bytes_def)
    show "wp ((=) Diverge) (if r = 0 then pret (r, buf1) else random_loop ds r buf1)
      (\<lambda>(r, buf') w'. rand_frame w w' \<and> length buf' = length buf \<and> (r = 0 \<or> r = -1) \<and>
        (r = 0 \<longrightarrow> (\<exists>q \<in> set (p # ds). device_bytes w q (length buf) = Some buf')) \<and>
        (r \<noteq> 0 \<longrightarrow> faulty w \<or> (\<forall>q \<in> set (p # ds). device_bytes w q (length buf) = None))) w1"
    proof (cases "r = 0")
      case True
      with 1 show ?thesis by (simp add: wp_rules)
    next
      case False
      with 1 have r: "r = -1" by simp
      have "wp ((=) Diverge) (random_loop ds (-1) buf1)
        (\<lambda>(r, buf') w'. rand_frame w w' \<and> length buf' = length buf \<and> (r = 0 \<or> r = -1) \<and>
          (r = 0 \<longrightarrow> (\<exists>q \<in> set (p # ds). device_bytes w q (length buf) = Some buf')) \<and>
          (r \<noteq> 0 \<longrightarrow> faulty w \<or> (\<forall>q \<in> set (p # ds). device_bytes w q (length buf) = None))) w1"
        by (rule wp_mono2 [OF Cons.IH [OF rand_frameD(1) [OF f] ne]])
          (use 1 r len db rand_frameD(2) [OF f] rand_frame_trans [OF f] faulty_cong [of w1 w]
            in auto)
      then show ?thesis by (simp add: r)
    qed
  qed
qed

lemma random_proper_spec:
  assumes "os_ok w" and "buf \<noteq> []"
  shows "wp ((=) Diverge) (random_proper buf) (\<lambda>(r, buf') w'.
     rand_frame w w' \<and> length buf' = length buf \<and> (r = 0 \<or> r = -1) \<and>
     (r = 0 \<longrightarrow> (\<exists>p \<in> set devices. device_bytes w p (length buf) = Some buf')) \<and>
     (r \<noteq> 0 \<longrightarrow> faulty w \<or> (\<forall>p \<in> set devices. device_bytes w p (length buf) = None))) w"
  using random_loop_spec [OF assms, of devices] assms(2) by (simp add: random_proper_def wp_rules)

lemma fill_rand_spec:
  "wp never (fill_rand n) (\<lambda>bs w'. length bs = n \<and> (\<exists>s. w' = w\<lparr>rand_state := s\<rparr>)) w"
proof (induction n arbitrary: w)
  case 0
  show ?case by (simp add: wp_rules) (metis os.surjective os.update_convs(11))
next
  case (Suc n)
  obtain s v where s: "sys_rand w = (v, w\<lparr>rand_state := s\<rparr>)"
    by (cases "rand_next (env w) (rand_state w)") (auto simp: sys_rand_def)
  have "wp never (fill_rand n)
      (\<lambda>bs w'. length bs = n \<and> (\<exists>s. w' = w\<lparr>rand_state := s\<rparr>)) (w\<lparr>rand_state := s\<rparr>)"
    by (rule wp_mono [OF Suc.IH]) auto
  then show ?case by (simp add: wp_rules s wp_conj)
qed

text \<open>
  \<open>av_random\<close>: the buffer keeps its length, the kernel's tables are left as they were, the
  warning is never printed while \<open>has_whined\<close> is set, and the bytes are a device's unless a call
  failed or no device can deliver them.
\<close>

lemma av_random_spec:
  assumes "os_ok w" and "buf \<noteq> []" and "has_whined w"
  shows "wp ((=) Diverge) (av_random buf) (\<lambda>buf' w'. length buf' = length buf \<and>
     (\<exists>s. rand_frame (w\<lparr>rand_state := s\<rparr>) w' \<and>
       (rand_state w' = rand_state w \<and>
         (\<exists>p \<in> set devices. device_bytes w p (length buf) = Some buf')
        \<or> faulty w \<or> (\<forall>p \<in> set devices. device_bytes w p (length buf) = None)))) w"
proof -
  have fill: "wp ((=) Diverge) (fill_rand (length buf)) (\<lambda>buf' w'. length buf' = length buf \<and>
      (\<exists>s. rand_frame (w\<lparr>rand_state := s\<rparr>) w')) w1" if f: "rand_frame w w1" for w1
  proof (rule wp_mono [OF wp_mono_stop [OF fill_rand_spec]])
    fix bs w'
    assume "length bs = length buf \<and> (\<exists>s. w' = w1\<lparr>rand_state := s\<rparr>)"
    then obtain s where bs: "length bs = length buf" and w': "w' = w1\<lparr>rand_state := s\<rparr>" by blast
    from f obtain F where F: "io_to F w w1" "close_err_releases (env w) \<longrightarrow> F = fds w" "os_ok w1"
      by (auto simp: rand_frame_def)
    have "os_ok w'" using F(3) by (simp add: w' os_ok_defs)
    moreover have "io_to F (w\<lparr>rand_state := s\<rparr>) w'"
    proof -
      have "w1 = w\<lparr>clock := clock w1, errno := errno w1, fds := F, next_fd := next_fd w1\<rparr>"
        using F(1) by (simp add: io_to_def)
      then have "w' = w\<lparr>clock := clock w1, errno := errno w1, fds := F, next_fd := next_fd w1,
          rand_state := s\<rparr>" unfolding w' by (rule arg_cong)
      then show ?thesis using io_toD(3) [OF F(1)] by (simp add: io_to_def w')
    qed
    ultimately show "length bs = length buf \<and> (\<exists>s. rand_frame (w\<lparr>rand_state := s\<rparr>) w')"
      using bs F(2) by (auto simp: rand_frame_def)
  qed simp
  have same: "w\<lparr>rand_state := rand_state w\<rparr> = w" by simp
  have "wp ((=) Diverge) (pbind (random_proper buf) (\<lambda>(r, buf').
       if 0 \<le> r then pret buf'
       else pthen (whine ''av_random''
              ''Failed to get proper entropy. Falling back to unsecure pseudo RNG.'')
            (fill_rand (length buf)))) (\<lambda>buf' w'. length buf' = length buf \<and>
     (\<exists>s. rand_frame (w\<lparr>rand_state := s\<rparr>) w' \<and>
       (rand_state w' = rand_state w \<and>
         (\<exists>p \<in> set devices. device_bytes w p (length buf) = Some buf')
        \<or> faulty w \<or> (\<forall>p \<in> set devices. device_bytes w p (length buf) = None)))) w"
  proof (rule wp_bindI2 [OF random_proper_spec [OF assms(1,2)]], unfold prod.case)
    fix r :: int and buf1 w1
    assume 1: "rand_frame w w1 \<and> length buf1 = length buf \<and> (r = 0 \<or> r = -1) \<and>
     (r = 0 \<longrightarrow> (\<exists>p \<in> set devices. device_bytes w p (length buf) = Some buf1)) \<and>
     (r \<noteq> 0 \<longrightarrow> faulty w \<or> (\<forall>p \<in> set devices. device_bytes w p (length buf) = None))"
    then have f: "rand_frame w w1" by blast
    show "wp ((=) Diverge) (if 0 \<le> r then pret buf1
       else pthen (whine ''av_random''
              ''Failed to get proper entropy. Falling back to unsecure pseudo RNG.'')
            (fill_rand (length buf))) (\<lambda>buf' w'. length buf' = length buf \<and>
     (\<exists>s. rand_frame (w\<lparr>rand_state := s\<rparr>) w' \<and>
       (rand_state w' = rand_state w \<and>
         (\<exists>p \<in> set devices. device_bytes w p (length buf) = Some buf')
        \<or> faulty w \<or> (\<forall>p \<in> set devices. device_bytes w p (length buf) = None)))) w1"
    proof (cases "r = 0")
      case True
      with 1 same rand_frameD(8) [OF f] show ?thesis
        by (auto simp: wp_rules intro!: exI [of _ "rand_state w"])
    next
      case False
      have "has_whined w1" using rand_frameD(10) [OF f] assms(3) by simp
      moreover have "wp ((=) Diverge) (fill_rand (length buf)) (\<lambda>buf' w'. length buf' = length buf \<and>
         (\<exists>s. rand_frame (w\<lparr>rand_state := s\<rparr>) w' \<and>
           (rand_state w' = rand_state w \<and>
             (\<exists>p \<in> set devices. device_bytes w p (length buf) = Some buf')
            \<or> faulty w \<or> (\<forall>p \<in> set devices. device_bytes w p (length buf) = None)))) w1"
        by (rule wp_mono [OF fill [OF f]]) (use 1 False in auto)
      ultimately show ?thesis using 1 False by (simp add: wp_rules whine_def)
    qed
  qed
  then show ?thesis using assms(2) by (simp add: av_random_def wp_rules)
qed

section \<open>Returning\<close>

lemma random_device_total:
  assumes ok: "os_ok w" and "buf \<noteq> []" and "fair w"
  shows "\<exists>x w'. random_device path buf w = Ok x w'"
proof -
  obtain fd v where op: "sys_open path w = (fd, v)" by (cases "sys_open path w")
  from sys_open_io [OF op ok] show ?thesis
  proof (elim disjE exE conjE)
    fix f
    assume fd: "fd = int (next_fd w)" and v: "io_to ((fds w)(fd \<mapsto> f)) w v"
    have f: "fds v fd = Some f" and "fair v" using io_toD [OF v] \<open>fair w\<close> by simp_all
    from loop_read_total [OF this, of "length buf" 0 "[]"] obtain r bs u
      where rd: "loop_read fd (length buf) 0 [] v = Ok (r, bs) u" by auto
    with wp_OkD [OF loop_read_io [OF f]] have "fair u"
      using \<open>fair v\<close> by (fastforce dest: io_toD(13))
    from av_close_total [OF this, of fd] obtain r' u' where "av_close fd u = Ok r' u'" by auto
    with rd fd \<open>buf \<noteq> []\<close> show ?thesis
      by (auto simp: random_device_def op av_loop_read_def prog_defs)
  qed (auto simp: random_device_def op prog_defs)
qed

lemma random_loop_total:
  assumes "os_ok w" and "buf \<noteq> []" and "fair w"
  shows "\<exists>x w'. random_loop ds (-1) buf w = Ok x w'"
  using assms
proof (induction ds arbitrary: w buf)
  case Nil
  then show ?case by (simp add: pret_def)
next
  case (Cons p ds)
  obtain r buf1 w1 where d: "random_device p buf w = Ok (r, buf1) w1"
    using random_device_total [OF Cons.prems, of p] by auto
  with wp_OkD [OF random_device_spec [OF Cons.prems(1,2)] d]
  have f: "rand_frame w w1" "length buf1 = length buf" "r = 0 \<or> r = -1" by auto
  have ne: "buf1 \<noteq> []" using f(2) Cons.prems(2) by auto
  have "fair w1" using rand_frameD(11) [OF f(1)] Cons.prems(3) by simp
  from Cons.IH [OF rand_frameD(1) [OF f(1)] ne this] f(3) show ?case
    by (auto simp: pbind_def d pret_def)
qed

lemma fill_rand_total: "\<exists>x w'. fill_rand n w = Ok x w'"
  using fill_rand_spec [of n w] by (rule wp_neverE) blast

lemma av_random_total:
  assumes "os_ok w" and "buf \<noteq> []" and "fair w"
  shows "\<exists>x w'. av_random buf w = Ok x w'"
proof -
  obtain r buf1 w1 where rp: "random_loop devices (-1) buf w = Ok (r, buf1) w1"
    using random_loop_total [OF assms, of devices] by auto
  show ?thesis
    using assms(2) fill_rand_total [of "length buf" w1] fill_rand_total
    by (auto simp: av_random_def random_proper_def whine_def av_log_def prog_defs rp
        split: prod.split)
qed

end
