(* ===== verification/Util_Align.thy ===== *)
theory Util_Align
  imports Prelude
begin

text \<open>
  The alignment helpers of src/util.h. \<open>sizeof(void *)\<close> is 8; \<open>AV_PAGE_SIZE\<close> is the header's
  default, 4096, because neither \<open>PAGE_SIZE\<close> nor \<open>PAGESIZE\<close> nor \<open>HAVE_SYSCONF\<close> is defined by the
  build (configure.ac checks none of them). The arithmetic is \<open>size_t\<close> arithmetic, so the
  additions that round up can wrap around.
\<close>

definition AV_PAGE_SIZE :: u64 where
  "AV_PAGE_SIZE = 4096"

definition av_align_ptr :: "u64 \<Rightarrow> u64" where
  "av_align_ptr p = p AND NOT (8 - 1)"

definition av_align :: "u64 \<Rightarrow> u64" where
  "av_align l = (l + 8 - 1) div 8 * 8"

definition av_page_align_ptr :: "u64 \<Rightarrow> u64" where
  "av_page_align_ptr p = p AND NOT (AV_PAGE_SIZE - 1)"

definition av_page_align :: "u64 \<Rightarrow> u64" where
  "av_page_align l = (l + AV_PAGE_SIZE - 1) div AV_PAGE_SIZE * AV_PAGE_SIZE"

section \<open>Rounding up\<close>

text \<open>
  Both round-up helpers are the same computation for a power of two \<open>2 ^ k\<close>; the facts are
  proved once about the mathematical value.
\<close>

definition round_up :: "nat \<Rightarrow> nat \<Rightarrow> nat" where
  "round_up a n = (n + (a - 1)) div a * a"

lemma round_up_dvd [simp]: "a dvd round_up a n"
  by (simp add: round_up_def)

lemma round_up_ge: "0 < a \<Longrightarrow> n \<le> round_up a n"
proof -
  assume a: "0 < a"
  have "(n + (a - 1)) mod a \<le> a - 1"
    using a by (simp add: less_imp_le_nat less_Suc_eq_le [symmetric])
  moreover have "(n + (a - 1)) div a * a + (n + (a - 1)) mod a = n + (a - 1)"
    by (rule div_mult_mod_eq)
  ultimately show ?thesis unfolding round_up_def by linarith
qed

lemma round_up_less: "0 < a \<Longrightarrow> round_up a n < n + a"
proof -
  assume a: "0 < a"
  have "(n + (a - 1)) div a * a \<le> n + (a - 1)" by simp
  with a show ?thesis unfolding round_up_def by linarith
qed

lemma round_up_id: "0 < a \<Longrightarrow> a dvd n \<Longrightarrow> round_up a n = n"
proof -
  assume a: "0 < a" and "a dvd n"
  then obtain k where n: "n = a * k" by blast
  have "(n + (a - 1)) div a = k"
    by (rule div_nat_eqI) (use a n in \<open>simp_all add: mult.commute\<close>)
  with n show ?thesis by (simp add: round_up_def mult.commute)
qed

lemma round_up_idem: "0 < a \<Longrightarrow> round_up a (round_up a n) = round_up a n"
  by (rule round_up_id) simp_all

lemma round_up_mono: "m \<le> n \<Longrightarrow> round_up a m \<le> round_up a n"
  by (simp add: round_up_def div_le_mono)

lemma round_up_least: "0 < a \<Longrightarrow> a dvd m \<Longrightarrow> n \<le> m \<Longrightarrow> round_up a n \<le> m"
  using round_up_mono [of n m a] round_up_id [of a m] by simp

lemma word_round_up:
  fixes l :: u64
  assumes "unat l + (a - 1) < 2 ^ 64" and "0 < a" and "a < 2 ^ 64"
  shows "unat ((l + of_nat a - 1) div of_nat a * of_nat a) = round_up a (unat l)"
proof -
  have a: "unat (of_nat a :: u64) = a"
    using assms by (simp add: unat_of_nat take_bit_nat_eq_self)
  define c :: u64 where "c = of_nat (a - 1)"
  have "unat c = a - 1"
    unfolding c_def using assms
    by (subst unat_of_nat) (simp add: take_bit_nat_eq_self del: of_nat_diff)
  moreover have lc: "l + of_nat a - 1 = l + c"
    using assms by (simp add: c_def of_nat_diff)
  ultimately have sum: "unat (l + of_nat a - 1) = unat l + (a - 1)"
    unfolding lc using assms by (simp add: unat_add_lem [THEN iffD1])
  have "(unat l + (a - 1)) div a * a \<le> unat l + (a - 1)" by simp
  with assms have bnd: "(unat l + (a - 1)) div a * a < 2 ^ 64" by linarith
  have "unat ((l + of_nat a - 1) div of_nat a) = (unat l + (a - 1)) div a"
    by (simp add: unat_div sum a)
  with bnd show ?thesis
    by (simp add: unat_mult_lem [THEN iffD1] a round_up_def)
qed

lemma unat_av_align: "unat l + 7 < 2 ^ 64 \<Longrightarrow> unat (av_align l) = round_up 8 (unat l)"
  using word_round_up [of l 8] by (simp add: av_align_def)

lemma unat_av_page_align:
  "unat l + 4095 < 2 ^ 64 \<Longrightarrow> unat (av_page_align l) = round_up 4096 (unat l)"
  using word_round_up [of l 4096] by (simp add: av_page_align_def AV_PAGE_SIZE_def)

section \<open>Rounding down\<close>

lemma align_down: "(p :: u64) AND NOT (mask k) = push_bit k (drop_bit k p)"
  by (rule bit_word_eqI) (auto simp: bit_simps)

lemma unat_align_down: "unat ((p :: u64) AND NOT (mask k)) = unat p div 2 ^ k * 2 ^ k"
proof -
  have "unat (push_bit k (drop_bit k p)) =
      take_bit 64 (take_bit 64 (unat p) div 2 ^ k * 2 ^ k)"
    by (simp only: unsigned_push_bit_eq unsigned_drop_bit_eq push_bit_eq_mult [where 'a = nat]
        drop_bit_eq_div [where 'a = nat]) simp
  also have "take_bit 64 (unat p) = unat p"
    using unsigned_less [of p] by (intro take_bit_nat_eq_self) simp
  also have "take_bit 64 (unat p div 2 ^ k * 2 ^ k) = unat p div 2 ^ k * 2 ^ k"
    by (rule take_bit_nat_eq_self, rule le_less_trans [of _ "unat p"])
      (use unsigned_less [of p] in simp_all)
  finally show ?thesis by (simp add: align_down)
qed

lemma unat_av_align_ptr: "unat (av_align_ptr p) = unat p div 8 * 8"
  using unat_align_down [of p 3] by (simp add: av_align_ptr_def mask_eq_exp_minus_1)

lemma unat_av_page_align_ptr: "unat (av_page_align_ptr p) = unat p div 4096 * 4096"
  using unat_align_down [of p 12]
  by (simp add: av_page_align_ptr_def AV_PAGE_SIZE_def mask_eq_exp_minus_1)

end
