(* ===== verification/Util_Atou.thy ===== *)
theory Util_Atou
  imports Logging
begin

text \<open>
  \<open>av_atou\<close> of src/util.c, which reads the identifier out of the name of a shared memory segment,
  over a model of the C library's \<open>strtoul\<close> with base 0 in the C locale.
\<close>

section \<open>strtoul\<close>

definition is_space :: "char \<Rightarrow> bool" where
  "is_space c \<longleftrightarrow> c \<in> {CHR '' '', CHR 0x09, CHR 0x0A, CHR 0x0B, CHR 0x0C, CHR 0x0D}"

definition digit_val :: "char \<Rightarrow> nat option" where
  "digit_val c =
     (let n = of_char c :: nat
      in if 48 \<le> n \<and> n \<le> 57 then Some (n - 48)
         else if 97 \<le> n \<and> n \<le> 122 then Some (n - 87)
         else if 65 \<le> n \<and> n \<le> 90 then Some (n - 55)
         else None)"

definition is_digit :: "nat \<Rightarrow> char \<Rightarrow> bool" where
  "is_digit base c = (case digit_val c of None \<Rightarrow> False | Some d \<Rightarrow> d < base)"

definition digits_value :: "nat \<Rightarrow> string \<Rightarrow> nat" where
  "digits_value base cs = foldl (\<lambda>a c. a * base + the (digit_val c)) 0 cs"

text \<open>
  The base that base 0 stands for, and the rest of the text after the prefix that says so.
\<close>

definition strtoul_base :: "string \<Rightarrow> nat \<times> string" where
  "strtoul_base s =
     (case s of
        [] \<Rightarrow> (10, s)
      | z # r \<Rightarrow>
          if z \<noteq> CHR ''0'' then (10, s)
          else (case r of
                  x # c # r' \<Rightarrow>
                    if (x = CHR ''x'' \<or> x = CHR ''X'') \<and> is_digit 16 c then (16, c # r') else (8, s)
                | _ \<Rightarrow> (8, s)))"

definition strtoul_sign :: "string \<Rightarrow> bool \<times> string" where
  "strtoul_sign s = (case s of
     c # r \<Rightarrow> if c = CHR ''-'' then (True, r) else if c = CHR ''+'' then (False, r) else (False, s)
   | [] \<Rightarrow> (False, []))"

definition ULONG_MAX :: nat where
  "ULONG_MAX = 2 ^ 64 - 1"

text \<open>
  The value, the text after the number (where \<open>*endptr\<close> points) and the error. Without any digit
  nothing is converted: the value is 0 and \<open>*endptr\<close> is the start of the text.
\<close>

definition strtoul :: "string \<Rightarrow> u64 \<times> string \<times> errno option" where
  "strtoul s =
     (let (neg, s1) = strtoul_sign (dropWhile is_space s);
          (base, s2) = strtoul_base s1;
          ds = takeWhile (is_digit base) s2;
          rest = dropWhile (is_digit base) s2;
          v = digits_value base ds
      in if ds = [] then (0, s, None)
         else if ULONG_MAX < v then (of_nat ULONG_MAX, rest, Some ERANGE)
         else (if neg then - of_nat v else of_nat v, rest, None))"

section \<open>av_atou\<close>

text \<open>The stored result is \<open>None\<close> where the code does not assign \<open>*ret_u\<close>.\<close>

definition av_atou :: "string \<Rightarrow> (os, int \<times> u32 option) prog" where
  "av_atou s =
     pthen (pmodify (\<lambda>w. w\<lparr>errno := EOK\<rparr>))
     (case strtoul s of (l, x, err) \<Rightarrow>
       pthen (case err of None \<Rightarrow> pret () | Some e \<Rightarrow> pmodify (\<lambda>w. w\<lparr>errno := e\<rparr>))
      (pbind (pgets errno) (\<lambda>e.
         if x \<noteq> [] \<or> e \<noteq> EOK
         then pthen (if e = EOK then pmodify (\<lambda>w. w\<lparr>errno := EINVAL\<rparr>) else pret ())
                (pret (-1, None))
         else if (ucast (ucast l :: u32) :: u64) \<noteq> l
         then pthen (pmodify (\<lambda>w. w\<lparr>errno := ERANGE\<rparr>)) (pret (-1, None))
         else pret (0, Some (ucast l)))))"

text \<open>The same, as the number the text denotes or the error: what the callers depend on.\<close>

definition atou_spec :: "string \<Rightarrow> errno + u32" where
  "atou_spec s = (case strtoul s of (l, x, err) \<Rightarrow>
     (case err of Some e \<Rightarrow> Inl e
      | None \<Rightarrow> if x \<noteq> [] then Inl EINVAL
               else if 2 ^ 32 \<le> unat l then Inl ERANGE else Inr (ucast l)))"

lemma ucast_ucast_id_iff: "(ucast (ucast l :: u32) :: u64) = l \<longleftrightarrow> unat l < 2 ^ 32"
proof -
  have "unat (ucast (ucast l :: u32) :: u64) = unat l mod 2 ^ 32"
    by (simp add: unsigned_ucast_eq take_bit_eq_mod unat_mod)
  then show ?thesis
    by (metis mod_less mod_less_divisor unsigned_word_eqI zero_less_numeral zero_less_power)
qed

lemma strtoul_err: "strtoul s = (l, x, Some e) \<Longrightarrow> e = ERANGE"
  by (auto simp: strtoul_def Let_def split: prod.splits if_splits)

lemma av_atou_eq:
  "av_atou s w = (case atou_spec s of
     Inl e \<Rightarrow> Ok (-1, None) (w\<lparr>errno := e\<rparr>)
   | Inr u \<Rightarrow> Ok (0, Some u) (w\<lparr>errno := EOK\<rparr>))"
proof -
  obtain l x err where s: "strtoul s = (l, x, err)" by (cases "strtoul s")
  have e: "err = None \<or> err = Some ERANGE" using strtoul_err [of s l x] s by (cases err) auto
  have "\<not> 2 ^ 32 \<le> unat l \<longleftrightarrow> (ucast (ucast l :: u32) :: u64) = l"
    by (simp only: ucast_ucast_id_iff not_le)
  with s e show ?thesis
    by (auto simp: av_atou_def atou_spec_def prog_defs split: option.split)
qed

lemma wp_av_atou [wp_rules]:
  "wp E (av_atou s) Q = (\<lambda>w. case atou_spec s of
     Inl e \<Rightarrow> Q (-1, None) (w\<lparr>errno := e\<rparr>)
   | Inr u \<Rightarrow> Q (0, Some u) (w\<lparr>errno := EOK\<rparr>))"
  by (rule ext) (simp add: wp_def av_atou_eq split: sum.split)

section \<open>Reading back a printed number\<close>

lemma digit_val_digit_char: "d < 10 \<Longrightarrow> digit_val (digit_char d) = Some d"
  by (simp add: digit_val_def digit_char_def Let_def)

lemma is_digit_digit_char: "d < 10 \<Longrightarrow> is_digit 10 (digit_char d)"
  by (simp add: is_digit_def digit_val_digit_char)

lemma fmt_u_digits: "list_all (\<lambda>c. \<exists>d<10. c = digit_char d) (fmt_u n)"
proof (induction n rule: fmt_u.induct)
  case (1 n)
  then show ?case by (subst fmt_u.simps) (auto intro: exI [of _ "n mod 10"])
qed

lemma digits_value_fmt_u: "digits_value 10 (fmt_u n) = n"
proof (induction n rule: fmt_u.induct)
  case (1 n)
  then show ?case
    by (subst fmt_u.simps) (auto simp: digits_value_def digit_val_digit_char)
qed

lemma fmt_u_hd: "10 \<le> n \<Longrightarrow> hd (fmt_u n) \<noteq> digit_char 0"
proof (induction n rule: fmt_u.induct)
  case (1 n)
  show ?case
  proof (cases "n div 10 < 10")
    case True
    with "1.prems" have "n div 10 \<noteq> 0" by (simp add: div_eq_0_iff)
    with True have "digit_char (n div 10) \<noteq> digit_char 0"
      using digit_val_digit_char [of 0] digit_val_digit_char [of "n div 10"] by auto
    with True "1.prems" show ?thesis
      by (subst fmt_u.simps) (simp add: fmt_u.simps [of "n div 10"])
  next
    case False
    with "1.prems" "1.IH" show ?thesis by (subst fmt_u.simps) simp
  qed
qed

lemma fmt_u_small: "n < 10 \<Longrightarrow> fmt_u n = [digit_char n]"
  by (simp add: fmt_u.simps [of n])

lemma digit_char_0: "digit_char 0 = CHR ''0''"
  by (simp add: digit_char_def char_of_eq_iff)

lemma digit_char_neq:
  assumes "d < 10"
  shows "digit_char d \<noteq> CHR ''-''" "digit_char d \<noteq> CHR ''+''" "\<not> is_space (digit_char d)"
    "digit_char d = CHR ''0'' \<longleftrightarrow> d = 0"
proof -
  note v = digit_val_digit_char [OF assms]
  have "digit_val CHR ''-'' = None" "digit_val CHR ''+'' = None"
    by (simp_all add: digit_val_def)
  with v show "digit_char d \<noteq> CHR ''-''" "digit_char d \<noteq> CHR ''+''" by force+
  have "digit_val c = None" if "is_space c" for c
    using that by (auto simp: is_space_def digit_val_def)
  with v show "\<not> is_space (digit_char d)" by force
  show "digit_char d = CHR ''0'' \<longleftrightarrow> d = 0"
    using v digit_char_0 digit_val_digit_char [of 0] by auto
qed

lemma fmt_u_Cons:
  obtains d cs where "fmt_u n = digit_char d # cs" "d < 10" "10 \<le> n \<longrightarrow> d \<noteq> 0"
proof -
  obtain c cs where f: "fmt_u n = c # cs" by (cases "fmt_u n") auto
  with fmt_u_digits [of n] obtain d where "d < 10" "c = digit_char d" by auto
  with f fmt_u_hd [of n] have "10 \<le> n \<longrightarrow> d \<noteq> 0" by (cases "d = 0") auto
  with f \<open>c = digit_char d\<close> \<open>d < 10\<close> show thesis by (intro that [of d cs]) simp_all
qed

lemma takeWhile_all: "list_all P xs \<Longrightarrow> takeWhile P xs = xs \<and> dropWhile P xs = []"
  by (induction xs) auto

text \<open>\<open>strtoul\<close> reads back what \<open>%u\<close> printed, if it fits.\<close>

lemma strtoul_digits:
  "strtoul (fmt_u n) = (if ULONG_MAX < n then (of_nat ULONG_MAX, [], Some ERANGE)
                        else (of_nat n, [], None))"
proof -
  obtain d cs where f: "fmt_u n = digit_char d # cs" "d < 10" "10 \<le> n \<longrightarrow> d \<noteq> 0"
    by (rule fmt_u_Cons)
  have sp: "dropWhile is_space (fmt_u n) = fmt_u n" "strtoul_sign (fmt_u n) = (False, fmt_u n)"
    using f digit_char_neq [OF f(2)] by (auto simp: strtoul_sign_def)
  show ?thesis
  proof (cases "n = 0")
    case True
    have "fmt_u 0 = ''0''" by (simp add: fmt_u_small digit_char_0)
    then have z: "fmt_u n = ''0''" by (simp add: True)
    then show ?thesis using sp
      by (simp add: strtoul_def strtoul_base_def is_digit_def digit_val_def digits_value_def
          ULONG_MAX_def True)
  next
    case False
    have "d \<noteq> 0"
    proof (cases "n < 10")
      case True
      with f(1,2) \<open>n \<noteq> 0\<close> digit_val_digit_char [of d] digit_val_digit_char [of n]
      show ?thesis by (auto simp: fmt_u_small)
    qed (use f(3) in simp)
    then have b: "strtoul_base (fmt_u n) = (10, fmt_u n)"
      using f(1) digit_char_neq(4) [OF f(2)] by (simp add: strtoul_base_def)
    have "list_all (is_digit 10) (fmt_u n)"
      using fmt_u_digits [of n] by (rule list.pred_mono_strong) (auto simp: is_digit_digit_char)
    then have "takeWhile (is_digit 10) (fmt_u n) = fmt_u n \<and> dropWhile (is_digit 10) (fmt_u n) = []"
      by (rule takeWhile_all)
    with b sp digits_value_fmt_u [of n] show ?thesis
      by (simp del: takeWhile_eq_all_conv dropWhile_eq_Nil_conv add: strtoul_def Let_def)
  qed
qed

lemma strtoul_fmt_u: "n \<le> ULONG_MAX \<Longrightarrow> strtoul (fmt_u n) = (of_nat n, [], None)"
  by (simp add: strtoul_digits)

lemma strtoul_fmt_u_large:
  "\<not> n \<le> ULONG_MAX \<Longrightarrow> strtoul (fmt_u n) = (of_nat ULONG_MAX, [], Some ERANGE)"
  by (simp add: strtoul_digits)

lemma atou_spec_fmt_u: "atou_spec (fmt_u (unat (u :: u32))) = Inr u"
proof -
  have u: "unat u < 2 ^ 32" using unsigned_less [of u] by simp
  then have "unat (of_nat (unat u) :: u64) = unat u"
    by (subst unsigned_of_nat) (simp add: take_bit_nat_eq_self)
  moreover have "(ucast (of_nat (unat u) :: u64) :: u32) = u"
    by (rule bit_word_eqI) (simp add: bit_simps)
  ultimately show ?thesis using u
    by (simp add: atou_spec_def strtoul_fmt_u ULONG_MAX_def)
qed

end
