(* ===== verification/Atomic.thy ===== *)
theory Atomic
  imports Posix
begin

text \<open>
  src/atomic.h: an \<open>int\<close> read and changed by the compiler's \<open>__sync\<close> builtins. The builtins are
  full barriers and each is one indivisible step, so an execution of several threads on one
  variable is a sequence of operations in some order, and a theorem about every such sequence is
  a theorem about every interleaving. In C the value is an \<open>int\<close> of 32 bits whose arithmetic the
  builtins let wrap around; a \<open>u32\<close> is its bit pattern.
\<close>

section \<open>The operations\<close>

text \<open>Each operation is given the value and returns the result and the new value.\<close>

definition av_atomic_load :: "u32 \<Rightarrow> u32 \<times> u32" where
  "av_atomic_load a = (a, a)"

definition av_atomic_store :: "u32 \<Rightarrow> u32 \<Rightarrow> unit \<times> u32" where
  "av_atomic_store i a = ((), i)"

definition av_atomic_add :: "u32 \<Rightarrow> u32 \<Rightarrow> u32 \<times> u32" where
  "av_atomic_add i a = (a, a + i)"

definition av_atomic_sub :: "u32 \<Rightarrow> u32 \<Rightarrow> u32 \<times> u32" where
  "av_atomic_sub i a = (a, a - i)"

definition av_atomic_inc :: "u32 \<Rightarrow> u32 \<times> u32" where
  "av_atomic_inc a = av_atomic_add 1 a"

definition av_atomic_dec :: "u32 \<Rightarrow> u32 \<times> u32" where
  "av_atomic_dec a = av_atomic_sub 1 a"

definition av_atomic_cmpxchg :: "u32 \<Rightarrow> u32 \<Rightarrow> u32 \<Rightarrow> bool \<times> u32" where
  "av_atomic_cmpxchg old_i new_i a = (if a = old_i then (True, new_i) else (False, a))"

text \<open>The pointer variant holds a pointer in an \<open>unsigned long\<close>.\<close>

definition av_atomic_ptr_load :: "u64 \<Rightarrow> u64 \<times> u64" where
  "av_atomic_ptr_load a = (a, a)"

definition av_atomic_ptr_store :: "u64 \<Rightarrow> u64 \<Rightarrow> unit \<times> u64" where
  "av_atomic_ptr_store p a = ((), p)"

definition av_atomic_ptr_cmpxchg :: "u64 \<Rightarrow> u64 \<Rightarrow> u64 \<Rightarrow> bool \<times> u64" where
  "av_atomic_ptr_cmpxchg old_p new_p a = (if a = old_p then (True, new_p) else (False, a))"

section \<open>Interleavings\<close>

datatype atomic_op = Op_load | Op_store u32 | Op_add u32 | Op_sub u32 | Op_inc | Op_dec
  | Op_cmpxchg u32 u32

fun atomic_step :: "atomic_op \<Rightarrow> u32 \<Rightarrow> u32 \<times> u32" where
  "atomic_step Op_load a = av_atomic_load a"
| "atomic_step (Op_store i) a = (case av_atomic_store i a of (_, a') \<Rightarrow> (0, a'))"
| "atomic_step (Op_add i) a = av_atomic_add i a"
| "atomic_step (Op_sub i) a = av_atomic_sub i a"
| "atomic_step Op_inc a = av_atomic_inc a"
| "atomic_step Op_dec a = av_atomic_dec a"
| "atomic_step (Op_cmpxchg old_i new_i) a =
     (case av_atomic_cmpxchg old_i new_i a of (b, a') \<Rightarrow> (of_bool b, a'))"

text \<open>A run of one interleaving: every operation with the thread that makes it.\<close>

fun atomic_run :: "('t \<times> atomic_op) list \<Rightarrow> u32 \<Rightarrow> ('t \<times> u32) list \<times> u32" where
  "atomic_run [] a = ([], a)"
| "atomic_run ((t, op) # ops) a =
     (case atomic_step op a of (r, a') \<Rightarrow>
      case atomic_run ops a' of (rs, a'') \<Rightarrow> ((t, r) # rs, a''))"

lemmas atomic_defs = av_atomic_load_def av_atomic_store_def av_atomic_add_def av_atomic_sub_def
  av_atomic_inc_def av_atomic_dec_def av_atomic_cmpxchg_def

text \<open>Threads that only increment: the \<open>k\<close>-th increment, whoever makes it, is given \<open>a + k\<close>.\<close>

lemma atomic_run_inc:
  "list_all (\<lambda>x. snd x = Op_inc) ops \<Longrightarrow>
   atomic_run ops a = (map (\<lambda>k. (fst (ops ! k), a + of_nat k)) [0..<length ops],
                       a + of_nat (length ops))"
proof (induction ops arbitrary: a)
  case (Cons x ops)
  then obtain t where x: "x = (t, Op_inc)" by (cases x) auto
  from Cons have IH: "atomic_run ops (a + 1) =
      (map (\<lambda>k. (fst (ops ! k), a + 1 + of_nat k)) [0..<length ops], a + 1 + of_nat (length ops))"
    by simp
  have "atomic_run (x # ops) a = ((t, a) # map (\<lambda>k. (fst (ops ! k), a + 1 + of_nat k)) [0..<length ops],
      a + 1 + of_nat (length ops))"
    by (simp only: x atomic_run.simps atomic_step.simps av_atomic_inc_def av_atomic_add_def
        prod.case IH)
  moreover have "map (\<lambda>k. (fst ((x # ops) ! k), a + of_nat k)) [0..<Suc (length ops)] =
      (t, a) # map (\<lambda>k. (fst (ops ! k), a + 1 + of_nat k)) [0..<length ops]"
    unfolding map_upt_Suc by (simp add: x ac_simps)
  ultimately show ?case
    by (simp only: length_Cons of_nat_Suc add.assoc)
qed simp

lemma of_nat_inj_on: "inj_on (\<lambda>k. (a :: u32) + of_nat k) {..<2 ^ 32}"
proof (rule inj_onI)
  fix x y :: nat
  assume "x \<in> {..<2 ^ 32}" "y \<in> {..<2 ^ 32}" "a + of_nat x = a + of_nat y"
  then show "x = y" by (auto simp: word_of_nat_eq_iff take_bit_nat_eq_self)
qed

text \<open>A compare-and-swap from \<open>u\<close> to \<open>v\<close> succeeds at most once when only such swaps run.\<close>

lemma atomic_run_cas_none:
  "u \<noteq> v \<Longrightarrow> list_all (\<lambda>x. snd x = Op_cmpxchg u v) ops \<Longrightarrow> a \<noteq> u \<Longrightarrow>
   atomic_run ops a = (map (\<lambda>x. (fst x, 0)) ops, a)"
  by (induction ops arbitrary: a) (auto simp: atomic_defs split: prod.splits)

end
