(* ===== verification/Demo.thy ===== *)
theory Demo
  imports Posix
begin

text \<open>
  A concrete machine for the instances that follow the theorems: no call fails, process 42 is this
  one and no other is alive, /dev/urandom holds 64 bytes, /dev/video0 is a video device, and
  /dev/shm holds a segment left behind by the dead process 99 and a file of another program.
\<close>

definition demo_env :: env where
  "demo_env = \<lparr>fault = (\<lambda>_. None), xfer = (\<lambda>_. 1), close_err_releases = True,
     devs = (\<lambda>p. if p = ''/dev/urandom''
                  then Some \<lparr>f_kind = F_stream, f_in = replicate 64 7, f_out = [], f_write = False\<rparr>
                  else if p = ''/dev/video0''
                  then Some \<lparr>f_kind = F_v4l, f_in = [], f_out = [], f_write = True\<rparr>
                  else None),
     procs = (\<lambda>pid. if pid = 42 then None else Some ESRCH),
     self_pid = 42,
     driver = (\<lambda>_ _ arg. (0, EOK, arg)),
     rand_next = (\<lambda>s. (Suc s, of_nat s)),
     now = 1000\<rparr>"

definition stale_inode :: inode where
  "stale_inode = inode_put_int (inode_put_int
     \<lparr>i_size = 16, i_data = (\<lambda>_. 0), i_mode = 0x124\<rparr> 8 0xc0ffee11) 12 99"

definition demo_os :: os where
  "demo_os = \<lparr>env = demo_env, errno = EOK, clock = 0,
     fds = (\<lambda>fd. if fd = 3 then Some \<lparr>f_kind = F_sock, f_in = [1, 2, 3, 4, 5], f_out = [], f_write = True\<rparr>
                  else None),
     next_fd = 4,
     dir = [(''anek-shm-7'', 0), (''other'', 1)],
     inodes = (\<lambda>i. if i = 0 then Some stale_inode
                   else if i = 1 then Some \<lparr>i_size = 3, i_data = (\<lambda>_. 9), i_mode = 0x1A4\<rparr>
                   else None),
     next_ino = 2, maps = (\<lambda>_. None), next_map = 0, rand_state = 1, logs = [],
     has_whined = True\<rparr>"

lemma demo_ok [simp]: "os_ok demo_os"
  by (auto simp: os_ok_defs demo_os_def demo_env_def split: if_splits)

lemma demo_simps [simp]:
  "has_whined demo_os" "env demo_os = demo_env" "close_err_releases demo_env"
  "fault demo_env n = None" "self_pid demo_env = 42"
  "procs demo_env p = (if p = 42 then None else Some ESRCH)"
  "next_ino demo_os = 2" "next_map demo_os = 0" "next_fd demo_os = 4"
  by (simp_all add: demo_os_def demo_env_def)

end
