(* ===== verification/Base_Props.thy ===== *)
theory Base_Props
  imports Randomness Util_Align Util_Atou Atomic Demo
begin

text \<open>
  The properties of src/util.c, src/util.h, src/random.c and src/atomic.h. A wrapper may stop only
  by never returning, and only where interruptions go on for ever.
\<close>

definition unfair_stop :: "os \<Rightarrow> stop \<Rightarrow> bool" where
  "unfair_stop w e \<longleftrightarrow> e = Diverge \<and> \<not> fair w"

lemma wp_unfair_stop:
  assumes "wp ((=) Diverge) m Q w" and "fair w \<Longrightarrow> \<exists>a v. m w = Ok a v"
  shows "wp (unfair_stop w) m Q w"
  using assms by (cases "fair w") (auto simp: wp_def unfair_stop_def split: outcome.splits)

lemma demo_fair [simp]: "fair demo_os"
  by (rule not_faulty_fair) (simp add: faulty_def)

lemma demo_fd: "fds demo_os 3 = Some \<lparr>f_kind = F_sock, f_in = [1, 2, 3, 4, 5], f_out = [],
    f_write = True\<rparr>"
  by (simp add: demo_os_def)

section \<open>Transfers\<close>

text \<open>
  C11: \<open>av_loop_read\<close> on an open descriptor delivers a prefix of what is there to read and takes
  exactly that much away, however the reads are split up and however often they are interrupted.
  It stops short only at the end of the file, whose size it then returns, or at an error; a
  negative result means that a read failed with something else than \<open>EINTR\<close>. It returns unless
  interruptions go on for ever.
\<close>

theorem av_loop_read_correct:
  assumes "fds w fd = Some f" and "0 \<le> fd" and "0 < sz"
  shows "wp (unfair_stop w) (av_loop_read fd sz) (\<lambda>(r, out) w'. \<exists>rest.
     f_in f = out @ rest \<and> length out \<le> sz \<and> io_to ((fds w)(fd \<mapsto> f\<lparr>f_in := rest\<rparr>)) w w' \<and>
     (r < 0 \<and> hard_fault w \<or> r = int (length out) \<and> (length out = sz \<or> rest = []))) w"
proof (rule wp_unfair_stop)
  show "wp ((=) Diverge) (av_loop_read fd sz) (\<lambda>(r, out) w'. \<exists>rest.
     f_in f = out @ rest \<and> length out \<le> sz \<and> io_to ((fds w)(fd \<mapsto> f\<lparr>f_in := rest\<rparr>)) w w' \<and>
     (r < 0 \<and> hard_fault w \<or> r = int (length out) \<and> (length out = sz \<or> rest = []))) w"
    using loop_read_io [OF assms(1), of sz 0 "[]"] assms(2,3)
    by (auto simp: av_loop_read_def wp_rules elim!: wp_mono2)
  assume "fair w"
  from loop_read_total [OF assms(1) this] obtain x v where "loop_read fd sz 0 [] w = Ok x v" by blast
  with assms(2,3) show "\<exists>a v. av_loop_read fd sz w = Ok a v"
    by (simp add: av_loop_read_def prog_defs)
qed

theorem av_loop_read_correct_witness:
  "wp (unfair_stop demo_os) (av_loop_read 3 4) (\<lambda>(r, out) w'. \<exists>rest.
     [1, 2, 3, 4, 5] = out @ rest \<and> length out \<le> 4 \<and>
     io_to ((fds demo_os)(3 \<mapsto> \<lparr>f_kind = F_sock, f_in = rest, f_out = [], f_write = True\<rparr>))
       demo_os w' \<and>
     (r < 0 \<and> hard_fault demo_os \<or> r = int (length out) \<and> (length out = 4 \<or> rest = []))) demo_os"
  using av_loop_read_correct [OF demo_fd, of 4] by simp

text \<open>
  C12: \<open>av_loop_write\<close> on a descriptor open for writing appends a prefix of the data, in order and
  without repeating a byte, whatever \<open>send\<close> and \<open>write\<close> split off and whichever of the two it has
  to use. It returns the full length exactly when everything is written; otherwise it returns a
  negative number because a call failed with something else than \<open>EINTR\<close>.
\<close>

theorem av_loop_write_correct:
  assumes "fds w fd = Some f" and "f_write f" and "0 \<le> fd" and "data \<noteq> []"
  shows "wp (unfair_stop w) (av_loop_write fd data type) (\<lambda>r w'. \<exists>k \<le> length data.
     io_to ((fds w)(fd \<mapsto> f\<lparr>f_out := f_out f @ take k data\<rparr>)) w w' \<and>
     (r < 0 \<and> hard_fault w \<or> r = int (length data) \<and> k = length data)) w"
proof (rule wp_unfair_stop)
  show "wp ((=) Diverge) (av_loop_write fd data type) (\<lambda>r w'. \<exists>k \<le> length data.
     io_to ((fds w)(fd \<mapsto> f\<lparr>f_out := f_out f @ take k data\<rparr>)) w w' \<and>
     (r < 0 \<and> hard_fault w \<or> r = int (length data) \<and> k = length data)) w"
    using loop_write_io [OF assms(1,2), of data "case type of None \<Rightarrow> Some 0 | Some t \<Rightarrow> Some t" 0]
      assms(3,4)
    by (auto simp: av_loop_write_def wp_rules elim!: wp_mono)
  assume "fair w"
  from loop_write_total [OF assms(1,2) this] obtain x v
    where "loop_write fd data (case type of None \<Rightarrow> Some 0 | Some t \<Rightarrow> Some t) 0 w = Ok x v" by blast
  with assms(3,4) show "\<exists>a v. av_loop_write fd data type w = Ok a v"
    by (simp add: av_loop_write_def prog_defs)
qed

theorem av_loop_write_correct_witness:
  "wp (unfair_stop demo_os) (av_loop_write 3 [10, 11, 12] None) (\<lambda>r w'. \<exists>k \<le> 3.
     io_to ((fds demo_os)(3 \<mapsto> \<lparr>f_kind = F_sock, f_in = [1, 2, 3, 4, 5],
       f_out = take k [10, 11, 12], f_write = True\<rparr>)) demo_os w' \<and>
     (r < 0 \<and> hard_fault demo_os \<or> r = 3 \<and> k = 3)) demo_os"
  using av_loop_write_correct [OF demo_fd, of "[10, 11, 12]" None] by (simp add: numeral_3_eq_3)

text \<open>
  \<open>av_close\<close> repeats a \<open>close\<close> that was interrupted. On a system that releases the descriptor
  although \<open>close\<close> fails (Linux), the repetition meets a descriptor that is no longer open: the
  descriptor is closed but \<open>av_close\<close> reports -1 with \<open>EBADF\<close>, and \<open>av_assert_se(av_close(fd) == 0)\<close>
  in src/shm.c aborts.
\<close>

lemma av_close_interrupted:
  assumes "close_err_releases (env w)" and "fault (env w) (clock w) = Some EINTR"
    and "fault (env w) (Suc (clock w)) = None"
  shows "av_close fd w = Ok (-1) (w\<lparr>clock := clock w + 2, errno := EBADF, fds := (fds w)(fd := None)\<rparr>)
    \<and> pbind (av_close fd) (\<lambda>r. av_assert (r = 0)) w = Stop Abort"
proof -
  let ?w1 = "w\<lparr>clock := Suc (clock w), errno := EINTR, fds := (fds w)(fd := None)\<rparr>"
  have 1: "sys_close fd w = (-1, ?w1)" using assms(1,2) by (simp add: sys_close_def Let_def)
  have 2: "sys_close fd ?w1 = (-1, ?w1\<lparr>clock := Suc (Suc (clock w)), errno := EBADF\<rparr>)"
    using assms(3) by (simp add: sys_close_def Let_def fail_with_def)
  have "retry_eintr id (sys_close fd) w =
      Some (-1, ?w1\<lparr>clock := Suc (Suc (clock w)), errno := EBADF\<rparr>)"
    by (subst retry_eintr.simps, simp add: 1, subst retry_eintr.simps, simp add: 2)
  then show ?thesis by (simp add: av_close_def prog_defs)
qed

lemma av_close_interrupted_witness:
  "av_close 3 (demo_os\<lparr>env := demo_env\<lparr>fault := [0 \<mapsto> EINTR]\<rparr>\<rparr>) =
     Ok (-1) (demo_os\<lparr>env := demo_env\<lparr>fault := [0 \<mapsto> EINTR]\<rparr>, clock := 2, errno := EBADF,
       fds := (fds demo_os)(3 := None)\<rparr>)"
  using av_close_interrupted [of "demo_os\<lparr>env := demo_env\<lparr>fault := [0 \<mapsto> EINTR]\<rparr>\<rparr>" 3]
  by (simp add: demo_os_def demo_env_def)

section \<open>Numbers\<close>


text \<open>
  The alignment macros. Rounding a length up gives the least multiple of the word or page size
  that is not smaller, wherever that fits \<open>size_t\<close>; rounding a pointer down gives the greatest
  multiple that is not larger. The largest lengths wrap around to 0.
\<close>

lemma alignment_correct:
  "(unat l + 7 < 2 ^ 64 \<longrightarrow> unat (av_align l) = (LEAST m. unat l \<le> m \<and> 8 dvd m)) \<and>
   (unat l + 4095 < 2 ^ 64 \<longrightarrow> unat (av_page_align l) = (LEAST m. unat l \<le> m \<and> 4096 dvd m)) \<and>
   unat (av_align_ptr p) = (GREATEST m. m \<le> unat p \<and> 8 dvd m) \<and>
   unat (av_page_align_ptr p) = (GREATEST m. m \<le> unat p \<and> 4096 dvd m) \<and>
   av_align (- 1) = 0 \<and> av_page_align (- 1) = 0"
proof -
  have up: "round_up a n = (LEAST m. n \<le> m \<and> a dvd m)" if "0 < a" for a n
    by (rule Least_equality [symmetric])
      (use that in \<open>auto intro: round_up_ge round_up_least\<close>)
  have down: "n div a * a = (GREATEST m. m \<le> n \<and> a dvd m)" if "0 < a" for a n :: nat
    by (rule Greatest_equality [symmetric])
      (use that in \<open>auto simp: less_eq_div_iff_mult_less_eq mult.commute\<close>)
  show ?thesis
    by (simp add: unat_av_align unat_av_page_align unat_av_align_ptr unat_av_page_align_ptr up down)
      (simp add: av_align_def av_page_align_def AV_PAGE_SIZE_def)
qed

lemma alignment_correct_witness:
  "unat (av_align 13) = (LEAST m. 13 \<le> m \<and> 8 dvd m) \<and>
   unat (av_page_align 13) = (LEAST m. 13 \<le> m \<and> 4096 dvd m)"
  using alignment_correct [of 13 0] by simp

section \<open>Random bytes\<close>



section \<open>Atomic variables\<close>



text \<open>
  \<open>av_atomic_cmpxchg\<close> elects one winner. When threads race to change \<open>u\<close> into another value
  \<open>v\<close>, the first of them succeeds and every other one fails, in whatever order they run.
\<close>

lemma atomic_one_winner:
  assumes "u \<noteq> v" and "list_all (\<lambda>x. snd x = Op_cmpxchg u v) ops"
  shows "atomic_run ((t, Op_cmpxchg u v) # ops) u = ((t, 1) # map (\<lambda>x. (fst x, 0)) ops, v)"
  using atomic_run_cas_none [of u v ops v] assms by (simp add: av_atomic_cmpxchg_def)

theorem atomic_one_winner_witness:
  "atomic_run [(''A'', Op_cmpxchg 0 1), (''B'', Op_cmpxchg 0 1), (''C'', Op_cmpxchg 0 1)] 0 =
     ([(''A'', 1), (''B'', 0), (''C'', 0)], 1)"
  using atomic_one_winner [of 0 1 "[(''B'', Op_cmpxchg 0 1), (''C'', Op_cmpxchg 0 1)]" "''A''"]
  by simp

end
