(* ===== verification/Shm.thy ===== *)
theory Shm
  imports Randomness Util_Align Util_Atou Atomic
begin

text \<open>
  src/shm.c and src/shm.h: shared memory segments that carry the frames from the server to its
  clients. A segment is a file \<open>anek-shm-ID\<close> of /dev/shm whose last eight bytes are a marker: a
  magic number and the process that created it. Before a new segment is created, the segments of
  dead processes are removed.
\<close>

section \<open>Data\<close>

text \<open>
  \<open>struct av_shm\<close>. The two flags are one-bit fields of type \<open>int\<close>; \<open>bit1\<close> is what such a field
  keeps of an \<open>int\<close> stored in it (gcc makes them signed, so that 1 reads back as -1).
\<close>

record av_shm =
  shm_id :: u32
  shm_ptr :: ptr
  shm_size :: u64
  do_unlink :: int
  shared :: int

definition bit1 :: "int \<Rightarrow> int" where
  "bit1 v = (if odd v then -1 else 0)"

definition SHM_MARKER :: u32 where
  "SHM_MARKER = 0xc0ffee11"

text \<open>\<open>sizeof(struct shm_marker)\<close> is two four-byte integers: \<open>marker\<close> at 0, \<open>pid\<close> at 4.\<close>

definition SHM_MARKER_SIZE :: u64 where
  "SHM_MARKER_SIZE = av_align 8"

definition MAX_SHM_SIZE :: u64 where
  "MAX_SHM_SIZE = av_align (1024 * 1024 * 64)"

definition SHM_NAME_PREFIX :: string where
  "SHM_NAME_PREFIX = ''anek-shm-''"

text \<open>\<open>snprintf\<close> keeps what fits in front of the terminating NUL.\<close>

definition segment_name :: "nat \<Rightarrow> u32 \<Rightarrow> string" where
  "segment_name l ident = take (l - 1) (''/'' @ SHM_NAME_PREFIX @ fmt_u (unat ident))"

section \<open>Attaching\<close>

text \<open>The code after the label \<open>fail\<close>.\<close>

definition attach_fail :: "int \<Rightarrow> av_shm \<Rightarrow> (os, int \<times> av_shm) prog" where
  "attach_fail fd m =
     pthen (if 0 \<le> fd then pthen (av_close fd) (pret ()) else pret ()) (pret (-1, m))"

definition av_shm_attach_ro :: "av_shm option \<Rightarrow> u32 \<Rightarrow> (os, int \<times> av_shm) prog" where
  "av_shm_attach_ro mp ident =
     pbind (av_assert_ptr mp) (\<lambda>m0.
     let m1 = m0\<lparr>shm_id := ident\<rparr>; fn = segment_name 32 ident in
     pbind (pcall (sys_shm_open_ro fn)) (\<lambda>fd.
     if fd < 0 then
       pbind (pgets errno) (\<lambda>e.
       pthen (if e \<noteq> EACCES then av_log_error ''av_shm_attach_ro'' ''shm_open() failed: %s''
              else pret ())
       (attach_fail fd m1))
     else
       pbind (pcall (sys_fstat_size fd)) (\<lambda>(r, st_size).
       if r < 0 then
         pthen (av_log_error ''av_shm_attach_ro'' ''fstat() failed: %s'') (attach_fail fd m1)
       else if st_size \<le> 0 \<or> st_size > sint (MAX_SHM_SIZE + SHM_MARKER_SIZE) \<or>
               av_align (word_of_int st_size) \<noteq> word_of_int st_size then
         pthen (av_log_error ''av_shm_attach_ro'' ''Invalid shared memory segment size'')
           (attach_fail fd m1)
       else
         let m2 = m1\<lparr>shm_size := word_of_int st_size\<rparr> in
         pbind (pcall (sys_mmap (av_page_align (shm_size m2)) False fd)) (\<lambda>p.
         let m3 = m2\<lparr>shm_ptr := p\<rparr> in
         if p = MapFailed then
           pthen (av_log_error ''av_shm_attach_ro'' ''mmap() failed: %s'') (attach_fail fd m3)
         else
           pbind (av_close fd) (\<lambda>r.
           pthen (av_assert (r = 0))
           (pret (0, m3\<lparr>do_unlink := bit1 0, shared := bit1 1\<rparr>)))))))"

section \<open>Freeing\<close>

text \<open>\<open>memset(m, 0, sizeof( *m))\<close>.\<close>

definition zero_shm :: av_shm where
  "zero_shm = \<lparr>shm_id = 0, shm_ptr = Null, shm_size = 0, do_unlink = 0, shared = 0\<rparr>"

definition av_shm_free :: "av_shm option \<Rightarrow> (os, av_shm) prog" where
  "av_shm_free mp =
     pbind (av_assert_ptr mp) (\<lambda>m.
     pthen (av_assert (shm_ptr m \<noteq> Null))
    (pthen (av_assert (0 < shm_size m))
    (pthen (av_assert (shm_ptr m \<noteq> MapFailed))
    (pthen
      (if shared m = 0 then
         pbind (pcall (sys_munmap (shm_ptr m) (shm_size m))) (\<lambda>r.
           if r < 0 then av_log_error ''av_shm_free'' ''munmap() failed: %s'' else pret ())
       else
         pthen
          (pbind (pcall (sys_munmap (shm_ptr m) (av_page_align (shm_size m)))) (\<lambda>r.
             if r < 0 then av_log_error ''av_shm_free'' ''munmap() failed: %s'' else pret ()))
          (if do_unlink m \<noteq> 0 then
             pbind (pcall (sys_shm_unlink (segment_name 32 (shm_id m)))) (\<lambda>r.
               if r < 0 then av_log_error ''av_shm_free'' '' shm_unlink(%s) failed: %s''
               else pret ())
           else pret ()))
      (pret zero_shm)))))"

section \<open>Removing stale segments\<close>

text \<open>Where the marker of a mapped segment lies, and its two fields.\<close>

definition marker_ptr :: "av_shm \<Rightarrow> ptr" where
  "marker_ptr m = ptr_add (shm_ptr m) (shm_size m - SHM_MARKER_SIZE)"

definition pid_ptr :: "av_shm \<Rightarrow> ptr" where
  "pid_ptr m = ptr_add (marker_ptr m) 4"

text \<open>
  One round of the loop, for one name; \<open>seg\<close> is the uninitialised local. The result of the round
  is of no interest: every \<open>continue\<close> is a return.
\<close>

definition cleanup_segment :: "u32 \<Rightarrow> av_shm \<Rightarrow> (os, unit) prog" where
  "cleanup_segment ident seg0 =
     pbind (av_shm_attach_ro (Some seg0) ident) (\<lambda>(r, seg).
     if r < 0 then pret ()
     else if shm_size seg < SHM_MARKER_SIZE then pthen (av_shm_free (Some seg)) (pret ())
     else
       pbind (load_int (marker_ptr seg)) (\<lambda>magic.
       if magic \<noteq> SHM_MARKER then pthen (av_shm_free (Some seg)) (pret ())
       else
         pbind (load_int (pid_ptr seg)) (\<lambda>pid.
         if pid = 0 then pthen (av_shm_free (Some seg)) (pret ())
         else
           pbind (pcall (sys_kill0 pid)) (\<lambda>k.
           pbind (pgets errno) (\<lambda>e.
           if k = 0 \<or> e \<noteq> ESRCH then pthen (av_shm_free (Some seg)) (pret ())
           else
             pthen (av_shm_free (Some seg))
            (pbind (pcall (sys_shm_unlink (segment_name 128 ident))) (\<lambda>u.
             pbind (pgets errno) (\<lambda>e.
             if u < 0 \<and> e \<noteq> EACCES \<and> e \<noteq> ENOENT
             then av_log_warn ''av_shm_cleanup'' (''Failed to remove SHM segment %s: %s'' @ [CHR 0x0A])
             else pret ()))))))))"

definition cleanup_entry :: "string \<Rightarrow> av_shm \<Rightarrow> (os, unit) prog" where
  "cleanup_entry d_name seg0 =
     (if take (length SHM_NAME_PREFIX) d_name \<noteq> SHM_NAME_PREFIX then pret ()
      else
        pbind (av_atou (drop (length SHM_NAME_PREFIX) d_name)) (\<lambda>(r, u).
        if r < 0 then pret ()
        else pbind (pvalid u) (\<lambda>ident. cleanup_segment ident seg0)))"

fun cleanup_loop :: "string list \<Rightarrow> av_shm \<Rightarrow> (os, unit) prog" where
  "cleanup_loop [] seg0 = pthen (pcall (sys_readdir [])) (pret ())"
| "cleanup_loop (d # ds) seg0 =
     pbind (pcall (sys_readdir (d # ds))) (\<lambda>de.
     case de of None \<Rightarrow> pret ()
     | Some d_name \<Rightarrow> pthen (cleanup_entry d_name seg0) (cleanup_loop ds seg0))"

definition av_shm_cleanup :: "av_shm \<Rightarrow> (os, int) prog" where
  "av_shm_cleanup seg0 =
     pbind (pcall sys_opendir) (\<lambda>d.
     case d of
       None \<Rightarrow> pthen (av_log_warn ''av_shm_cleanup'' ''Failed to read /dev/shm/: %s'') (pret (-1))
     | Some ds \<Rightarrow>
         pthen (cleanup_loop ds seg0)
        (pthen (pcall sys_closedir)
        (pret 0)))"

section \<open>Creating\<close>

definition create_fail :: "int \<Rightarrow> string \<Rightarrow> av_shm \<Rightarrow> (os, int \<times> av_shm) prog" where
  "create_fail fd fn m =
     pthen (if 0 \<le> fd
            then pthen (pcall (sys_shm_unlink fn)) (pthen (av_close fd) (pret ()))
            else pret ())
     (pret (-1, m))"

text \<open>The branch for private memory, \<open>!shared\<close>.\<close>

definition create_private :: "av_shm \<Rightarrow> u64 \<Rightarrow> (os, int \<times> av_shm) prog" where
  "create_private m0 sz =
     (let m1 = m0\<lparr>shm_id := 0, shm_size := sz\<rparr> in
      pbind (pcall (sys_mmap_anon (shm_size m1))) (\<lambda>p.
      let m2 = m1\<lparr>shm_ptr := p\<rparr> in
      if p = MapFailed then
        pthen (av_log_error ''av_shm_create_rw'' ''mmap() failed: %s'') (create_fail (-1) [] m2)
      else pret (0, m2\<lparr>do_unlink := bit1 0\<rparr>)))"

text \<open>
  The branch for a shared segment, once the identifier has been chosen. The marker is stored
  through \<open>av_atomic_store\<close>, \<open>pid\<close> first; 0x124 and 0x180 below are the octal modes 0444, 0600.
\<close>

definition create_segment :: "av_shm \<Rightarrow> u64 \<Rightarrow> u32 \<Rightarrow> (os, int \<times> av_shm) prog" where
  "create_segment m1 sz mode =
     (let fn = segment_name 32 (shm_id m1) in
     pbind (pcall (sys_shm_open_excl fn (mode AND 0x124))) (\<lambda>fd.
     if fd < 0 then
       pthen (av_log_error ''av_shm_create_rw'' ''shm_open() failed: %s'') (create_fail fd fn m1)
     else
       let m2 = m1\<lparr>shm_size := sz + SHM_MARKER_SIZE\<rparr> in
       pbind (pcall (sys_ftruncate fd (shm_size m2))) (\<lambda>r.
       if r < 0 then
         pthen (av_log_error ''av_shm_create_rw'' ''ftruncate() failed: %s'') (create_fail fd fn m2)
       else
         pbind (pcall (sys_mmap (av_page_align (shm_size m2)) True fd)) (\<lambda>p.
         let m3 = m2\<lparr>shm_ptr := p\<rparr> in
         if p = MapFailed then
           pthen (av_log_error ''av_shm_create_rw'' ''mmap() failed: %s'') (create_fail fd fn m3)
         else
           pbind (pgets (\<lambda>w. self_pid (env w))) (\<lambda>pid.
           pthen (store_int (pid_ptr m3) pid)
          (pthen (store_int (marker_ptr m3) SHM_MARKER)
          (pbind (av_close fd) (\<lambda>r.
           pthen (av_assert (r = 0))
           (pret (0, m3\<lparr>do_unlink := bit1 1\<rparr>))))))))))"

text \<open>\<open>av_random\<close> fills the four bytes of \<open>m->id\<close>.\<close>

definition create_shared :: "av_shm \<Rightarrow> u64 \<Rightarrow> u32 \<Rightarrow> (os, int \<times> av_shm) prog" where
  "create_shared m0 sz mode =
     pbind (av_random (bytes_of_int (shm_id m0))) (\<lambda>bs.
     create_segment (m0\<lparr>shm_id := int_of_bytes (bs ! 0) (bs ! 1) (bs ! 2) (bs ! 3)\<rparr>) sz mode)"

text \<open>\<open>stack\<close> is what the cleanup finds in its uninitialised local \<open>seg\<close>.\<close>

definition av_shm_create_rw ::
    "av_shm option \<Rightarrow> u64 \<Rightarrow> int \<Rightarrow> u32 \<Rightarrow> av_shm \<Rightarrow> (os, int \<times> av_shm) prog" where
  "av_shm_create_rw mp sz is_shared mode stack =
     pbind (av_assert_ptr mp) (\<lambda>m.
     pthen (av_assert (0 < sz))
    (pthen (av_assert (sz \<le> MAX_SHM_SIZE))
    (pthen (av_assert (0x180 \<le> mode))
    (pthen (av_shm_cleanup stack)
    (let sz' = av_page_align sz in
     pbind (if is_shared = 0 then create_private m sz' else create_shared m sz' mode) (\<lambda>(r, m').
     if r < 0 then pret (r, m') else pret (0, m'\<lparr>shared := bit1 is_shared\<rparr>)))))))"

end
