(* ===== verification/Shm_Cleanup.thy ===== *)
theory Shm_Cleanup
  imports Shm
begin

text \<open>
  What the functions of src/shm.c do to the kernel's tables, up to and with \<open>av_shm_cleanup\<close>: the
  facts about attaching to a segment, freeing it and removing the segments of dead processes, for
  every way the system calls may fail.
\<close>

section \<open>Where these functions lead\<close>

text \<open>
  \<open>sh_to F M D w w'\<close>: from \<open>w\<close> only the clock, \<open>errno\<close>, the log and the two counters have
  moved, and the tables of descriptors, mappings and names are \<open>F\<close>, \<open>M\<close> and \<open>D\<close>.
\<close>

definition sh_to :: "(int \<Rightarrow> fobj option) \<Rightarrow> (nat \<Rightarrow> mapping option) \<Rightarrow> (string \<times> nat) list \<Rightarrow>
    os \<Rightarrow> os \<Rightarrow> bool" where
  "sh_to F M D w w' \<longleftrightarrow>
     w' = w\<lparr>clock := clock w', errno := errno w', logs := logs w', fds := F,
            next_fd := next_fd w', maps := M, next_map := next_map w', dir := D\<rparr>
     \<and> next_fd w \<le> next_fd w' \<and> next_map w \<le> next_map w'"

lemma sh_toD:
  assumes "sh_to F M D w w'"
  shows "env w' = env w" "fds w' = F" "maps w' = M" "dir w' = D" "inodes w' = inodes w"
    "next_ino w' = next_ino w" "rand_state w' = rand_state w" "has_whined w' = has_whined w"
    "next_fd w \<le> next_fd w'" "next_map w \<le> next_map w'"
    "faulty w' = faulty w" "fair w' = fair w"
proof -
  have e: "w' = w\<lparr>clock := clock w', errno := errno w', logs := logs w', fds := F,
            next_fd := next_fd w', maps := M, next_map := next_map w', dir := D\<rparr>"
    using assms by (simp add: sh_to_def)
  show "env w' = env w" by (subst e) simp
  then show "faulty w' = faulty w" "fair w' = fair w" by (rule faulty_cong, rule fair_cong)
  show "fds w' = F" "maps w' = M" "dir w' = D" "inodes w' = inodes w"
    "next_ino w' = next_ino w" "rand_state w' = rand_state w" "has_whined w' = has_whined w"
    by (subst e, simp)+
  show "next_fd w \<le> next_fd w'" "next_map w \<le> next_map w'"
    using assms by (simp_all add: sh_to_def)
qed

lemma sh_toI:
  assumes "env w' = env w" "fds w' = F" "maps w' = M" "dir w' = D" "inodes w' = inodes w"
    "next_ino w' = next_ino w" "rand_state w' = rand_state w" "has_whined w' = has_whined w"
    "next_fd w \<le> next_fd w'" "next_map w \<le> next_map w'"
  shows "sh_to F M D w w'"
  using assms by (cases w, cases w') (simp add: sh_to_def)

lemma sh_to_refl [simp]: "sh_to (fds w) (maps w) (dir w) w w"
  by (simp add: sh_to_def)

lemma sh_to_trans: "sh_to F M D w v \<Longrightarrow> sh_to F' M' D' v w' \<Longrightarrow> sh_to F' M' D' w w'"
proof -
  assume a: "sh_to F M D w v" and b: "sh_to F' M' D' v w'"
  note d = sh_toD [OF a] and e = sh_toD [OF b]
  show ?thesis
    by (rule sh_toI) (use d(1,5-8) e(1-8) d(9,10) e(9,10) in \<open>simp_all only: order_trans\<close>)
qed

lemma sh_to_io: "io_to F w w' \<Longrightarrow> sh_to F (maps w) (dir w) w w'"
proof -
  assume a: "io_to F w w'"
  note d = io_toD [OF a]
  show ?thesis by (rule sh_toI) (use d(1-9,11) in simp_all)
qed

lemma os_ok_sh_to:
  assumes "os_ok w" and "sh_to F M D w w'"
    and "\<And>fd f. F fd = Some f \<Longrightarrow> fds w fd = Some f \<or>
           0 \<le> fd \<and> fd < int (next_fd w') \<and> (\<forall>i. f_kind f = F_shm i \<longrightarrow> inodes w i \<noteq> None)"
    and "\<And>b m. M b = Some m \<Longrightarrow> maps w b = Some m \<or> b < next_map w' \<and> inodes w (m_ino m) \<noteq> None"
    and "distinct (map fst D)" and "set D \<subseteq> set (dir w)"
  shows "os_ok w'"
proof -
  note d = sh_toD [OF assms(2)]
  have "fds_ok w'" unfolding fds_ok_def
    using assms(1,3) d by (fastforce simp: os_ok_def fds_ok_def)
  moreover have "mem_ok w'" unfolding mem_ok_def
    using assms(1,4) d by (fastforce simp: os_ok_def mem_ok_def)
  moreover have "dir_ok w'" using assms(1,5,6) d by (auto simp: os_ok_def dir_ok_def)
  moreover have "devs_ok w'" using assms(1) d by (simp add: os_ok_def devs_ok_def)
  ultimately show ?thesis by (simp add: os_ok_def)
qed

lemma os_ok_distinct: "os_ok w \<Longrightarrow> distinct (map fst (dir w))"
  by (simp add: os_ok_def dir_ok_def)

subsection \<open>The system calls\<close>

abbreviation shm_fobj :: "nat \<Rightarrow> bool \<Rightarrow> fobj" where
  "shm_fobj i wr \<equiv> \<lparr>f_kind = F_shm i, f_in = [], f_out = [], f_write = wr\<rparr>"

lemma faultyI: "fault (env w) n = Some e \<Longrightarrow> faulty w"
  by (auto simp: faulty_def)

lemma sys_shm_open_ro_io:
  assumes "sys_shm_open_ro fn w = (fd, v)"
  shows "fd = -1 \<and> io_to (fds w) w v \<and> (faulty w \<or> map_of (dir w) (shm_file fn) = None) \<or>
    (\<exists>i. map_of (dir w) (shm_file fn) = Some i \<and> fd = int (next_fd w) \<and> fd < int (next_fd v) \<and>
       io_to ((fds w)(fd \<mapsto> shm_fobj i False)) w v)"
  using assms
  by (auto simp: sys_shm_open_ro_def syscall_def act_defs io_to_def
      split: option.splits intro: faultyI)

lemma sys_fstat_size_io:
  assumes "sys_fstat_size fd w = ((r, sz), v)" and "fds w fd = Some (shm_fobj i wr)"
    and "inodes w i = Some nd"
  shows "io_to (fds w) w v \<and> (r = -1 \<and> faulty w \<or> r = 0 \<and> sz = int (i_size nd))"
  using assms
  by (auto simp: sys_fstat_size_def syscall_def act_defs io_to_def
      split: option.splits intro: faultyI)

lemma sys_mmap_sh:
  assumes "sys_mmap len wr fd w = (p, v)" and "fds w fd = Some (shm_fobj i wr')"
    and "wr \<longrightarrow> wr'" and "len \<noteq> 0"
  shows "p = MapFailed \<and> faulty w \<and> io_to (fds w) w v \<or>
    p = Ptr (next_map w) 0 \<and> next_map v = Suc (next_map w) \<and>
    sh_to (fds w) ((maps w)(next_map w \<mapsto>
      \<lparr>m_ino = i, m_lo = 0, m_len = page_up (unat len), m_write = wr\<rparr>)) (dir w) w v"
  using assms
  by (auto simp: sys_mmap_def syscall_def act_defs io_to_def sh_to_def
      split: option.splits if_splits intro: faultyI)

lemma sys_munmap_sh:
  assumes "sys_munmap (Ptr b 0) len w = (r, v)" and "maps w b = Some m"
    and "m_len m \<le> page_up (unat len)" and "len \<noteq> 0"
  shows "r = -1 \<and> faulty w \<and> io_to (fds w) w v \<or>
    r = 0 \<and> sh_to (fds w) ((maps w)(b := None)) (dir w) w v"
  using assms
  by (auto simp: sys_munmap_def syscall_def act_defs io_to_def sh_to_def
      split: option.splits intro: faultyI)

lemma sys_shm_unlink_sh:
  assumes "sys_shm_unlink fn w = (r, v)"
  shows "r = -1 \<and> io_to (fds w) w v \<and> (faulty w \<or> map_of (dir w) (shm_file fn) = None) \<or>
    r = 0 \<and> (\<exists>i. map_of (dir w) (shm_file fn) = Some i) \<and>
    sh_to (fds w) (maps w) (filter (\<lambda>e. fst e \<noteq> shm_file fn) (dir w)) w v"
  using assms
  by (auto simp: sys_shm_unlink_def syscall_def act_defs io_to_def sh_to_def
      split: option.splits intro: faultyI)

lemma sys_kill0_io:
  assumes "sys_kill0 pid w = (k, v)"
  shows "io_to (fds w) w v \<and> (k = 0 \<and> procs (env w) (sint pid) = None \<or>
    k = -1 \<and> procs (env w) (sint pid) = Some (errno v))"
  using assms by (auto simp: sys_kill0_def act_defs io_to_def split: option.splits)

lemma sys_dir_io:
  "sys_opendir w = (ds, v) \<Longrightarrow> io_to (fds w) w v \<and>
     (ds = Some (map fst (dir w)) \<or> ds = None \<and> faulty w)"
  "sys_readdir names w = (de, v) \<Longrightarrow> io_to (fds w) w v \<and>
     (de = (case names of [] \<Rightarrow> None | n # _ \<Rightarrow> Some n) \<or> de = None \<and> faulty w)"
  "sys_closedir w = (r, v) \<Longrightarrow> io_to (fds w) w v"
  by (auto simp: sys_opendir_def sys_readdir_def sys_closedir_def syscall_def act_defs io_to_def
      split: option.splits intro: faultyI)

lemma av_close_quiet:
  assumes "\<not> faulty w" and "fds w fd = Some f"
  shows "wp E (av_close fd) (\<lambda>r w'. r = 0) w"
proof -
  have "fault (env w) (clock w) = None" using assms(1) by (auto simp: faulty_def)
  then have "sys_close fd w = (0, w\<lparr>clock := Suc (clock w), fds := (fds w)(fd := None)\<rparr>)"
    using assms(2) by (simp add: sys_close_def)
  then show ?thesis
    by (simp add: av_close_def wp_plift_iff retry_eintr.simps [of id "sys_close fd" w])
qed

text \<open>
  How the functions of this theory may stop: never with an invalid access; in a loop only where
  interruptions go on for ever; in an assertion only where a call fails.
\<close>

definition may_stop :: "os \<Rightarrow> stop \<Rightarrow> bool" where
  "may_stop w e \<longleftrightarrow> e = Diverge \<and> \<not> fair w \<or> e = Abort \<and> faulty w"

lemma may_stop_cong: "env w' = env w \<Longrightarrow> may_stop w' = may_stop w"
  using fair_cong [of w' w] faulty_cong [of w' w] by (simp add: may_stop_def fun_eq_iff)

lemma may_stop_simps [simp]: "\<not> may_stop w Segv" "may_stop w Abort = faulty w"
  "may_stop w Diverge \<longleftrightarrow> \<not> fair w"
  by (auto simp: may_stop_def)

lemma wp_may_stop:
  assumes "wp ((=) Diverge) m Q v" and "fair v \<Longrightarrow> \<exists>a v'. m v = Ok a v'" and "env v = env w"
  shows "wp (may_stop w) m Q v"
  using assms fair_cong [OF assms(3)]
  by (cases "fair v") (auto simp: wp_def split: outcome.splits)

subsection \<open>Coming back without descriptors\<close>

text \<open>
  \<open>reach M D w w'\<close>: the tables of mappings and names have become \<open>M\<close> and \<open>D\<close>, the kernel's tables
  are still consistent, and no descriptor was left open (unless closing it failed and keeps it).
\<close>

definition reach :: "(nat \<Rightarrow> mapping option) \<Rightarrow> (string \<times> nat) list \<Rightarrow> os \<Rightarrow> os \<Rightarrow> bool" where
  "reach M D w w' \<longleftrightarrow> os_ok w' \<and>
     (\<exists>F. sh_to F M D w w' \<and> (close_err_releases (env w) \<longrightarrow> F = fds w))"

lemma reach_refl: "os_ok w \<Longrightarrow> reach (maps w) (dir w) w w"
  unfolding reach_def by (intro conjI exI [of _ "fds w"]) simp_all

lemma reach_trans: "reach M D w v \<Longrightarrow> reach M' D' v w' \<Longrightarrow> reach M' D' w w'"
  unfolding reach_def by (metis sh_toD(1) sh_toD(2) sh_to_trans)

lemma reachD:
  assumes "reach M D w w'"
  shows "os_ok w'" "env w' = env w" "maps w' = M" "dir w' = D" "inodes w' = inodes w"
    "next_ino w' = next_ino w" "rand_state w' = rand_state w" "has_whined w' = has_whined w"
    "next_fd w \<le> next_fd w'" "next_map w \<le> next_map w'" "faulty w' = faulty w" "fair w' = fair w"
    "close_err_releases (env w) \<Longrightarrow> fds w' = fds w"
proof -
  from assms obtain F where F: "os_ok w'" "sh_to F M D w w'"
    "close_err_releases (env w) \<longrightarrow> F = fds w" by (auto simp: reach_def)
  note d = sh_toD [OF F(2)]
  show "os_ok w'" by (rule F(1))
  show "env w' = env w" "maps w' = M" "dir w' = D" "inodes w' = inodes w"
    "next_ino w' = next_ino w" "rand_state w' = rand_state w" "has_whined w' = has_whined w"
    "next_fd w \<le> next_fd w'" "next_map w \<le> next_map w'" "faulty w' = faulty w" "fair w' = fair w"
    by (rule d)+
  show "close_err_releases (env w) \<Longrightarrow> fds w' = fds w" using F(3) d(2) by simp
qed

lemma reach_new_map: "reach (M(b \<mapsto> m)) D w w' \<Longrightarrow> b < next_map w'"
  using reachD(1,3) [of "M(b \<mapsto> m)" D w w'] by (auto simp: os_ok_def mem_ok_def)

lemma reach_sh:
  assumes "os_ok w" and "sh_to (fds w) M D w w'"
    and "\<And>b m. M b = Some m \<Longrightarrow> maps w b = Some m \<or> b < next_map w' \<and> inodes w (m_ino m) \<noteq> None"
    and "distinct (map fst D)" and "set D \<subseteq> set (dir w)"
  shows "reach M D w w'"
  unfolding reach_def
  using os_ok_sh_to [OF assms(1,2) _ assms(3-5)] assms(2) by blast

lemma reach_io: "os_ok w \<Longrightarrow> io_to (fds w) w w' \<Longrightarrow> reach (maps w) (dir w) w w'"
  by (rule reach_sh [OF _ sh_to_io]) (auto simp: os_ok_distinct)

lemma reach_log:
  assumes "reach M D w v"
  shows "reach M D w (v\<lparr>logs := l\<rparr>)"
proof -
  from assms obtain F where F: "os_ok v" "sh_to F M D w v"
    "close_err_releases (env w) \<longrightarrow> F = fds w" by (auto simp: reach_def)
  have "sh_to F M D w (v\<lparr>logs := l\<rparr>)"
    by (rule sh_toI) (use sh_toD [OF F(2)] in simp_all)
  moreover have "os_ok (v\<lparr>logs := l\<rparr>)" using F(1) by (simp add: os_ok_defs)
  ultimately show ?thesis using F(3) by (auto simp: reach_def)
qed

text \<open>Closing the one descriptor opened since \<open>w\<close>.\<close>

lemma close_back:
  assumes ok: "os_ok w" and v: "sh_to ((fds w)(fd \<mapsto> f)) M D w v"
    and fd: "fds w fd = None" "0 \<le> fd" "fd < int (next_fd v)"
    and f: "\<And>i. f_kind f = F_shm i \<Longrightarrow> inodes w i \<noteq> None"
    and M: "\<And>b m. M b = Some m \<Longrightarrow>
       maps w b = Some m \<or> b < next_map v \<and> inodes w (m_ino m) \<noteq> None"
    and D: "distinct (map fst D)" "set D \<subseteq> set (dir w)"
  shows "wp (may_stop w) (av_close fd)
     (\<lambda>r w'. reach M D w w' \<and> (r = 0 \<longrightarrow> fds w' = fds w) \<and> (r = 0 \<or> faulty w)) v"
proof (rule wp_may_stop [OF _ av_close_total])
  note dv = sh_toD [OF v]
  have cl: "(fds v)(fd := None) = fds w" using dv(2) fd(1) by (auto simp: fun_upd_idem)
  have "wp ((=) Diverge) (av_close fd) (\<lambda>r w'. r = 0 \<or> faulty w) v"
  proof (cases "faulty w")
    case True
    then show ?thesis by (intro wp_mono [OF av_close_io]) simp
  next
    case False
    with dv show ?thesis by (intro wp_mono [OF av_close_quiet [of v fd f]]) simp_all
  qed
  moreover have "wp ((=) Diverge) (av_close fd)
     (\<lambda>r w'. reach M D w w' \<and> (r = 0 \<longrightarrow> fds w' = fds w)) v"
  proof (rule wp_mono [OF av_close_io], elim conjE exE)
    fix r w' F
    assume F: "closed fd v F" "io_to F v w'" "r = 0 \<longrightarrow> F = (fds v)(fd := None)"
    have w': "sh_to F M D w w'" using sh_to_trans [OF v sh_to_io [OF F(2)]] dv by simp
    have le: "fd < int (next_fd w')" "next_map v \<le> next_map w'"
      using fd(3) io_toD(3,8) [OF F(2)] by simp_all
    have F': "F = fds w \<or> F = (fds w)(fd \<mapsto> f) \<and> \<not> close_err_releases (env w)"
      using F(1) cl dv by (auto simp: closed_def)
    have "os_ok w'"
    proof (rule os_ok_sh_to [OF ok w' _ _ D])
      show "fds w fd' = Some g \<or> 0 \<le> fd' \<and> fd' < int (next_fd w') \<and>
          (\<forall>i. f_kind g = F_shm i \<longrightarrow> inodes w i \<noteq> None)" if "F fd' = Some g" for fd' g
        using that F' f fd(2) le(1) by (auto split: if_splits)
    qed (use M le(2) in \<open>fastforce dest: order_less_le_trans\<close>)
    with w' F' F(3) cl sh_toD(2) [OF w'] show "reach M D w w' \<and> (r = 0 \<longrightarrow> fds w' = fds w)"
      by (auto simp: reach_def)
  qed
  ultimately show "wp ((=) Diverge) (av_close fd)
     (\<lambda>r w'. reach M D w w' \<and> (r = 0 \<longrightarrow> fds w' = fds w) \<and> (r = 0 \<or> faulty w)) v"
    by (simp add: wp_conj)
qed (use sh_toD(1) [OF v] in simp_all)

section \<open>Names and sizes\<close>

definition seg_file :: "u32 \<Rightarrow> string" where
  "seg_file ident = SHM_NAME_PREFIX @ fmt_u (unat ident)"

lemma length_fmt_u_u32: "length (fmt_u (unat (ident :: u32))) \<le> 10"
proof (rule length_fmt_u_le)
  have "unat ident < 2 ^ 32" using unsigned_less [of ident] by simp
  then show "unat ident < 10 ^ 10" by simp
qed simp

text \<open>Every identifier fits: the 32 bytes of \<open>fn\<close> cut nothing off.\<close>

lemma segment_name_eq: "21 \<le> l \<Longrightarrow> segment_name l ident = ''/'' @ seg_file ident"
  using length_fmt_u_u32 [of ident]
  by (simp add: segment_name_def seg_file_def SHM_NAME_PREFIX_def)

lemma shm_file_segment_name [simp]: "21 \<le> l \<Longrightarrow> shm_file (segment_name l ident) = seg_file ident"
  by (simp add: segment_name_eq shm_file_def)

lemma seg_file_inj: "seg_file a = seg_file b \<Longrightarrow> a = b"
proof -
  assume "seg_file a = seg_file b"
  then have "digits_value 10 (fmt_u (unat a)) = digits_value 10 (fmt_u (unat b))"
    by (simp only: seg_file_def same_append_eq)
  then show "a = b" by (simp only: digits_value_fmt_u word_unat_eq_iff)
qed

lemma shm_consts: "SHM_MARKER_SIZE = 8" "MAX_SHM_SIZE = 0x4000000"
  by (simp_all add: SHM_MARKER_SIZE_def MAX_SHM_SIZE_def av_align_def)

lemma sint_shm_max: "sint (MAX_SHM_SIZE + SHM_MARKER_SIZE) = 0x4000008"
  by (simp add: shm_consts)

lemma page_up_round_up: "page_up n = round_up 4096 n"
  by (simp add: page_up_def page_def round_up_def)

lemma page_up_page_align:
  "unat l + 4095 < 2 ^ 64 \<Longrightarrow> page_up (unat (av_page_align l)) = page_up (unat l)"
  by (simp only: page_up_round_up unat_av_page_align) (simp add: round_up_idem)

lemma page_up_ge: "n \<le> page_up n"
  unfolding page_up_round_up by (rule round_up_ge) simp

lemma unat_of_size: "n < 2 ^ 64 \<Longrightarrow> unat (of_nat n :: u64) = n"
  by (simp add: unsigned_of_nat take_bit_nat_eq_self)

lemma av_align_of_size:
  assumes "n \<le> 0x4000008"
  shows "av_align (of_nat n) = of_nat n \<longleftrightarrow> 8 dvd n"
proof -
  have n: "unat (of_nat n :: u64) = n" by (rule unat_of_size) (use assms in simp)
  have "av_align (of_nat n) = of_nat n \<longleftrightarrow>
      unat (av_align (of_nat n)) = unat (of_nat n :: u64)"
    by (simp only: word_unat_eq_iff)
  also have "\<dots> \<longleftrightarrow> round_up 8 n = n" by (simp only: n unat_av_align assms, subst unat_av_align)
      (use n assms in simp_all)
  also have "\<dots> \<longleftrightarrow> 8 dvd n" using round_up_id [of 8 n] round_up_dvd [of 8 n] by (metis zero_less_numeral)
  finally show ?thesis .
qed

section \<open>What attaching does\<close>

text \<open>
  A segment one may attach to: the inode its name leads to has a size that is positive, not
  larger than the largest segment and a multiple of eight.
\<close>

definition valid_segment :: "os \<Rightarrow> u32 \<Rightarrow> nat \<Rightarrow> inode \<Rightarrow> bool" where
  "valid_segment w ident i nd \<longleftrightarrow> map_of (dir w) (seg_file ident) = Some i \<and>
     inodes w i = Some nd \<and> 0 < i_size nd \<and> i_size nd \<le> 0x4000008 \<and> 8 dvd i_size nd"

lemma size_check:
  "\<not> (int n \<le> 0 \<or> int n > sint (MAX_SHM_SIZE + SHM_MARKER_SIZE) \<or>
      av_align (word_of_int (int n)) \<noteq> word_of_int (int n)) \<longleftrightarrow>
   0 < n \<and> n \<le> 0x4000008 \<and> 8 dvd n"
  using av_align_of_size [of n] unfolding sint_shm_max by (cases "n \<le> 0x4000008") auto

text \<open>The mapping \<open>av_shm_attach_ro\<close> makes, and the structure it fills in.\<close>

abbreviation ro_mapping :: "nat \<Rightarrow> inode \<Rightarrow> mapping" where
  "ro_mapping i nd \<equiv> \<lparr>m_ino = i, m_lo = 0, m_len = page_up (i_size nd), m_write = False\<rparr>"

definition ro_view :: "u32 \<Rightarrow> nat \<Rightarrow> inode \<Rightarrow> av_shm" where
  "ro_view ident b nd = \<lparr>shm_id = ident, shm_ptr = Ptr b 0,
     shm_size = of_nat (i_size nd), do_unlink = 0, shared = -1\<rparr>"

lemma attach_fail_spec:
  assumes "os_ok w" and "sh_to ((fds w)(fd \<mapsto> f)) (maps w) (dir w) w v"
    and "fds w fd = None" "0 \<le> fd" "fd < int (next_fd v)"
    and "\<And>i. f_kind f = F_shm i \<Longrightarrow> inodes w i \<noteq> None"
  shows "wp (may_stop w) (attach_fail fd m)
     (\<lambda>(r, m') w'. r = -1 \<and> m' = m \<and> reach (maps w) (dir w) w w') v"
proof -
  have "wp (may_stop w) (av_close fd) (\<lambda>r w'. reach (maps w) (dir w) w w') v"
    by (rule wp_mono [OF close_back [OF assms]]) (auto simp: os_ok_distinct [OF assms(1)])
  then show ?thesis using assms(4) by (simp add: attach_fail_def wp_rules)
qed

lemma sh_to_log: "sh_to F M D w v \<Longrightarrow> sh_to F M D w (v\<lparr>logs := l\<rparr>)"
proof -
  assume "sh_to F M D w v"
  note d = sh_toD [OF this]
  show ?thesis by (rule sh_toI) (use d in simp_all)
qed

text \<open>The state in which the one descriptor \<open>fd\<close> is open in addition to those of \<open>w\<close>.\<close>

definition opened :: "int \<Rightarrow> fobj \<Rightarrow> os \<Rightarrow> os \<Rightarrow> bool" where
  "opened fd f w v \<longleftrightarrow> sh_to ((fds w)(fd \<mapsto> f)) (maps w) (dir w) w v \<and>
     fds w fd = None \<and> 0 \<le> fd \<and> fd < int (next_fd v) \<and> next_map v = next_map w \<and>
     (\<forall>i. f_kind f = F_shm i \<longrightarrow> inodes w i \<noteq> None)"

lemma opened_log: "opened fd f w v \<Longrightarrow> opened fd f w (v\<lparr>logs := l\<rparr>)"
  by (auto simp: opened_def intro: sh_to_log)

lemma opened_io: "opened fd f w v \<Longrightarrow> io_to (fds v) v v' \<Longrightarrow> opened fd f w v'"
proof -
  assume a: "opened fd f w v" and b: "io_to (fds v) v v'"
  from a have s: "sh_to ((fds w)(fd \<mapsto> f)) (maps w) (dir w) w v" by (simp add: opened_def)
  note d = sh_toD [OF s] and e = io_toD [OF b]
  have "sh_to ((fds w)(fd \<mapsto> f)) (maps w) (dir w) w v'"
    using sh_to_trans [OF s sh_to_io [OF b]] d by simp
  then show ?thesis using a e(3,8) by (auto simp: opened_def)
qed

lemma openedD:
  assumes "opened fd f w v"
  shows "sh_to ((fds w)(fd \<mapsto> f)) (maps w) (dir w) w v" "fds v fd = Some f" "0 \<le> fd"
    "fds w fd = None" "fd < int (next_fd v)" "faulty v = faulty w"
    "next_map v = next_map w" "\<And>i. f_kind f = F_shm i \<Longrightarrow> inodes w i \<noteq> None"
  using assms by (auto simp: opened_def dest: sh_toD(2,11))

lemma attach_fail_wp:
  assumes "os_ok w" and "opened fd f w v"
    and "\<And>w'. reach (maps w) (dir w) w w' \<Longrightarrow> Q (-1, m) w'"
  shows "wp (may_stop w) (attach_fail fd m) Q v"
  by (rule wp_mono [OF attach_fail_spec [OF assms(1) openedD(1,4,3,5,8) [OF assms(2)]]])
    (use assms(3) in auto)

lemma attach_opened:
  assumes "os_ok w" and "sys_shm_open_ro (segment_name 32 ident) w = (fd, v)" and "\<not> fd < 0"
  shows "\<exists>i nd. map_of (dir w) (seg_file ident) = Some i \<and> inodes w i = Some nd \<and>
     opened fd (shm_fobj i False) w v"
proof -
  from sys_shm_open_ro_io [OF assms(2)] assms(3) obtain i
    where i: "map_of (dir w) (seg_file ident) = Some i" "fd = int (next_fd w)"
      "fd < int (next_fd v)" "io_to ((fds w)(fd \<mapsto> shm_fobj i False)) w v" by auto
  from os_ok_dir_inode [OF assms(1) i(1)] obtain nd where "inodes w i = Some nd" by blast
  with i show ?thesis
    unfolding opened_def
    using sh_to_io [OF i(4)] io_toD(8) [OF i(4)] os_ok_fresh_fd [OF assms(1)] by auto
qed

lemma attach_fstat:
  assumes "opened fd (shm_fobj i wr) w v" and "inodes w i = Some nd"
    and "sys_fstat_size fd v = ((r, sz), v2)"
  shows "opened fd (shm_fobj i wr) w v2 \<and> (r < 0 \<and> faulty w \<or> r = 0 \<and> sz = int (i_size nd))"
  using sys_fstat_size_io [OF assms(3) openedD(2) [OF assms(1)], of nd] assms(2)
    sh_toD(5) [OF openedD(1) [OF assms(1)]] openedD(6) [OF assms(1)] opened_io [OF assms(1)]
  by auto

text \<open>The size of the mapping, once the size of the file has passed the checks.\<close>

lemma seg_len:
  assumes "0 < n" and "n \<le> 0x4000008"
  shows "av_page_align (of_nat n) \<noteq> 0"
    "page_up (unat (av_page_align (of_nat n))) = page_up n"
proof -
  have n: "unat (of_nat n :: u64) = n" using assms by (intro unat_of_size) simp
  then show 2: "page_up (unat (av_page_align (of_nat n))) = page_up n"
    using assms by (simp add: page_up_page_align)
  show "av_page_align (of_nat n) \<noteq> 0"
  proof
    assume "av_page_align (of_nat n) = 0"
    with 2 have "page_up n = 0" by (simp add: page_up_def page_def)
    with page_up_ge [of n] assms show False by simp
  qed
qed

lemma attach_mmap:
  assumes "opened fd (shm_fobj i wr) w v" and "0 < n" "n \<le> 0x4000008" and "rw \<longrightarrow> wr"
    and "sys_mmap (av_page_align (of_nat n)) rw fd v = (p, v')"
  shows "p = MapFailed \<and> faulty w \<and> opened fd (shm_fobj i wr) w v' \<or>
    p = Ptr (next_map w) 0 \<and> next_map v' = Suc (next_map w) \<and> fd < int (next_fd v') \<and>
    sh_to ((fds w)(fd \<mapsto> shm_fobj i wr)) ((maps w)(next_map w \<mapsto>
      \<lparr>m_ino = i, m_lo = 0, m_len = page_up n, m_write = rw\<rparr>)) (dir w) w v'"
proof -
  note o = openedD [OF assms(1)] and l = seg_len [OF assms(2,3)]
  note d = sh_toD [OF o(1)]
  from sys_mmap_sh [OF assms(5) o(2) assms(4) l(1)] show ?thesis
  proof (elim disjE conjE)
    assume "p = MapFailed" "faulty v" "io_to (fds v) v v'"
    then show ?thesis using opened_io [OF assms(1)] o(6) by simp
  next
    assume "p = Ptr (next_map v) 0" "next_map v' = Suc (next_map v)"
      and s: "sh_to (fds v) ((maps v)(next_map v \<mapsto> \<lparr>m_ino = i, m_lo = 0,
           m_len = page_up (unat (av_page_align (of_nat n))), m_write = rw\<rparr>))
           (dir v) v v'"
    moreover have "fd < int (next_fd v')" using o(5) sh_toD(9) [OF s] by simp
    ultimately show ?thesis using sh_to_trans [OF o(1) s] d o(2,7) by (simp add: l(2))
  qed
qed

lemma attach_spec:
  assumes ok: "os_ok w"
  shows "wp (may_stop w) (av_shm_attach_ro (Some m0) ident) (\<lambda>(r, m) w'.
     r = -1 \<and> reach (maps w) (dir w) w w' \<and> (faulty w \<or> (\<nexists>i nd. valid_segment w ident i nd)) \<or>
     r = 0 \<and> (\<exists>i nd. valid_segment w ident i nd \<and> m = ro_view ident (next_map w) nd \<and>
       reach ((maps w)(next_map w \<mapsto> ro_mapping i nd)) (dir w) w w' \<and> next_map w < next_map w'
       \<and> fds w' = fds w)) w"
  unfolding av_shm_attach_ro_def Let_def
proof (intro wp_intro, goal_cases)
  case (1 fd v)
  with sys_shm_open_ro_io [OF 1(1)] reach_log [OF reach_io [OF ok]] show ?case
    by (auto simp: wp_rules attach_fail_def valid_segment_def)
next
  case (2 fd v)
  with sys_shm_open_ro_io [OF 2(1)] reach_io [OF ok] show ?case
    by (auto simp: wp_rules attach_fail_def valid_segment_def)
next
  case (3 fd v x v2 r sz)
  then obtain i nd where o: "inodes w i = Some nd" "opened fd (shm_fobj i False) w v"
    using attach_opened [OF ok] by blast
  with 3 attach_fstat [OF o(2,1), of r sz v2] show ?case
    by (auto intro!: attach_fail_wp [OF ok opened_log])
next
  case (4 fd v x v2 r sz)
  then obtain i nd where o: "map_of (dir w) (seg_file ident) = Some i" "inodes w i = Some nd"
      "opened fd (shm_fobj i False) w v"
    using attach_opened [OF ok] by blast
  with 4 have s: "sz = int (i_size nd)" "opened fd (shm_fobj i False) w v2"
    using attach_fstat [OF o(3,2), of r sz v2] by auto
  have "\<not> (0 < i_size nd \<and> i_size nd \<le> 0x4000008 \<and> 8 dvd i_size nd)"
    using 4(6) unfolding s(1) size_check [symmetric] by (simp only: not_not)
  with o have "\<nexists>i nd. valid_segment w ident i nd" by (auto simp: valid_segment_def)
  then show ?case by (auto intro!: attach_fail_wp [OF ok opened_log [OF s(2)]])
next
  case (5 fd v x v2 r sz p v3)
  then obtain i nd where o: "map_of (dir w) (seg_file ident) = Some i" "inodes w i = Some nd"
      "opened fd (shm_fobj i False) w v"
    using attach_opened [OF ok] by blast
  with 5 have s: "sz = int (i_size nd)" "opened fd (shm_fobj i False) w v2"
    using attach_fstat [OF o(3,2), of r sz v2] by auto
  have ch: "0 < i_size nd" "i_size nd \<le> 0x4000008" "8 dvd i_size nd"
    using 5(6) unfolding s(1) size_check by auto
  from attach_mmap [OF s(2) ch(1,2), of False p v3] 5(7,8)
  have "faulty w" "opened fd (shm_fobj i False) w v3" by (auto simp: s(1))
  then show ?case by (auto intro!: attach_fail_wp [OF ok opened_log])
next
  case (6 fd v x v2 r sz p v3)
  then obtain i nd where o: "map_of (dir w) (seg_file ident) = Some i" "inodes w i = Some nd"
      "opened fd (shm_fobj i False) w v"
    using attach_opened [OF ok] by blast
  with 6 have s: "sz = int (i_size nd)" "opened fd (shm_fobj i False) w v2"
    using attach_fstat [OF o(3,2), of r sz v2] by auto
  have ch: "0 < i_size nd" "i_size nd \<le> 0x4000008" "8 dvd i_size nd"
    using 6(6) unfolding s(1) size_check by auto
  from attach_mmap [OF s(2) ch(1,2), of False p v3] 6(7,8)
  have p: "p = Ptr (next_map w) 0" "next_map v3 = Suc (next_map w)" "fd < int (next_fd v3)"
    and v3: "sh_to ((fds w)(fd \<mapsto> shm_fobj i False))
      ((maps w)(next_map w \<mapsto> ro_mapping i nd)) (dir w) w v3" by (auto simp: s(1))
  have valid: "valid_segment w ident i nd" using o ch by (simp add: valid_segment_def)
  have M: "maps w b = Some m \<or> b < next_map v3 \<and> inodes w (m_ino m) \<noteq> None"
    if "((maps w)(next_map w \<mapsto> ro_mapping i nd)) b = Some m" for b m
    using that o(2) p(2) by (auto split: if_splits)
  have view: "m0\<lparr>shm_id := ident, shm_size := word_of_int sz, shm_ptr := p, do_unlink := bit1 0,
      shared := bit1 1\<rparr> = ro_view ident (next_map w) nd"
    by (cases m0) (simp add: ro_view_def bit1_def p(1) s(1))
  show ?case unfolding view
    by (rule wp_bindI [OF close_back [OF ok v3 openedD(4,3) [OF s(2)] p(3)
          openedD(8) [OF s(2)] M]])
      (use valid os_ok_distinct [OF ok] in \<open>auto simp: wp_rules dest: reach_new_map\<close>)
qed

section \<open>What freeing does\<close>

definition drop_name :: "string \<Rightarrow> (string \<times> nat) list \<Rightarrow> (string \<times> nat) list" where
  "drop_name n D = filter (\<lambda>e. fst e \<noteq> n) D"

lemma drop_name_absent: "map_of D n = None \<Longrightarrow> drop_name n D = D"
  unfolding drop_name_def by (rule filter_True) (force simp: map_of_eq_None_iff)

lemma distinct_filter_names: "distinct (map fst D) \<Longrightarrow> distinct (map fst (filter P D))"
  by (induction D) auto

text \<open>A structure \<open>m\<close> that describes mapping \<open>b\<close>, as both create and attach leave it.\<close>

definition describes :: "av_shm \<Rightarrow> nat \<Rightarrow> os \<Rightarrow> bool" where
  "describes m b w \<longleftrightarrow> shm_ptr m = Ptr b 0 \<and> 0 < unat (shm_size m) \<and>
     unat (shm_size m) \<le> 0x4000008 \<and>
     (\<exists>mp. maps w b = Some mp \<and> m_len mp = page_up (unat (shm_size m)))"

lemma reach_unmap: "os_ok w \<Longrightarrow> sh_to (fds w) ((maps w)(b := None)) (dir w) w v \<Longrightarrow>
    reach ((maps w)(b := None)) (dir w) w v"
  by (rule reach_sh) (simp_all add: os_ok_distinct split: if_splits)

lemma reach_unlink:
  assumes "os_ok w" and "sys_shm_unlink fn w = (r, v)"
  shows "reach (maps w) (dir v) w v \<and>
    (dir v = drop_name (shm_file fn) (dir w) \<or> faulty w \<and> dir v = dir w)"
proof -
  from sys_shm_unlink_sh [OF assms(2)] consider
      (none) "io_to (fds w) w v" "faulty w \<or> map_of (dir w) (shm_file fn) = None"
    | (gone) "sh_to (fds w) (maps w) (filter (\<lambda>e. fst e \<noteq> shm_file fn) (dir w)) w v" by auto
  then show ?thesis
  proof cases
    case none
    with io_toD(4) [OF none(1)] show ?thesis
      using reach_io [OF assms(1) none(1)] by (auto simp: drop_name_absent)
  next
    case gone
    have "reach (maps w) (filter (\<lambda>e. fst e \<noteq> shm_file fn) (dir w)) w v"
      by (rule reach_sh [OF assms(1) gone])
        (use os_ok_distinct [OF assms(1)] in \<open>auto intro: distinct_filter_names\<close>)
    with sh_toD(4) [OF gone] show ?thesis by (simp add: drop_name_def)
  qed
qed

lemma reach_unlink_after:
  assumes "reach M D w v" and "sys_shm_unlink fn v = (r, v')"
  shows "reach M (dir v') w v' \<and> (dir v' = drop_name (shm_file fn) D \<or> faulty w \<and> dir v' = D)"
  using reach_unlink [OF reachD(1) [OF assms(1)] assms(2)] reach_trans [OF assms(1)]
    reachD(3,4,11) [OF assms(1)] by auto

lemma munmap_reach:
  assumes "os_ok w" and "maps w b = Some mp" and "m_len mp = page_up (unat sz)" and "0 < unat sz"
    and "unat sz \<le> 0x4000008" and "len = sz \<or> len = av_page_align sz"
    and "sys_munmap (Ptr b 0) len w = (r, v)"
  shows "reach (maps v) (dir w) w v \<and>
    (maps v = (maps w)(b := None) \<or> faulty w \<and> maps v = maps w)"
proof -
  have sz: "sz = of_nat (unat sz)" by simp
  have "len \<noteq> 0 \<and> page_up (unat len) = page_up (unat sz)"
    using assms(4-6) seg_len [of "unat sz"] by auto
  with sys_munmap_sh [OF assms(7,2)] assms(3)
  have "r = -1 \<and> faulty w \<and> io_to (fds w) w v \<or>
    r = 0 \<and> sh_to (fds w) ((maps w)(b := None)) (dir w) w v" by simp
  then show ?thesis
    using reach_io [OF assms(1)] reach_unmap [OF assms(1)] reachD(3) by fastforce
qed

lemma free_spec:
  assumes ok: "os_ok w" and m: "describes m b w"
  shows "wp never (av_shm_free (Some m)) (\<lambda>m' w'. m' = zero_shm \<and> (\<exists>M D. reach M D w w' \<and>
     (M = (maps w)(b := None) \<or> faulty w \<and> M = maps w) \<and>
     (D = (if shared m \<noteq> 0 \<and> do_unlink m \<noteq> 0 then drop_name (seg_file (shm_id m)) (dir w)
           else dir w) \<or> faulty w \<and> D = dir w))) w"
proof -
  from m obtain mp where mp: "shm_ptr m = Ptr b 0" "maps w b = Some mp"
    "m_len mp = page_up (unat (shm_size m))" "0 < unat (shm_size m)"
    "unat (shm_size m) \<le> 0x4000008" by (auto simp: describes_def)
  then have sz: "0 < shm_size m" by (simp add: word_less_nat_alt)
  let ?post = "\<lambda>M D. (M = (maps w)(b := None) \<or> faulty w \<and> M = maps w) \<and>
     (D = (if shared m \<noteq> 0 \<and> do_unlink m \<noteq> 0 then drop_name (seg_file (shm_id m)) (dir w)
           else dir w) \<or> faulty w \<and> D = dir w)"
  let ?unmapped = "\<lambda>v. \<exists>M. reach M (dir w) w v \<and>
     (M = (maps w)(b := None) \<or> faulty w \<and> M = maps w)"
  have mu: "wp never (pbind (pcall (sys_munmap (shm_ptr m) len)) (\<lambda>r.
      if r < 0 then av_log_error ''av_shm_free'' ''munmap() failed: %s'' else pret ()))
      (\<lambda>_. ?unmapped) w"
    if "len = shm_size m \<or> len = av_page_align (shm_size m)" for len
  proof -
    obtain r v where u: "sys_munmap (shm_ptr m) len w = (r, v)" by (cases "sys_munmap (shm_ptr m) len w")
    with munmap_reach [OF ok mp(2-5) that, of r v] mp(1) have "?unmapped v" by auto
    then show ?thesis using reach_log by (fastforce simp: wp_rules u)
  qed
  have un: "wp never (pbind (pcall (sys_shm_unlink (segment_name 32 (shm_id m)))) (\<lambda>r.
      if r < 0 then av_log_error ''av_shm_free'' '' shm_unlink(%s) failed: %s'' else pret ()))
      (\<lambda>_ v'. \<exists>M D. reach M D w v' \<and> ?post M D) v"
    if s: "shared m \<noteq> 0" "do_unlink m \<noteq> 0" and v: "?unmapped v" for v
  proof -
    obtain r v' where u: "sys_shm_unlink (segment_name 32 (shm_id m)) v = (r, v')"
      by (cases "sys_shm_unlink (segment_name 32 (shm_id m)) v")
    from v obtain M where M: "reach M (dir w) w v"
      "M = (maps w)(b := None) \<or> faulty w \<and> M = maps w" by blast
    from reach_unlink_after [OF M(1) u] M(2) s have "\<exists>M D. reach M D w v' \<and> ?post M D" by auto
    then show ?thesis using reach_log by (fastforce simp: wp_rules u)
  qed
  show ?thesis unfolding av_shm_free_def
  proof (intro wp_assert_ptrI wp_assertI wp_bind_ifI, goal_cases)
    case 1
    then show ?case by (intro wp_bindI [OF mu]) (auto simp: wp_rules)
  next
    case 2
    show ?case
    proof (rule wp_assocI, rule wp_bindI [OF mu])
      fix v
      assume v: "?unmapped v"
      show "wp never (pthen (if do_unlink m \<noteq> 0 then
             pbind (pcall (sys_shm_unlink (segment_name 32 (shm_id m)))) (\<lambda>r.
               if r < 0 then av_log_error ''av_shm_free'' '' shm_unlink(%s) failed: %s''
               else pret ()) else pret ()) (pret zero_shm))
          (\<lambda>m' w'. m' = zero_shm \<and> (\<exists>M D. reach M D w w' \<and> ?post M D)) v"
      proof (cases "do_unlink m = 0")
        case True
        then show ?thesis using v by (auto simp: wp_rules)
      next
        case False
        then show ?thesis
          by (simp only: not_False_eq_True if_True) (rule wp_bindI [OF un [OF 2(4) False v]], simp add: wp_rules)
      qed
    qed simp
  qed (use mp(1) sz in auto)
qed

section \<open>What the cleanup does\<close>

text \<open>
  A stale segment: one may attach to it, its last eight bytes are the magic number and the
  process identifier of an owner, and that process does not exist.
\<close>

definition stale :: "os \<Rightarrow> u32 \<Rightarrow> bool" where
  "stale w ident \<longleftrightarrow> (\<exists>i nd. valid_segment w ident i nd \<and>
     inode_int nd (i_size nd - 8) = SHM_MARKER \<and> inode_int nd (i_size nd - 4) \<noteq> 0 \<and>
     procs (env w) (sint (inode_int nd (i_size nd - 4))) = Some ESRCH)"

lemma valid_segment_size: "valid_segment w ident i nd \<Longrightarrow> 8 \<le> i_size nd"
  by (auto simp: valid_segment_def dest: dvd_imp_le)

lemma valid_segment_unique:
  "valid_segment w ident i nd \<Longrightarrow> valid_segment w ident j nd' \<Longrightarrow> i = j \<and> nd = nd'"
  by (simp add: valid_segment_def)

lemma unat_ro_size: "valid_segment w ident i nd \<Longrightarrow> unat (shm_size (ro_view ident b nd)) = i_size nd"
  by (simp add: valid_segment_def ro_view_def unsigned_of_nat take_bit_nat_eq_self)

lemma ro_view_ptrs:
  assumes "valid_segment w ident i nd"
  shows "marker_ptr (ro_view ident b nd) = Ptr b (i_size nd - 8)"
    "pid_ptr (ro_view ident b nd) = Ptr b (i_size nd - 4)"
proof -
  have s: "unat (shm_size (ro_view ident b nd)) = i_size nd" by (rule unat_ro_size [OF assms])
  have "SHM_MARKER_SIZE \<le> shm_size (ro_view ident b nd)"
    using valid_segment_size [OF assms] s by (simp add: word_le_nat_alt shm_consts)
  then have "unat (shm_size (ro_view ident b nd) - SHM_MARKER_SIZE) = i_size nd - 8"
    using s by (simp add: unat_sub shm_consts)
  then show m: "marker_ptr (ro_view ident b nd) = Ptr b (i_size nd - 8)"
    by (simp add: marker_ptr_def ro_view_def)
  show "pid_ptr (ro_view ident b nd) = Ptr b (i_size nd - 4)"
    using valid_segment_size [OF assms] by (simp add: pid_ptr_def m)
qed

text \<open>Every read inside the segment is defined.\<close>

lemma load_mapped:
  assumes "maps v b = Some \<lparr>m_ino = i, m_lo = 0, m_len = page_up (i_size nd), m_write = wr\<rparr>"
    and "inodes v i = Some nd" and "off + 4 \<le> i_size nd"
  shows "load_int (Ptr b off) v = Ok (inode_int nd off) v"
  using assms page_up_ge [of "i_size nd"] by (simp add: load_int_def access_def)

lemma wp_loadI: "load_int p s = Ok x s \<Longrightarrow> wp E (k x) Q s \<Longrightarrow> wp E (pbind (load_int p) k) Q s"
  by (simp add: wp_def pbind_def)

definition kept :: "os \<Rightarrow> (nat \<Rightarrow> mapping option) \<Rightarrow> bool" where
  "kept w M \<longleftrightarrow> (\<forall>b < next_map w. M b = maps w b) \<and> (\<not> faulty w \<longrightarrow> M = maps w)"

text \<open>The attached segment of the cleanup, and the end of a round: the segment is freed.\<close>

lemma free_ro_spec:
  assumes ok: "os_ok w" and seg: "valid_segment w ident i nd"
    and v: "reach ((maps w)(next_map w \<mapsto> ro_mapping i nd)) (dir w) w v"
  shows "wp never (av_shm_free (Some (ro_view ident (next_map w) nd)))
    (\<lambda>_ w'. \<exists>M. reach M (dir w) w w' \<and> kept w M) v"
proof -
  have "describes (ro_view ident (next_map w) nd) (next_map w) v"
    using reachD(3) [OF v] seg unat_ro_size [OF seg, of "next_map w"]
    by (simp add: describes_def valid_segment_def) (simp add: ro_view_def)
  note fr = free_spec [OF reachD(1) [OF v] this]
  have unmap: "((maps w)(next_map w \<mapsto> ro_mapping i nd))(next_map w := None) = maps w"
    using os_ok_fresh_map [OF ok] by (auto simp: fun_upd_idem)
  show ?thesis
    by (rule wp_mono [OF fr])
      (use reach_trans [OF v] reachD(3,4,11) [OF v] unmap in
        \<open>fastforce simp: ro_view_def kept_def\<close>)
qed

lemma cleanup_segment_spec:
  assumes ok: "os_ok w"
  shows "wp (may_stop w) (cleanup_segment ident seg0) (\<lambda>_ w'. \<exists>M D. reach M D w w' \<and> kept w M \<and>
     (D = dir w \<or> stale w ident \<and> D = drop_name (seg_file ident) (dir w)) \<and>
     (\<not> faulty w \<longrightarrow> stale w ident \<longrightarrow> D = drop_name (seg_file ident) (dir w))) w"
    (is "wp _ _ (\<lambda>_. ?post) w")
  unfolding cleanup_segment_def
proof (rule wp_bindI2 [OF attach_spec [OF ok]], elim disjE conjE exE, goal_cases)
  case (1 r m v)
  then show ?case by (auto simp: wp_rules kept_def)
next
  case (2 r m v)
  then have "\<not> stale w ident" by (auto simp: stale_def)
  with 2 show ?case by (auto simp: wp_rules kept_def)
next
  case (3 r m v i nd)
  note seg = 3(2)
  let ?m = "ro_view ident (next_map w) nd"
  have stale: "stale w ident \<longleftrightarrow> inode_int nd (i_size nd - 8) = SHM_MARKER \<and>
      inode_int nd (i_size nd - 4) \<noteq> 0 \<and>
      procs (env w) (sint (inode_int nd (i_size nd - 4))) = Some ESRCH"
    using 3(2) by (auto simp: stale_def dest: valid_segment_unique)
  note d = reachD [OF 3(4)]
  have map: "maps v (next_map w) = Some (ro_mapping i nd)" "inodes v i = Some nd"
    using d 3(2) by (auto simp: valid_segment_def)
  have sz: "8 \<le> i_size nd" by (rule valid_segment_size [OF 3(2)])
  have loads: "load_int (marker_ptr ?m) v = Ok (inode_int nd (i_size nd - 8)) v"
    "load_int (pid_ptr ?m) v = Ok (inode_int nd (i_size nd - 4)) v"
    unfolding ro_view_ptrs [OF 3(2)] by (rule load_mapped [OF map], use sz in simp)+
  let ?attached = "reach ((maps w)(next_map w \<mapsto> ro_mapping i nd)) (dir w) w"
  let ?free = "av_shm_free (Some ?m)"
  have give_up: "wp (may_stop w) (pthen ?free (pret ())) (\<lambda>_. ?post) u"
    if "?attached u" "\<not> stale w ident" for u
    by (rule wp_bindI [OF wp_mono_stop [OF free_ro_spec [OF ok 3(2) that(1)]]])
      (use that(2) in \<open>auto simp: wp_rules\<close>)
  have killed: "?attached u \<and> (k = 0 \<and> procs (env w) (sint pid) = None \<or>
      k = -1 \<and> procs (env w) (sint pid) = Some (errno u))" if "sys_kill0 pid v = (k, u)" for pid k u
    using sys_kill0_io [OF that] reach_trans [OF 3(4) reach_io [OF d(1)]] d(2-4) by auto
  note attached = 3(4)
  show ?case unfolding 3(1,3) prod.case
  proof (intro wp_loadI [OF loads(1)] wp_loadI [OF loads(2)] wp_intro, goal_cases)
    case 2
    then show ?case using unat_ro_size [OF seg, of "next_map w"] sz
      by (simp add: word_less_nat_alt shm_consts)
  next
    case (6 k u)
    with killed [OF 6(5)] stale have "stale w ident" by auto
    show ?case
    proof (rule wp_bindI [OF wp_mono_stop [OF free_ro_spec [OF ok seg
          killed [OF 6(5), THEN conjunct1]]]], simp, elim exE conjE, intro wp_intro, goal_cases)
      case (1 _ u' M r z)
      from reach_unlink_after [OF 1(1,3)] 1(2) \<open>stale w ident\<close> show ?case
        by (fastforce simp: wp_av_log intro: reach_log)
    next
      case (2 _ u' M r z)
      from reach_unlink_after [OF 2(1,3)] 2(2) \<open>stale w ident\<close> show ?case by auto
    qed
  next
    case 3
    then show ?case by (intro give_up [OF attached]) (simp add: stale)
  next
    case 4
    then show ?case by (intro give_up [OF attached]) (simp add: stale)
  next
    case (5 k u)
    with killed [OF 5(5)] have "\<not> stale w ident" by (auto simp: stale)
    with killed [OF 5(5)] show ?case by (intro give_up) blast
  qed simp
qed

text \<open>
  What a part of the cleanup may do to the names: those it removes are names of stale segments,
  and without faults it removes those the names \<open>ns\<close> stand for.
\<close>

definition stale_names :: "os \<Rightarrow> string set" where
  "stale_names w = seg_file ` {ident. stale w ident}"

definition cleaned :: "string list \<Rightarrow> os \<Rightarrow> os \<Rightarrow> bool" where
  "cleaned ns w w' \<longleftrightarrow> (\<exists>M R. reach M (filter (\<lambda>e. fst e \<notin> R) (dir w)) w w' \<and> kept w M \<and>
     R \<subseteq> stale_names w \<and> (\<not> faulty w \<longrightarrow> set ns \<inter> stale_names w \<subseteq> R))"

lemma map_of_filter_names: "map_of (filter (\<lambda>e. fst e \<notin> R) D) n = (if n \<in> R then None else map_of D n)"
  by (induction D) auto

lemma stale_after:
  assumes "reach M (filter (\<lambda>e. fst e \<notin> R) (dir w)) w v"
  shows "stale v ident \<longleftrightarrow> stale w ident \<and> seg_file ident \<notin> R"
proof -
  note d = reachD [OF assms]
  have "valid_segment v ident i nd \<longleftrightarrow> valid_segment w ident i nd \<and> seg_file ident \<notin> R" for i nd
    using d by (auto simp: valid_segment_def map_of_filter_names)
  then show ?thesis using d by (auto simp: stale_def)
qed

lemma stale_names_after:
  assumes "reach M (filter (\<lambda>e. fst e \<notin> R) (dir w)) w v"
  shows "stale_names v = stale_names w - R"
  unfolding stale_names_def using stale_after [OF assms] by auto

lemma cleaned_refl: "os_ok w \<Longrightarrow> set ns \<inter> stale_names w = {} \<Longrightarrow> cleaned ns w w"
  unfolding cleaned_def
  by (intro exI [of _ "maps w"] exI [of _ "{}"]) (auto simp: reach_refl kept_def)

lemma cleaned_trans:
  assumes a: "cleaned ns w v" and b: "cleaned ms v w'"
  shows "cleaned (ns @ ms) w w'"
proof -
  from a obtain M R where M: "reach M (filter (\<lambda>e. fst e \<notin> R) (dir w)) w v" "kept w M"
    "R \<subseteq> stale_names w" "\<not> faulty w \<longrightarrow> set ns \<inter> stale_names w \<subseteq> R" by (auto simp: cleaned_def)
  from b obtain N S where N: "reach N (filter (\<lambda>e. fst e \<notin> S) (dir v)) v w'" "kept v N"
    "S \<subseteq> stale_names v" "\<not> faulty v \<longrightarrow> set ms \<inter> stale_names v \<subseteq> S" by (auto simp: cleaned_def)
  note d = reachD [OF M(1)]
  have "filter (\<lambda>e. fst e \<notin> S) (dir v) = filter (\<lambda>e. fst e \<notin> R \<union> S) (dir w)"
    by (simp add: d(4) conj_commute)
  with N(1) have "reach N (filter (\<lambda>e. fst e \<notin> R \<union> S) (dir w)) w w'"
    by (metis reach_trans [OF M(1)])
  moreover have "kept w N" using M(2) N(2) d by (auto simp: kept_def)
  ultimately show ?thesis unfolding cleaned_def
    using M(3,4) N(3,4) d(11) stale_names_after [OF M(1)]
    by (intro exI [of _ N] exI [of _ "R \<union> S"]) auto
qed

lemma cleaned_mono: "cleaned ns w w' \<Longrightarrow> set ms \<inter> stale_names w \<subseteq> set ns \<or> faulty w \<Longrightarrow> cleaned ms w w'"
  unfolding cleaned_def by blast

lemma cleaned_os_ok: "cleaned ns w w' \<Longrightarrow> os_ok w'" "cleaned ns w w' \<Longrightarrow> env w' = env w"
  by (auto simp: cleaned_def dest: reachD)

lemma cleaned_io:
  assumes "os_ok w" and "io_to (fds w) w v" and "set ns \<inter> stale_names w = {} \<or> faulty w"
  shows "cleaned ns w v"
  unfolding cleaned_def
  by (intro exI [of _ "maps w"] exI [of _ "{}"])
    (use reach_io [OF assms(1,2)] assms(3) in \<open>auto simp: kept_def\<close>)

lemma cleanup_entry_spec:
  assumes ok: "os_ok w"
  shows "wp (may_stop w) (cleanup_entry n seg0) (\<lambda>_. cleaned [n] w) w"
proof (cases "take (length SHM_NAME_PREFIX) n = SHM_NAME_PREFIX")
  case False
  then have "n \<notin> stale_names w" by (auto simp: stale_names_def seg_file_def)
  with False show ?thesis by (simp add: cleanup_entry_def wp_rules cleaned_refl [OF ok])
next
  case True
  then have n: "n = SHM_NAME_PREFIX @ drop (length SHM_NAME_PREFIX) n"
    by (metis append_take_drop_id)
  show ?thesis
  proof (cases "atou_spec (drop (length SHM_NAME_PREFIX) n)")
    case (Inl e)
    then have "n \<notin> stale_names w" by (auto simp: stale_names_def seg_file_def atou_spec_fmt_u)
    moreover have "io_to (fds w) w (w\<lparr>errno := e\<rparr>)" by (simp add: io_to_def)
    ultimately show ?thesis using True Inl
      by (simp add: cleanup_entry_def wp_rules cleaned_io [OF ok])
  next
    case (Inr u)
    have io: "io_to (fds w) w (w\<lparr>errno := EOK\<rparr>)" by (simp add: io_to_def)
    note r = reach_io [OF ok io]
    have stale: "stale (w\<lparr>errno := EOK\<rparr>) i = stale w i" for i
      using stale_after [of "maps w" "{}" w "w\<lparr>errno := EOK\<rparr>" i] r by simp
    have seg: "n \<in> stale_names w \<Longrightarrow> n = seg_file u \<and> stale w u"
      using Inr by (auto simp: stale_names_def seg_file_def atou_spec_fmt_u)
    have "wp (may_stop w) (cleanup_segment u seg0) (\<lambda>_. cleaned [n] w) (w\<lparr>errno := EOK\<rparr>)"
    proof (rule wp_mono [OF cleanup_segment_spec [OF reachD(1) [OF r], of u seg0, unfolded
            may_stop_cong [OF reachD(2) [OF r]]]], elim exE conjE)
      fix w' M D
      assume M: "reach M D (w\<lparr>errno := EOK\<rparr>) w'" "kept (w\<lparr>errno := EOK\<rparr>) M"
        "D = dir (w\<lparr>errno := EOK\<rparr>) \<or>
          stale (w\<lparr>errno := EOK\<rparr>) u \<and> D = drop_name (seg_file u) (dir (w\<lparr>errno := EOK\<rparr>))"
        "\<not> faulty (w\<lparr>errno := EOK\<rparr>) \<longrightarrow> stale (w\<lparr>errno := EOK\<rparr>) u \<longrightarrow>
          D = drop_name (seg_file u) (dir (w\<lparr>errno := EOK\<rparr>))"
      have w': "reach M D w w'" using reach_trans [OF r M(1)] .
      have k: "kept w M" using M(2) reachD(11) [OF r] by (simp add: kept_def)
      show "cleaned [n] w w'"
      proof (cases "D = drop_name (seg_file u) (dir w) \<and> stale w u")
        case True
        then show ?thesis unfolding cleaned_def
          using w' k seg by (intro exI [of _ M] exI [of _ "{seg_file u}"])
            (auto simp: drop_name_def stale_names_def)
      next
        case False
        then have "D = dir w" "\<not> faulty w \<longrightarrow> \<not> stale w u"
          using M(3,4) stale reachD(11) [OF r] by auto
        then show ?thesis unfolding cleaned_def
          using w' k seg by (intro exI [of _ M] exI [of _ "{}"]) auto
      qed
    qed
    with True Inr show ?thesis by (simp add: cleanup_entry_def wp_rules)
  qed
qed

lemma cleanup_loop_spec:
  "os_ok w \<Longrightarrow> wp (may_stop w) (cleanup_loop ns seg0) (\<lambda>_. cleaned ns w) w"
proof (induction ns arbitrary: w)
  case Nil
  then show ?case unfolding cleanup_loop.simps
    by (intro wp_intro) (auto intro!: cleaned_io sys_dir_io(2) [THEN conjunct1])
next
  case (Cons n ns)
  show ?case unfolding cleanup_loop.simps
  proof (intro wp_intro, goal_cases)
    case (1 de v)
    from sys_dir_io(2) [OF 1] have io: "io_to (fds w) w v" and
      de: "de = Some n \<or> de = None \<and> faulty w" by auto
    have c: "cleaned [] w v" by (rule cleaned_io [OF Cons.prems io]) simp
    note env = may_stop_cong [OF cleaned_os_ok(2)]
    from de show ?case
    proof (elim disjE conjE)
      assume "de = None" "faulty w"
      then show ?case using cleaned_mono [OF c, of "n # ns"] by (simp add: wp_rules)
    next
      assume de: "de = Some n"
      show ?case unfolding de option.case
      proof (rule wp_bindI [OF cleanup_entry_spec [OF cleaned_os_ok(1) [OF c], of n seg0,
              unfolded env [OF c]]])
        fix x :: unit and u
        assume "cleaned [n] v u"
        then have u: "cleaned [n] w u" using cleaned_trans [OF c] by simp
        show "wp (may_stop w) (cleanup_loop ns seg0) (\<lambda>_. cleaned (n # ns) w) u"
          by (rule wp_mono [OF Cons.IH [OF cleaned_os_ok(1) [OF u], unfolded env [OF u]]])
            (use cleaned_trans [OF u] in simp)
      qed
    qed
  qed
qed

text \<open>
  All of \<open>av_shm_cleanup\<close>: what it removes was stale, without faults it removes every stale
  segment, and it gives up only when the directory cannot be read.
\<close>

lemma cleanup_spec:
  assumes "os_ok w"
  shows "wp (may_stop w) (av_shm_cleanup seg0) (\<lambda>r w'. cleaned (map fst (dir w)) w w' \<and>
     (r = 0 \<or> r = -1 \<and> faulty w)) w"
  unfolding av_shm_cleanup_def
proof (intro wp_intro, goal_cases)
  case (1 ds v)
  from sys_dir_io(1) [OF 1] have io: "io_to (fds w) w v" and
    ds: "ds = Some (map fst (dir w)) \<or> ds = None \<and> faulty w" by auto
  have c: "cleaned [] w v" by (rule cleaned_io [OF assms io]) simp
  from ds show ?case
  proof (elim disjE conjE)
    assume ds: "ds = None" "faulty w"
    have "cleaned (map fst (dir w)) w (v\<lparr>logs := l\<rparr>)" for l
      unfolding cleaned_def
      by (intro exI [of _ "maps w"] exI [of _ "{}"])
        (use reach_log [OF reach_io [OF assms io]] ds(2) in \<open>auto simp: kept_def\<close>)
    then show ?case using ds by (simp add: wp_rules)
  next
    assume ds: "ds = Some (map fst (dir w))"
    show ?case unfolding ds option.case
    proof (rule wp_bindI [OF cleanup_loop_spec [OF cleaned_os_ok(1) [OF c],
            unfolded may_stop_cong [OF cleaned_os_ok(2) [OF c]]]], intro wp_intro, goal_cases)
      case (1 x u r u')
      have u: "cleaned (map fst (dir w)) w u" using cleaned_trans [OF c 1(1)] by simp
      have "cleaned [] u u'"
        by (rule cleaned_io [OF cleaned_os_ok(1) [OF u] sys_dir_io(3) [OF 1(2)]]) simp
      with cleaned_trans [OF u, of "[]"] show ?case by simp
    qed
  qed
qed

end
