(* ===== verification/Shm_Create.thy ===== *)
theory Shm_Create
  imports Shm_Cleanup
begin

text \<open>What \<open>av_shm_create_rw\<close> of src/shm.c does, on both of its branches.\<close>

section \<open>What creating does\<close>

text \<open>
  The state with one more file: inode \<open>next_ino w\<close> is \<open>nd\<close>, under the name \<open>n\<close>. It is the state
  that \<open>opened\<close>, \<open>sh_to\<close> and \<open>reach\<close> start from after \<open>shm_open\<close> has created the file.
\<close>

definition new_file :: "string \<Rightarrow> inode \<Rightarrow> os \<Rightarrow> os" where
  "new_file n nd w = w\<lparr>inodes := (inodes w)(next_ino w \<mapsto> nd), next_ino := Suc (next_ino w),
     dir := dir w @ [(n, next_ino w)]\<rparr>"

lemma new_file_simps [simp]:
  "env (new_file n nd w) = env w" "fds (new_file n nd w) = fds w"
  "next_fd (new_file n nd w) = next_fd w" "maps (new_file n nd w) = maps w"
  "next_map (new_file n nd w) = next_map w" "rand_state (new_file n nd w) = rand_state w"
  "has_whined (new_file n nd w) = has_whined w" "errno (new_file n nd w) = errno w"
  "clock (new_file n nd w) = clock w" "logs (new_file n nd w) = logs w"
  "inodes (new_file n nd w) = (inodes w)(next_ino w \<mapsto> nd)"
  "next_ino (new_file n nd w) = Suc (next_ino w)"
  "dir (new_file n nd w) = dir w @ [(n, next_ino w)]"
  by (simp_all add: new_file_def)

lemma faulty_new_file [simp]: "faulty (new_file n nd w) = faulty w"
  by (rule faulty_cong) simp

lemma may_stop_new_file [simp]: "may_stop (new_file n nd w) = may_stop w"
  by (rule may_stop_cong) simp

lemma os_ok_new_file:
  assumes ok: "os_ok w" and new: "map_of (dir w) n = None"
  shows "os_ok (new_file n nd w)"
proof -
  have "fds_ok (new_file n nd w)" "mem_ok (new_file n nd w)" "devs_ok (new_file n nd w)"
    using ok by (auto simp: os_ok_def fds_ok_def mem_ok_def devs_ok_def less_Suc_eq)
  moreover have "dir_ok (new_file n nd w)"
    using ok new by (auto simp: os_ok_def dir_ok_def map_of_eq_None_iff)
  ultimately show ?thesis by (simp add: os_ok_def)
qed

lemma open_excl:
  assumes ok: "os_ok w" and op: "sys_shm_open_excl fn mode w = (fd, v)"
  shows "fd = -1 \<and> io_to (fds w) w v \<and> (faulty w \<or> map_of (dir w) (shm_file fn) \<noteq> None) \<or>
    map_of (dir w) (shm_file fn) = None \<and> 0 \<le> fd \<and>
    opened fd (shm_fobj (next_ino w) True)
      (new_file (shm_file fn) \<lparr>i_size = 0, i_data = (\<lambda>_. 0), i_mode = mode\<rparr> w) v"
proof -
  note fr = os_ok_fresh_fd [OF ok]
  show ?thesis
    using op fr
    by (auto simp: sys_shm_open_excl_def syscall_def act_defs io_to_def opened_def sh_to_def
        new_file_def split: option.splits intro: faultyI)
qed

lemma new_file_other:
  assumes "sh_to F M D (new_file n nd w) v"
    and "v' = v\<lparr>inodes := (inodes v)(next_ino w \<mapsto> nd')\<rparr>"
  shows "sh_to F M D (new_file n nd' w) v'"
proof -
  note d = sh_toD [OF assms(1)]
  show ?thesis by (rule sh_toI) (use d assms(2) in simp_all)
qed

lemma opened_other:
  assumes "opened fd f (new_file n nd w) v"
    and "v' = v\<lparr>inodes := (inodes v)(next_ino w \<mapsto> nd')\<rparr>"
  shows "opened fd f (new_file n nd' w) v'"
  using assms(1) new_file_other [OF openedD(1) [OF assms(1)] assms(2)]
  by (auto simp: opened_def assms(2))

lemma ftruncate_opened:
  assumes o: "opened fd (shm_fobj (next_ino w) True) (new_file n nd w) v"
    and tr: "sys_ftruncate fd len v = (r, v')"
  shows "r < 0 \<and> faulty w \<and> opened fd (shm_fobj (next_ino w) True) (new_file n nd w) v' \<or>
    r = 0 \<and> opened fd (shm_fobj (next_ino w) True) (new_file n (nd\<lparr>i_size := unat len,
       i_data := (\<lambda>k. if k < i_size nd \<and> k < unat len then i_data nd k else 0)\<rparr>) w) v'"
proof -
  note od = openedD [OF o]
  have ino: "inodes v (next_ino w) = Some nd" using sh_toD(5) [OF od(1)] by simp
  show ?thesis
  proof (cases "fault (env v) (clock v)")
    case (Some e)
    with tr have v': "r = -1" "v' = v\<lparr>clock := Suc (clock v), errno := e\<rparr>"
      by (auto simp: sys_ftruncate_def syscall_def Let_def)
    have "faulty w" using faultyI [OF Some] od(6) by simp
    then show ?thesis using v' opened_io [OF o, of v'] by (simp add: io_to_def)
  next
    case None
    let ?c = "v\<lparr>clock := Suc (clock v)\<rparr>"
    have c: "opened fd (shm_fobj (next_ino w) True) (new_file n nd w) ?c"
      by (rule opened_io [OF o]) (simp add: io_to_def)
    from None tr od(2) ino have "r = 0" "v' = ?c\<lparr>inodes := (inodes ?c)(next_ino w \<mapsto>
        nd\<lparr>i_size := unat len,
          i_data := (\<lambda>k. if k < i_size nd \<and> k < unat len then i_data nd k else 0)\<rparr>)\<rparr>"
      by (auto simp: sys_ftruncate_def syscall_def Let_def)
    then show ?thesis using opened_other [OF c] by simp
  qed
qed

lemma inode_int_put_same [simp]: "inode_int (inode_put_int nd off v) off = v"
  by (simp add: inode_int_def inode_put_int_def int_of_bytes_of_int)

lemma inode_int_put_other:
  "off + 4 \<le> off' \<or> off' + 4 \<le> off \<Longrightarrow>
   inode_int (inode_put_int nd off v) off' = inode_int nd off'"
  by (auto simp: inode_int_def inode_put_int_def)

lemma inode_put_int_simps [simp]:
  "i_size (inode_put_int nd off v) = i_size nd" "i_mode (inode_put_int nd off v) = i_mode nd"
  by (simp_all add: inode_put_int_def)

lemma store_mapped:
  assumes "sh_to F M D (new_file n nd w) v"
    and "M b = Some \<lparr>m_ino = next_ino w, m_lo = 0, m_len = page_up (i_size nd), m_write = True\<rparr>"
    and "off + 4 \<le> i_size nd"
  shows "\<exists>v'. store_int (Ptr b off) x v = Ok () v' \<and>
    sh_to F M D (new_file n (inode_put_int nd off x) w) v' \<and> next_fd v' = next_fd v \<and>
    next_map v' = next_map v"
proof -
  have "access (Ptr b off) True v = Some (next_ino w, nd, off)"
    using sh_toD(3,5) [OF assms(1)] assms(2,3) page_up_ge [of "i_size nd"]
    by (simp add: access_def)
  then have "store_int (Ptr b off) x v =
      Ok () (v\<lparr>inodes := (inodes v)(next_ino w \<mapsto> inode_put_int nd off x)\<rparr>)"
    by (simp add: store_int_def)
  then show ?thesis using new_file_other [OF assms(1) refl, of "inode_put_int nd off x"] by auto
qed

lemma wp_storeI: "store_int p x s = Ok () s' \<Longrightarrow> wp E k Q s' \<Longrightarrow> wp E (pthen (store_int p x) k) Q s"
  by (simp add: wp_def pbind_def)

text \<open>The way out after a failure: the new name is taken back, the descriptor closed.\<close>

lemma create_fail_wp:
  assumes ok: "os_ok w" and new: "map_of (dir w) n = None" and fn: "shm_file fn = n"
    and o: "opened fd f (new_file n nd w) v"
    and Q: "\<And>w' D. reach (maps w) D (new_file n nd w) w' \<Longrightarrow>
       D = dir w \<or> faulty w \<and> D = dir w @ [(n, next_ino w)] \<Longrightarrow> Q (-1, m) w'"
  shows "wp (may_stop w) (create_fail fd fn m) Q v"
proof -
  note ok' = os_ok_new_file [OF ok new, of nd]
  note od = openedD [OF o]
  have dropped: "filter (\<lambda>e. fst e \<noteq> n) (dir w @ [(n, next_ino w)]) = dir w"
    using drop_name_absent [OF new] by (simp add: drop_name_def)
  have shut: "wp (may_stop w) (av_close fd) (\<lambda>_ w'. Q (-1, m) w') u"
    if u: "sh_to ((fds w)(fd \<mapsto> f)) (maps w) D (new_file n nd w) u" "fd < int (next_fd u)"
      and D: "D = dir w \<or> faulty w \<and> D = dir w @ [(n, next_ino w)]" for u D
  proof -
    have "distinct (map fst D)" "set D \<subseteq> set (dir (new_file n nd w))"
      using D os_ok_distinct [OF ok'] by auto
    from close_back [where M = "maps w", OF ok' _ od(4,3) u(2) od(8) _ this] u(1)
    have "wp (may_stop w) (av_close fd) (\<lambda>r w'. reach (maps w) D (new_file n nd w) w' \<and>
        (r = 0 \<longrightarrow> fds w' = fds (new_file n nd w)) \<and> (r = 0 \<or> faulty (new_file n nd w))) u"
      by simp
    then show ?thesis by (rule wp_mono) (use Q D in blast)
  qed
  show ?thesis unfolding create_fail_def
  proof (intro wp_intro, goal_cases)
    case (1 r u)
    from sys_shm_unlink_sh [OF 1(2)] consider
        (kept) "io_to (fds v) v u" "faulty v \<or> map_of (dir v) n = None"
      | (gone) "sh_to (fds v) (maps v) (filter (\<lambda>e. fst e \<noteq> n) (dir v)) v u"
      unfolding fn by auto
    then have "wp (may_stop w) (av_close fd) (\<lambda>_ w'. Q (-1, m) w') u"
    proof cases
      case kept
      have "map_of (dir v) n \<noteq> None" using sh_toD(4) [OF od(1)] new by (simp add: map_add_def)
      with kept(2) od(6) have "faulty w" by simp
      with openedD(1,5) [OF opened_io [OF o kept(1)]] show ?thesis
        by (intro shut [where D = "dir w @ [(n, next_ino w)]"]) simp_all
    next
      case gone
      have "sh_to ((fds w)(fd \<mapsto> f)) (maps w) (dir w) (new_file n nd w) u"
        using sh_to_trans [OF od(1) gone] sh_toD(2-4) [OF od(1)] dropped by simp
      moreover have "fd < int (next_fd u)" using od(5) sh_toD(9) [OF gone] by simp
      ultimately show ?thesis by (intro shut [where D = "dir w"]) simp_all
    qed
    then show ?case by (simp add: wp_rules)
  qed (use od(3) in simp)
qed

text \<open>
  What holds of the kernel's tables after \<open>create_shared\<close>, whichever way it ended; and the segment
  that is there after success: a new file under the identifier's name, of the size asked for and
  the marker, that carries this process's identifier and is mapped for writing.
\<close>

definition create_frame :: "os \<Rightarrow> os \<Rightarrow> bool" where
  "create_frame w w' \<longleftrightarrow> os_ok w' \<and> env w' = env w \<and> has_whined w' = has_whined w \<and>
     (close_err_releases (env w) \<longrightarrow> fds w' = fds w) \<and>
     (\<forall>i. i \<noteq> next_ino w \<longrightarrow> inodes w' i = inodes w i)"

definition created :: "u64 \<Rightarrow> u32 \<Rightarrow> av_shm \<Rightarrow> os \<Rightarrow> os \<Rightarrow> bool" where
  "created sz mode m w w' \<longleftrightarrow>
     map_of (dir w) (seg_file (shm_id m)) = None \<and>
     dir w' = dir w @ [(seg_file (shm_id m), next_ino w)] \<and>
     shm_ptr m = Ptr (next_map w) 0 \<and> unat (shm_size m) = unat sz + 8 \<and>
     maps w' = (maps w)(next_map w \<mapsto> \<lparr>m_ino = next_ino w, m_lo = 0,
        m_len = page_up (unat sz + 8), m_write = True\<rparr>) \<and>
     (\<exists>nd. inodes w' (next_ino w) = Some nd \<and> i_size nd = unat sz + 8 \<and>
        i_mode nd = mode AND 0x124 \<and>
        inode_int nd (unat sz) = SHM_MARKER \<and> inode_int nd (unat sz + 4) = self_pid (env w))"

definition not_created :: "os \<Rightarrow> os \<Rightarrow> bool" where
  "not_created w w' \<longleftrightarrow> maps w' = maps w \<and>
     (dir w' = dir w \<and> (faulty w \<or> (\<exists>ident. map_of (dir w) (seg_file ident) \<noteq> None)) \<or>
      faulty w \<and> (\<exists>ident. dir w' = dir w @ [(seg_file ident, next_ino w)]))"

lemma create_frame_new:
  assumes "reach M D (new_file n nd w) w'"
  shows "create_frame w w'"
  using reachD [OF assms] by (auto simp: create_frame_def)

lemma create_frame_old: "reach M D w w' \<Longrightarrow> create_frame w w'"
  by (auto simp: create_frame_def dest: reachD)

lemma create_segment_spec:
  assumes ok: "os_ok w" and sz: "0 < unat sz" "unat sz \<le> 0x4000000"
  shows "wp (may_stop w) (create_segment m1 sz mode) (\<lambda>(r, m) w'. create_frame w w' \<and>
     (r = 0 \<and> created sz mode m w w' \<and> do_unlink m = -1 \<and> shm_id m = shm_id m1 \<or>
      r = -1 \<and> not_created w w')) w"
  (is "wp _ _ ?Q w")
proof -
  let ?n = "seg_file (shm_id m1)" and ?i = "next_ino w" and ?b = "next_map w"
  let ?nd0 = "\<lparr>i_size = 0, i_data = (\<lambda>_. 0), i_mode = mode AND 0x124\<rparr>"
  let ?nd1 = "?nd0\<lparr>i_size := unat (sz + SHM_MARKER_SIZE),
    i_data := (\<lambda>k. if k < i_size ?nd0 \<and> k < unat (sz + SHM_MARKER_SIZE) then i_data ?nd0 k else 0)\<rparr>"
  have len: "unat (sz + SHM_MARKER_SIZE) = unat sz + 8"
    using sz by (simp add: shm_consts unat_plus_simple [THEN iffD1] unat_word_ariths)
  have off: "sz + SHM_MARKER_SIZE - SHM_MARKER_SIZE = sz" by simp
  have ofn: "sz + SHM_MARKER_SIZE = of_nat (unat sz + 8)" by (simp add: shm_consts)
  let ?M = "(maps w)(?b \<mapsto> \<lparr>m_ino = ?i, m_lo = 0, m_len = page_up (unat sz + 8), m_write = True\<rparr>)"
  have fail: "wp (may_stop w) (create_fail fd (segment_name 32 (shm_id m1)) m) ?Q v"
    if "map_of (dir w) ?n = None" "opened fd (shm_fobj ?i True) (new_file ?n nd w) v" "faulty w"
    for fd m nd v
    by (rule create_fail_wp [OF ok that(1) _ that(2)])
      (use that(3) in \<open>auto simp: not_created_def dest: create_frame_new reachD(3,4)\<close>)
  have excl: "map_of (dir w) ?n = None \<and> opened fd (shm_fobj ?i True) (new_file ?n ?nd0 w) v"
    if "sys_shm_open_excl (segment_name 32 (shm_id m1)) (mode AND 0x124) w = (fd, v)" "\<not> fd < 0"
    for fd v using open_excl [OF ok that(1)] that(2) by auto
  have trunc: "map_of (dir w) ?n = None \<and> opened fd (shm_fobj ?i True) (new_file ?n ?nd1 w) u"
    if "sys_shm_open_excl (segment_name 32 (shm_id m1)) (mode AND 0x124) w = (fd, v)" "\<not> fd < 0"
      "sys_ftruncate fd (shm_size (m1\<lparr>shm_size := sz + SHM_MARKER_SIZE\<rparr>)) v = (r, u)" "\<not> r < 0"
    for fd v r u
    using excl [OF that(1,2)] ftruncate_opened [of fd w ?n ?nd0 v _ r u] that(3,4) by auto
  have mmap: "fd < int (next_fd u) \<and> p = MapFailed \<and> faulty w \<and>
        opened fd (shm_fobj ?i True) (new_file ?n ?nd1 w) u \<or>
      fd < int (next_fd u) \<and> p = Ptr ?b 0 \<and> ?b < next_map u \<and>
      sh_to ((fds w)(fd \<mapsto> shm_fobj ?i True)) ?M (dir (new_file ?n ?nd1 w)) (new_file ?n ?nd1 w) u"
    if "opened fd (shm_fobj ?i True) (new_file ?n ?nd1 w) v"
      "sys_mmap (av_page_align (shm_size (m1\<lparr>shm_size := sz + SHM_MARKER_SIZE\<rparr>))) True fd v = (p, u)"
    for fd v p u
    using attach_mmap [OF that(1), of "unat sz + 8" True p u] that(2) sz
    by (auto simp: ofn openedD(5))
  show ?thesis unfolding create_segment_def Let_def
  proof (intro wp_intro, goal_cases)
    case (1 fd v)
    from open_excl [OF ok 1(1)] 1(2) have io: "io_to (fds w) w v"
      and no: "faulty w \<or> map_of (dir w) ?n \<noteq> None" by auto
    have "reach (maps w) (dir w) w (v\<lparr>logs := l\<rparr>)" for l by (rule reach_log [OF reach_io [OF ok io]])
    then show ?case using 1(2) no io_toD(4,7) [OF io]
      by (auto simp: create_fail_def wp_rules not_created_def dest: create_frame_old reachD(3,4))
  next
    case (2 fd v r u)
    from excl [OF 2(1,2)] ftruncate_opened [of fd w ?n ?nd0 v _ r u] 2(3,4)
    have "map_of (dir w) ?n = None" "faulty w"
      "opened fd (shm_fobj ?i True) (new_file ?n ?nd0 w) u" by auto
    then show ?case by (intro fail [OF _ opened_log]) 
  next
    case (3 fd v r u p z)
    from trunc [OF 3(1-4)] mmap [OF _ 3(5)] 3(6)
    have "map_of (dir w) ?n = None" "faulty w"
      "opened fd (shm_fobj ?i True) (new_file ?n ?nd1 w) z" by auto
    then show ?case by (intro fail [OF _ opened_log])
  next
    case (4 fd v r u p z)
    from trunc [OF 4(1-4)] mmap [OF _ 4(5)] 4(6)
    have new: "map_of (dir w) ?n = None" and p: "p = Ptr ?b 0" "?b < next_map z" "fd < int (next_fd z)"
      and z: "sh_to ((fds w)(fd \<mapsto> shm_fobj ?i True)) ?M (dir (new_file ?n ?nd1 w))
        (new_file ?n ?nd1 w) z"
      and o: "opened fd (shm_fobj ?i True) (new_file ?n ?nd1 w) u" by auto
    let ?m = "m1\<lparr>shm_size := sz + SHM_MARKER_SIZE, shm_ptr := p\<rparr>"
    have ptrs: "marker_ptr ?m = Ptr ?b (unat sz)" "pid_ptr ?m = Ptr ?b (unat sz + 4)"
      by (simp_all add: marker_ptr_def pid_ptr_def p(1) off)
    have size1: "i_size ?nd1 = unat sz + 8" by (simp add: len)
    let ?nd2 = "inode_put_int ?nd1 (unat sz + 4) (self_pid (env z))"
    let ?nd3 = "inode_put_int ?nd2 (unat sz) SHM_MARKER"
    have M: "?M ?b = Some \<lparr>m_ino = ?i, m_lo = 0, m_len = page_up (i_size ?nd1), m_write = True\<rparr>"
      "?M ?b = Some \<lparr>m_ino = ?i, m_lo = 0, m_len = page_up (i_size ?nd2), m_write = True\<rparr>"
      by (simp_all only: inode_put_int_simps size1 fun_upd_same)
    have bounds: "unat sz + 4 + 4 \<le> i_size ?nd1" "unat sz + 4 \<le> i_size ?nd2"
      by (simp_all only: inode_put_int_simps size1)
    from store_mapped [OF z M(1) bounds(1), of "self_pid (env z)"] obtain z2
      where st2: "store_int (Ptr ?b (unat sz + 4)) (self_pid (env z)) z = Ok () z2"
        "sh_to ((fds w)(fd \<mapsto> shm_fobj ?i True)) ?M (dir (new_file ?n ?nd1 w)) (new_file ?n ?nd2 w) z2"
        "next_fd z2 = next_fd z" "next_map z2 = next_map z" by blast
    from store_mapped [OF st2(2) M(2) bounds(2), of SHM_MARKER] obtain z3
      where st3: "store_int (Ptr ?b (unat sz)) SHM_MARKER z2 = Ok () z3"
        "sh_to ((fds w)(fd \<mapsto> shm_fobj ?i True)) ?M (dir (new_file ?n ?nd1 w)) (new_file ?n ?nd3 w) z3"
        "next_fd z3 = next_fd z" "next_map z3 = next_map z" unfolding st2(3,4) by blast
    note ok3 = os_ok_new_file [OF ok new, of ?nd3]
    have "wp (may_stop (new_file ?n ?nd3 w)) (av_close fd) (\<lambda>r w'.
        reach ?M (dir (new_file ?n ?nd1 w)) (new_file ?n ?nd3 w) w' \<and>
        (r = 0 \<longrightarrow> fds w' = fds (new_file ?n ?nd3 w)) \<and> (r = 0 \<or> faulty (new_file ?n ?nd3 w))) z3"
      by (rule close_back [OF ok3]) (use st3(2-4) openedD(3,4) [OF o] p os_ok_distinct [OF ok3]
          in \<open>auto split: if_splits\<close>)
    then have cl: "wp (may_stop w) (av_close fd) (\<lambda>r w'.
        reach ?M (dir (new_file ?n ?nd1 w)) (new_file ?n ?nd3 w) w' \<and> (r = 0 \<or> faulty w)) z3"
      by (auto elim: wp_mono)
    have nd3: "i_size ?nd3 = unat sz + 8" "i_mode ?nd3 = mode AND 0x124"
      "inode_int ?nd3 (unat sz) = SHM_MARKER" "inode_int ?nd3 (unat sz + 4) = self_pid (env w)"
      using sh_toD(1) [OF z] by (simp_all add: len inode_int_put_other)
    have finished: "create_frame w w' \<and> created sz mode (?m\<lparr>do_unlink := bit1 1\<rparr>) w w'"
      if "reach ?M (dir (new_file ?n ?nd1 w)) (new_file ?n ?nd3 w) w'" for w'
      unfolding created_def using new p(1) len nd3 reachD(3-5) [OF that] create_frame_new [OF that]
      by simp
    have cl': "wp (may_stop w) (av_close fd) (\<lambda>r w'. create_frame w w' \<and>
        created sz mode (?m\<lparr>do_unlink := bit1 1\<rparr>) w w' \<and> (r = 0 \<or> faulty w)) z3"
      by (rule wp_mono [OF cl]) (use finished in blast)
    show ?case unfolding ptrs
      by (rule wp_storeI [OF st2(1)], rule wp_storeI [OF st3(1)], rule wp_bindI [OF cl'])
        (auto simp: wp_rules bit1_def)
  qed
qed

subsection \<open>All of \<open>av_shm_create_rw\<close>\<close>

lemma create_shared_spec:
  assumes ok: "os_ok w" and hw: "has_whined w" and sz: "0 < unat sz" "unat sz \<le> 0x4000000"
  shows "wp (may_stop w) (create_shared m0 sz mode) (\<lambda>(r, m) w'. create_frame w w' \<and>
     (r = 0 \<and> created sz mode m w w' \<and> do_unlink m = -1 \<or> r = -1 \<and> not_created w w')) w"
proof -
  have ne: "bytes_of_int (shm_id m0) \<noteq> []" by (simp add: bytes_of_int_def)
  have rnd: "wp (may_stop w) (av_random (bytes_of_int (shm_id m0))) (\<lambda>_ v.
      \<exists>s. rand_frame (w\<lparr>rand_state := s\<rparr>) v) w"
    by (rule wp_may_stop [OF wp_mono [OF av_random_spec [OF ok ne hw]] av_random_total [OF ok ne]])
      auto
  show ?thesis unfolding create_shared_def
  proof (rule wp_bindI [OF rnd], elim exE)
    fix bs v s
    assume v: "rand_frame (w\<lparr>rand_state := s\<rparr>) v"
    note d = rand_frameD [OF v]
    have f: "faulty v = faulty w" by (rule faulty_cong) (use d in simp)
    have e: "may_stop v = may_stop w" by (rule may_stop_cong) (use d in simp)
    have fr: "create_frame w w'" if "create_frame v w'" for w'
      using that d by (simp add: create_frame_def)
    have cr: "created sz mode m w w'" if "created sz mode m v w'" for m w'
      using that d by (simp add: created_def)
    have nc: "not_created w w'" if "not_created v w'" for w'
      using that d f by (simp add: not_created_def)
    show "wp (may_stop w) (create_segment
        (m0\<lparr>shm_id := int_of_bytes (bs ! 0) (bs ! 1) (bs ! 2) (bs ! 3)\<rparr>) sz mode)
        (\<lambda>(r, m) w'. create_frame w w' \<and>
          (r = 0 \<and> created sz mode m w w' \<and> do_unlink m = -1 \<or> r = -1 \<and> not_created w w')) v"
      by (rule wp_mono [OF create_segment_spec [OF d(1) sz, unfolded e]])
        (use fr cr nc in auto)
  qed
qed

text \<open>The private branch: fresh zeroed memory, and no name.\<close>

definition created_private :: "u64 \<Rightarrow> av_shm \<Rightarrow> os \<Rightarrow> os \<Rightarrow> bool" where
  "created_private sz m w w' \<longleftrightarrow> dir w' = dir w \<and> shm_id m = 0 \<and> shm_size m = sz \<and>
     shm_ptr m = Ptr (next_map w) 0 \<and> do_unlink m = 0 \<and>
     maps w' = (maps w)(next_map w \<mapsto> \<lparr>m_ino = next_ino w, m_lo = 0,
        m_len = page_up (unat sz), m_write = True\<rparr>) \<and>
     inodes w' (next_ino w) =
       Some \<lparr>i_size = page_up (unat sz), i_data = (\<lambda>_. 0), i_mode = 0\<rparr>"

lemma create_private_spec:
  assumes ok: "os_ok w" and sz: "sz \<noteq> 0"
  shows "wp never (create_private m0 sz) (\<lambda>(r, m) w'. create_frame w w' \<and>
     (r = 0 \<and> created_private sz m w w' \<or>
      r = -1 \<and> faulty w \<and> maps w' = maps w \<and> dir w' = dir w)) w"
proof (cases "fault (env w) (clock w)")
  case (Some e)
  have "faulty w" using faultyI [OF Some] .
  moreover have "os_ok (w\<lparr>clock := c, errno := e, logs := l\<rparr>)" for c l
    using ok by (simp add: os_ok_defs)
  ultimately show ?thesis using Some
    by (simp add: create_private_def create_fail_def wp_rules sys_mmap_anon_def syscall_def Let_def
        create_frame_def)
next
  case None
  let ?w = "w\<lparr>clock := Suc (clock w), inodes := (inodes w)(next_ino w \<mapsto>
      \<lparr>i_size = page_up (unat sz), i_data = (\<lambda>_. 0), i_mode = 0\<rparr>), next_ino := Suc (next_ino w),
      maps := (maps w)(next_map w \<mapsto> \<lparr>m_ino = next_ino w, m_lo = 0, m_len = page_up (unat sz),
        m_write = True\<rparr>), next_map := Suc (next_map w)\<rparr>"
  have "fds_ok ?w" "mem_ok ?w" "dir_ok ?w" "devs_ok ?w"
    using ok by (auto simp: os_ok_def fds_ok_def mem_ok_def dir_ok_def devs_ok_def less_Suc_eq)
  then have "os_ok ?w" by (simp add: os_ok_def)
  with None sz show ?thesis
    by (simp add: create_private_def wp_rules sys_mmap_anon_def syscall_def Let_def
        create_frame_def created_private_def new_anon_map_def new_map_def bit1_def)
qed

end
