(* ===== verification/Shm_Props.thy ===== *)
theory Shm_Props
  imports Shm_Create Demo
begin

text \<open>
  The properties of src/shm.c. Each is stated for every behaviour of the system calls: \<open>may_stop\<close>
  says how the code may fail to return, and it never stops with an invalid memory access.
\<close>

lemma demo_not_faulty [simp]: "\<not> faulty demo_os"
  by (simp add: faulty_def)

lemma may_stop_quiet: "\<not> faulty w \<Longrightarrow> \<not> may_stop w e"
  using not_faulty_fair [of w] by (auto simp: may_stop_def)

lemma wp_quiet: "wp (may_stop w) m Q v \<Longrightarrow> \<not> faulty w \<Longrightarrow> wp never m Q v"
  by (erule wp_mono_stop) (simp add: may_stop_quiet)

lemma cleanedE:
  assumes "cleaned ns w w'"
  obtains R where "os_ok w'" "env w' = env w" "inodes w' = inodes w" "faulty w' = faulty w"
    "dir w' = filter (\<lambda>e. fst e \<notin> R) (dir w)" "kept w (maps w')"
    "close_err_releases (env w) \<longrightarrow> fds w' = fds w" "R \<subseteq> stale_names w"
    "\<not> faulty w \<longrightarrow> set ns \<inter> stale_names w \<subseteq> R"
proof -
  from assms obtain M R where M: "reach M (filter (\<lambda>e. fst e \<notin> R) (dir w)) w w'" "kept w M"
    "R \<subseteq> stale_names w" "\<not> faulty w \<longrightarrow> set ns \<inter> stale_names w \<subseteq> R"
    unfolding cleaned_def by blast
  note d = reachD [OF M(1)]
  show thesis by (rule that [of R]) (use d M(2-4) in simp_all)
qed

text \<open>Without faults exactly the stale segments go.\<close>

lemma cleaned_quiet:
  assumes "cleaned (map fst (dir w)) w w'" and "\<not> faulty w"
  shows "dir w' = filter (\<lambda>e. fst e \<notin> stale_names w) (dir w)" "maps w' = maps w"
    "\<not> stale w' i"
proof -
  from assms(1) obtain M R where M: "reach M (filter (\<lambda>e. fst e \<notin> R) (dir w)) w w'" "kept w M"
    "R \<subseteq> stale_names w" "set (map fst (dir w)) \<inter> stale_names w \<subseteq> R"
    using assms(2) unfolding cleaned_def by blast
  note d = reachD [OF M(1)]
  show "maps w' = maps w" using d(3) M(2) assms(2) by (simp add: kept_def)
  have "stale_names w \<subseteq> fst ` set (dir w)"
    by (auto simp: stale_names_def stale_def valid_segment_def image_iff dest!: map_of_SomeD)
      (metis fst_conv)
  with M(3,4) have R: "R = stale_names w" by auto
  then show "dir w' = filter (\<lambda>e. fst e \<notin> stale_names w) (dir w)" using d(4) by simp
  show "\<not> stale w' i" using stale_after [OF M(1), of i] R by (auto simp: stale_names_def)
qed

lemma page_size_bounds:
  assumes "0 < sz" and "sz \<le> MAX_SHM_SIZE"
  shows "0 < unat (av_page_align sz)" "unat (av_page_align sz) \<le> 0x4000000"
    "av_page_align sz \<noteq> 0" "4096 dvd unat (av_page_align sz)" "unat sz \<le> unat (av_page_align sz)"
proof -
  have sz: "0 < unat sz" "unat sz \<le> 0x4000000"
    using assms by (simp_all add: word_less_nat_alt word_le_nat_alt shm_consts)
  then have u: "unat (av_page_align sz) = round_up 4096 (unat sz)"
    by (intro unat_av_page_align) simp
  show ge: "unat sz \<le> unat (av_page_align sz)" unfolding u by (rule round_up_ge) simp
  then show "0 < unat (av_page_align sz)" using sz by simp
  then show "av_page_align sz \<noteq> 0" by auto
  show "unat (av_page_align sz) \<le> 0x4000000"
    unfolding u by (rule round_up_least) (use sz in simp_all)
  show "4096 dvd unat (av_page_align sz)" unfolding u by simp
qed

lemma create_rw_spec:
  assumes ok: "os_ok w" and hw: "has_whined w" and sz: "0 < sz" "sz \<le> MAX_SHM_SIZE"
    and mode: "0x180 \<le> mode"
  shows "wp (may_stop w) (av_shm_create_rw (Some mem) sz is_shared mode stack) (\<lambda>(r, m) w'.
     \<exists>w1. cleaned (map fst (dir w)) w w1 \<and> create_frame w1 w' \<and>
      (r = 0 \<and> shared m = bit1 is_shared \<and>
         (if is_shared = 0 then created_private (av_page_align sz) m w1 w'
          else created (av_page_align sz) mode m w1 w' \<and> do_unlink m = -1)
       \<or> r = -1 \<and> (if is_shared = 0 then faulty w \<and> maps w' = maps w1 \<and> dir w' = dir w1
                   else not_created w1 w'))) w"
  (is "wp _ _ (\<lambda>(r, m). ?Q r m) w")
proof -
  note b = page_size_bounds [OF sz]
  have tail: "wp (may_stop w) (pbind (if is_shared = 0 then create_private mem (av_page_align sz)
        else create_shared mem (av_page_align sz) mode) (\<lambda>(r, m').
     if r < 0 then pret (r, m') else pret (0, m'\<lparr>shared := bit1 is_shared\<rparr>)))
     (\<lambda>(r, m). ?Q r m) w1" if c: "cleaned (map fst (dir w)) w w1" for w1
  proof -
    note ok1 = cleaned_os_ok [OF c]
    have hw1: "has_whined w1" "faulty w1 = faulty w"
      using c hw by (auto simp: cleaned_def dest: reachD)
    have e: "may_stop w1 = may_stop w" by (rule may_stop_cong) (rule ok1(2))
    show ?thesis
    proof (rule wp_bind_ifI, goal_cases)
      case 1
      have "wp (may_stop w) (create_private mem (av_page_align sz)) (\<lambda>(r, m) w'. create_frame w1 w' \<and>
          (r = 0 \<and> created_private (av_page_align sz) m w1 w' \<or>
           r = -1 \<and> faulty w1 \<and> maps w' = maps w1 \<and> dir w' = dir w1)) w1"
        by (rule wp_mono_stop [OF create_private_spec [OF ok1(1) b(3)]]) simp
      then show ?case
        by (rule wp_bindI2)
          (use 1 c hw1 in \<open>auto simp: wp_rules created_private_def intro!: exI [of _ w1]\<close>)
    next
      case 2
      show ?case
        by (rule wp_bindI2 [OF create_shared_spec [OF ok1(1) hw1(1) b(1,2), unfolded e]])
          (use 2 c hw1 in \<open>auto simp: wp_rules created_def intro!: exI [of _ w1]\<close>)
    qed
  qed
  show ?thesis unfolding av_shm_create_rw_def Let_def
    by (intro wp_assert_ptrI wp_assertI wp_bindI [OF cleanup_spec [OF ok]])
      (use tail sz mode in \<open>auto simp: not_less not_le\<close>)
qed

section \<open>Creating\<close>



text \<open>
  the assertions of \<open>av_shm_create_rw\<close> reject a null structure, a size of zero or above the
  maximum and a mode below 0600, before anything has been done.
\<close>

lemma av_shm_create_rw_asserts:
  "(case mp of None \<Rightarrow> True | Some m \<Rightarrow> sz = 0 \<or> MAX_SHM_SIZE < sz \<or> mode < 0x180) =
   (\<forall>w. av_shm_create_rw mp sz is_shared mode stack w = Stop Abort)"
proof (cases "case mp of None \<Rightarrow> True | Some m \<Rightarrow> sz = 0 \<or> MAX_SHM_SIZE < sz \<or> mode < 0x180")
  case True
  then show ?thesis
    by (cases mp) (auto simp: av_shm_create_rw_def prog_defs word_gt_0 not_le)
next
  case False
  then obtain m where m: "mp = Some m" "0 < sz" "sz \<le> MAX_SHM_SIZE" "0x180 \<le> mode"
    by (cases mp) (auto simp: word_gt_0)
  have "av_shm_create_rw mp sz is_shared mode stack demo_os \<noteq> Stop Abort"
    using wp_StopD [OF create_rw_spec [OF demo_ok _ m(2-4), of m is_shared stack], of Abort] m(1)
    by auto
  with False show ?thesis by auto
qed

text \<open>A segment that was created, as others see it.\<close>

lemma created_valid:
  assumes "created sz mode m w w'" and "0 < unat sz" "unat sz \<le> 0x4000000" "8 dvd unat sz"
  shows "\<exists>nd. valid_segment w' (shm_id m) (next_ino w) nd \<and> i_size nd = unat (shm_size m) \<and>
    inode_int nd (i_size nd - 8) = SHM_MARKER \<and> inode_int nd (i_size nd - 4) = self_pid (env w)"
proof -
  from assms(1) obtain nd where nd: "inodes w' (next_ino w) = Some nd" "i_size nd = unat sz + 8"
    "inode_int nd (unat sz) = SHM_MARKER" "inode_int nd (unat sz + 4) = self_pid (env w)"
    and n: "map_of (dir w) (seg_file (shm_id m)) = None"
    "dir w' = dir w @ [(seg_file (shm_id m), next_ino w)]" "unat (shm_size m) = unat sz + 8"
    by (auto simp: created_def)
  have "map_of (dir w') (seg_file (shm_id m)) = Some (next_ino w)"
    using n by (simp add: map_add_def)
  with nd assms(2-4) n(3) show ?thesis
    by (intro exI [of _ nd]) (simp add: valid_segment_def add.commute)
qed

text \<open>What the return value 0 of a shared creation means, in one package.\<close>

lemma create_rw_shared:
  assumes "os_ok w" and "has_whined w" and "0 < sz" and "sz \<le> MAX_SHM_SIZE" and "0x180 \<le> mode"
    and ret: "av_shm_create_rw (Some mem) sz is_shared mode stack w = Ok (0, m) w'"
    and "is_shared \<noteq> 0"
  obtains w1 nd where "cleaned (map fst (dir w)) w w1" "create_frame w1 w'"
    "created (av_page_align sz) mode m w1 w'" "do_unlink m = -1" "shared m = bit1 is_shared"
    "valid_segment w' (shm_id m) (next_ino w1) nd" "i_size nd = unat (shm_size m)"
    "inode_int nd (i_size nd - 8) = SHM_MARKER" "inode_int nd (i_size nd - 4) = self_pid (env w)"
    "os_ok w'" "env w' = env w"
proof -
  from wp_OkD [OF create_rw_spec [OF assms(1-5)] ret] assms(7) obtain w1
    where w1: "cleaned (map fst (dir w)) w w1" "create_frame w1 w'"
      "created (av_page_align sz) mode m w1 w'" "do_unlink m = -1" "shared m = bit1 is_shared" by auto
  note b = page_size_bounds [OF assms(3,4)]
  have "8 dvd unat (av_page_align sz)" using b(4) by (rule dvd_trans [rotated]) simp
  from created_valid [OF w1(3) b(1,2) this] w1 cleaned_os_ok(2) [OF w1(1)] show thesis
    by (auto simp: create_frame_def intro!: that [OF w1])
qed

text \<open>
  C5: a live segment is safe. After \<open>av_shm_create_rw\<close> has returned a shared segment, a cleanup, by
  any process and whatever fails in it, leaves the segment's name and file in place as long as the
  process that created it exists.
\<close>

theorem cleanup_spares_live_segments:
  assumes "os_ok w" and "has_whined w" and "0 < sz" and "sz \<le> MAX_SHM_SIZE" and "0x180 \<le> mode"
    and "av_shm_create_rw (Some mem) sz is_shared mode stack w = Ok (0, m) w'"
    and "is_shared \<noteq> 0" and live: "procs (env w) (sint (self_pid (env w))) \<noteq> Some ESRCH"
  shows "\<exists>i nd. map_of (dir w') (seg_file (shm_id m)) = Some i \<and> inodes w' i = Some nd \<and>
    wp (may_stop w') (av_shm_cleanup seg0) (\<lambda>_ w''.
      map_of (dir w'') (seg_file (shm_id m)) = Some i \<and> inodes w'' i = Some nd) w'"
proof -
  obtain w1 :: os and nd where c: "valid_segment w' (shm_id m) (next_ino w1) nd"
    "inode_int nd (i_size nd - 4) = self_pid (env w)" "os_ok w'" "env w' = env w"
    by (rule create_rw_shared [OF assms(1-7)])
  then have "\<not> stale w' (shm_id m)"
    using live by (auto simp: stale_def dest: valid_segment_unique)
  then have n: "seg_file (shm_id m) \<notin> stale_names w'"
    by (auto simp: stale_names_def dest: seg_file_inj)
  have "wp (may_stop w') (av_shm_cleanup seg0) (\<lambda>_ w''.
      map_of (dir w'') (seg_file (shm_id m)) = Some (next_ino w1) \<and>
      inodes w'' (next_ino w1) = Some nd) w'"
  proof (rule wp_mono [OF cleanup_spec [OF c(3)]], elim conjE)
    fix w''
    assume "cleaned (map fst (dir w')) w' w''"
    then show "map_of (dir w'') (seg_file (shm_id m)) = Some (next_ino w1) \<and>
        inodes w'' (next_ino w1) = Some nd"
      by (rule cleanedE) (use c(1) n in \<open>auto simp: valid_segment_def map_of_filter_names\<close>)
  qed
  with c(1) show ?thesis by (auto simp: valid_segment_def)
qed

text \<open>On the concrete machine of \<^theory_text>\<open>Demo\<close> a segment of 5000 bytes is created.\<close>

lemma not_seg_file: "take 9 n \<noteq> SHM_NAME_PREFIX \<Longrightarrow> n \<noteq> seg_file ident"
  by (auto simp: seg_file_def SHM_NAME_PREFIX_def)

lemma demo_stale: "stale demo_os 7"
proof -
  have "seg_file 7 = ''anek-shm-7''"
    by (simp add: seg_file_def SHM_NAME_PREFIX_def fmt_u_small digit_char_def char_of_eq_iff)
  then show ?thesis
    by (auto simp: stale_def valid_segment_def demo_os_def stale_inode_def SHM_MARKER_def
        inode_int_put_other demo_env_def)
qed

lemma demo_create:
  "\<exists>m w'. av_shm_create_rw (Some zero_shm) 5000 1 0x1A4 zero_shm demo_os = Ok (0, m) w'"
proof -
  have taken: "map_of (dir w1) (seg_file i) = None"
    if "cleaned (map fst (dir demo_os)) demo_os w1" for w1 i
  proof -
    have "seg_file 7 = ''anek-shm-7''"
      by (simp add: seg_file_def SHM_NAME_PREFIX_def fmt_u_small digit_char_def char_of_eq_iff)
    then have "''anek-shm-7'' \<in> stale_names demo_os"
      using demo_stale by (auto simp: stale_names_def image_iff intro!: exI [of _ 7])
    moreover have "''other'' \<noteq> seg_file i" by (rule not_seg_file) (simp add: SHM_NAME_PREFIX_def)
    ultimately show ?thesis
      by (simp add: cleaned_quiet(1) [OF that] map_of_filter_names) (simp add: demo_os_def)
  qed
  have quiet: "\<not> faulty w1" if "cleaned (map fst (dir demo_os)) demo_os w1" for w1
    using faulty_cong [OF cleaned_os_ok(2) [OF that]] by simp
  have "wp never (av_shm_create_rw (Some zero_shm) 5000 1 0x1A4 zero_shm) (\<lambda>(r, m) w'. r = 0) demo_os"
    by (rule wp_mono2 [OF wp_quiet [OF create_rw_spec [OF demo_ok]]])
      (use taken quiet in \<open>auto simp: shm_consts not_created_def\<close>)
  then show ?thesis by (rule wp_neverE) auto
qed

theorem cleanup_spares_live_segments_witness:
  "\<exists>m w' i nd. av_shm_create_rw (Some zero_shm) 5000 1 0x1A4 zero_shm demo_os = Ok (0, m) w' \<and>
    map_of (dir w') (seg_file (shm_id m)) = Some i \<and>
    wp (may_stop w') (av_shm_cleanup zero_shm) (\<lambda>_ w''.
      map_of (dir w'') (seg_file (shm_id m)) = Some i \<and> inodes w'' i = Some nd) w'"
proof -
  obtain m w' where c: "av_shm_create_rw (Some zero_shm) 5000 1 0x1A4 zero_shm demo_os = Ok (0, m) w'"
    using demo_create by blast
  from cleanup_spares_live_segments [OF demo_ok _ _ _ _ c, of zero_shm] c show ?thesis
    by (fastforce simp: shm_consts)
qed

text \<open>
  C8: another process that attaches to the identifier of a segment just created gets a read-only
  mapping of the same file, of the same size, unless one of its own system calls fails.
\<close>

theorem attach_after_create:
  assumes "os_ok w" and "has_whined w" and "0 < sz" and "sz \<le> MAX_SHM_SIZE" and "0x180 \<le> mode"
    and "av_shm_create_rw (Some mem) sz is_shared mode stack w = Ok (0, m) w'" and "is_shared \<noteq> 0"
  shows "wp (may_stop w') (av_shm_attach_ro (Some mem2) (shm_id m)) (\<lambda>(r, m2) w''.
    r = -1 \<and> faulty w' \<or>
    r = 0 \<and> shm_size m2 = shm_size m \<and> do_unlink m2 = 0 \<and> shared m2 = -1 \<and>
    (\<exists>b b2 mp mp2. shm_ptr m = Ptr b 0 \<and> shm_ptr m2 = Ptr b2 0 \<and> b \<noteq> b2 \<and>
       maps w'' b = Some mp \<and> maps w'' b2 = Some mp2 \<and> m_ino mp2 = m_ino mp \<and>
       m_len mp2 = m_len mp \<and> m_write mp \<and> \<not> m_write mp2)) w'"
proof -
  obtain w1 :: os and nd where c: "created (av_page_align sz) mode m w1 w'"
    "valid_segment w' (shm_id m) (next_ino w1) nd" "i_size nd = unat (shm_size m)" "os_ok w'"
    by (rule create_rw_shared [OF assms])
  have mp: "shm_ptr m = Ptr (next_map w1) 0" "maps w' (next_map w1) = Some \<lparr>m_ino = next_ino w1,
      m_lo = 0, m_len = page_up (i_size nd), m_write = True\<rparr>"
    using c(1,3) by (auto simp: created_def)
  then have "next_map w1 < next_map w'" using c(4) by (auto simp: os_ok_def mem_ok_def)
  then show ?thesis
    by (intro wp_mono2 [OF attach_spec [OF c(4)]])
      (use c(2,3) mp in \<open>auto simp: ro_view_def dest!: reachD(3)
        dest: valid_segment_unique\<close>)
qed

theorem attach_after_create_witness:
  "\<exists>m w'. av_shm_create_rw (Some zero_shm) 5000 1 0x1A4 zero_shm demo_os = Ok (0, m) w' \<and>
    wp (may_stop w') (av_shm_attach_ro (Some zero_shm) (shm_id m)) (\<lambda>(r, m2) w''.
    r = -1 \<and> faulty w' \<or>
    r = 0 \<and> shm_size m2 = shm_size m \<and> do_unlink m2 = 0 \<and> shared m2 = -1 \<and>
    (\<exists>b b2 mp mp2. shm_ptr m = Ptr b 0 \<and> shm_ptr m2 = Ptr b2 0 \<and> b \<noteq> b2 \<and>
       maps w'' b = Some mp \<and> maps w'' b2 = Some mp2 \<and> m_ino mp2 = m_ino mp \<and>
       m_len mp2 = m_len mp \<and> m_write mp \<and> \<not> m_write mp2)) w'"
proof -
  obtain m w' where c: "av_shm_create_rw (Some zero_shm) 5000 1 0x1A4 zero_shm demo_os = Ok (0, m) w'"
    using demo_create by blast
  from attach_after_create [OF demo_ok _ _ _ _ c, of zero_shm] c show ?thesis
    by (intro exI [of _ m] exI [of _ w']) (simp add: shm_consts)
qed

lemma free_quiet:
  assumes "os_ok w" and "describes m b w" and "\<not> faulty w" and "close_err_releases (env w)"
  shows "wp never (av_shm_free (Some m)) (\<lambda>_ w'. maps w' = (maps w)(b := None) \<and> fds w' = fds w \<and>
     dir w' = (if shared m \<noteq> 0 \<and> do_unlink m \<noteq> 0 then drop_name (seg_file (shm_id m)) (dir w)
           else dir w)) w"
proof (rule wp_mono [OF free_spec [OF assms(1,2)]], elim exE conjE)
  fix m' w' M D
  assume r: "reach M D w w'" and
    M: "M = (maps w)(b := None) \<or> faulty w \<and> M = maps w" and
    D: "D = (if shared m \<noteq> 0 \<and> do_unlink m \<noteq> 0 then drop_name (seg_file (shm_id m)) (dir w)
           else dir w) \<or> faulty w \<and> D = dir w"
  note d = reachD(3,4,13) [OF r]
  show "maps w' = (maps w)(b := None) \<and> fds w' = fds w \<and>
     dir w' = (if shared m \<noteq> 0 \<and> do_unlink m \<noteq> 0 then drop_name (seg_file (shm_id m)) (dir w)
           else dir w)"
    using d M D assms(3,4) by simp
qed

text \<open>
  C4: creating and freeing is a round trip. Where no call fails, \<open>av_shm_create_rw\<close> with \<open>shared\<close>
  0 or 1 followed by \<open>av_shm_free\<close> of what it returned leaves the mappings and descriptors as they
  were and in /dev/shm exactly what was there before, less the segments of dead processes.
\<close>

theorem create_free_roundtrip:
  assumes "os_ok w" and "has_whined w" and "\<not> faulty w" and "close_err_releases (env w)"
    and "0 < sz" and "sz \<le> MAX_SHM_SIZE" and "0x180 \<le> mode" and "is_shared = 0 \<or> is_shared = 1"
  shows "wp never (pbind (av_shm_create_rw (Some mem) sz is_shared mode stack) (\<lambda>(r, m).
      if r = 0 then av_shm_free (Some m) else pret m)) (\<lambda>_ w''.
      dir w'' = filter (\<lambda>e. fst e \<notin> stale_names w) (dir w) \<and> maps w'' = maps w \<and>
      fds w'' = fds w) w"
proof (rule wp_bindI2 [OF wp_quiet [OF create_rw_spec [OF assms(1,2,5-7)] assms(3)]],
    elim exE conjE, unfold prod.case)
  fix r :: int and m w' w1
  assume c: "cleaned (map fst (dir w)) w w1" and fr: "create_frame w1 w'"
    and post: "r = 0 \<and> shared m = bit1 is_shared \<and>
         (if is_shared = 0 then created_private (av_page_align sz) m w1 w'
          else created (av_page_align sz) mode m w1 w' \<and> do_unlink m = -1)
       \<or> r = -1 \<and> (if is_shared = 0 then faulty w \<and> maps w' = maps w1 \<and> dir w' = dir w1
                   else not_created w1 w')"
  note q = cleaned_quiet [OF c assms(3)] and b = page_size_bounds [OF assms(5,6)]
  have fds: "fds w' = fds w" "faulty w1 = faulty w" "env w' = env w1" "os_ok w'" "os_ok w1"
    using c fr assms(4) by (auto simp: create_frame_def elim!: cleanedE)
  have nf: "\<not> faulty w'" using faulty_cong [OF fds(3)] fds(2) assms(3) by simp
  show "wp never (if r = 0 then av_shm_free (Some m) else pret m) (\<lambda>_ w''.
      dir w'' = filter (\<lambda>e. fst e \<notin> stale_names w) (dir w) \<and> maps w'' = maps w \<and>
      fds w'' = fds w) w'"
  proof (cases "r = 0")
    case False
    with post assms(3) fds q show ?thesis
      by (auto simp: wp_rules not_created_def split: if_splits)
  next
    case True
    have unmap: "(maps w')(next_map w1 := None) = maps w"
      "describes m (next_map w1) w'"
      "(if shared m \<noteq> 0 \<and> do_unlink m \<noteq> 0 then drop_name (seg_file (shm_id m)) (dir w')
        else dir w') = dir w1"
      using True post b os_ok_fresh_map [OF fds(5)] q(2) assms(8)
      by (auto simp: created_private_def created_def describes_def fun_upd_idem bit1_def
          drop_name_def drop_name_absent [unfolded drop_name_def] split: if_splits)
    have rel: "close_err_releases (env w')"
      using fds(3) cleaned_os_ok(2) [OF c] assms(4) by simp
    show ?thesis unfolding True if_True simp_thms
      by (rule wp_mono [OF free_quiet [OF fds(4) unmap(2) nf rel]])
        (simp only: unmap(1,3) q fds(1))
  qed
qed

theorem create_free_roundtrip_witness:
  "wp never (pbind (av_shm_create_rw (Some zero_shm) 5000 1 0x1A4 zero_shm) (\<lambda>(r, m).
      if r = 0 then av_shm_free (Some m) else pret m)) (\<lambda>_ w''.
      dir w'' = filter (\<lambda>e. fst e \<notin> stale_names demo_os) (dir demo_os) \<and>
      maps w'' = maps demo_os \<and> fds w'' = fds demo_os) demo_os"
  by (rule create_free_roundtrip) (simp_all add: shm_consts)



section \<open>Attaching and freeing\<close>

text \<open>
  C9: \<open>av_shm_attach_ro\<close> returns 0 exactly for a segment whose file has a size that is positive, at
  most the maximum and a multiple of eight (unless a call fails). Then every aligned or unaligned
  integer inside \<open>m->size\<close> can be read and none written. On failure the mappings are as before; in
  both cases names and files are untouched and the descriptor is closed again.
\<close>

theorem av_shm_attach_ro_correct:
  assumes ok: "os_ok w"
  shows "wp (may_stop w) (av_shm_attach_ro (Some mem) ident) (\<lambda>(r, m) w'.
    os_ok w' \<and> dir w' = dir w \<and> inodes w' = inodes w \<and>
    (close_err_releases (env w) \<longrightarrow> fds w' = fds w) \<and>
    (r = -1 \<and> maps w' = maps w \<and> (faulty w \<or> (\<nexists>i nd. valid_segment w ident i nd)) \<or>
     r = 0 \<and> (\<exists>i nd. valid_segment w ident i nd \<and> unat (shm_size m) = i_size nd \<and>
       (\<forall>off. off + 4 \<le> i_size nd \<longrightarrow>
          load_int (ptr_add (shm_ptr m) (of_nat off)) w' = Ok (inode_int nd off) w' \<and>
          store_int (ptr_add (shm_ptr m) (of_nat off)) v w' = Stop Segv)))) w"
proof (rule wp_mono2 [OF attach_spec [OF ok]], unfold prod.case, elim disjE conjE exE)
  fix r m w' i nd
  assume r: "r = (0 :: int)" and seg: "valid_segment w ident i nd"
    and m: "m = ro_view ident (next_map w) nd"
    and w': "reach ((maps w)(next_map w \<mapsto> ro_mapping i nd)) (dir w) w w'"
  note d = reachD [OF w']
  have mp: "maps w' (next_map w) = Some (ro_mapping i nd)" "inodes w' i = Some nd"
    using d seg by (auto simp: valid_segment_def)
  have "load_int (ptr_add (shm_ptr m) (of_nat off)) w' = Ok (inode_int nd off) w' \<and>
      store_int (ptr_add (shm_ptr m) (of_nat off)) v w' = Stop Segv"
    if "off + 4 \<le> i_size nd" for off
  proof -
    have "unat (of_nat off :: u64) = off"
      using that seg by (simp add: valid_segment_def unsigned_of_nat take_bit_nat_eq_self)
    then have p: "ptr_add (shm_ptr m) (of_nat off) = Ptr (next_map w) off"
      by (simp add: m ro_view_def)
    show ?thesis unfolding p using load_mapped [OF mp that] mp
      by (simp add: store_int_def access_def)
  qed
  with r d seg m unat_ro_size [OF seg, of "next_map w"]
  show "os_ok w' \<and> dir w' = dir w \<and> inodes w' = inodes w \<and>
    (close_err_releases (env w) \<longrightarrow> fds w' = fds w) \<and>
    (r = -1 \<and> maps w' = maps w \<and> (faulty w \<or> (\<nexists>i nd. valid_segment w ident i nd)) \<or>
     r = 0 \<and> (\<exists>i nd. valid_segment w ident i nd \<and> unat (shm_size m) = i_size nd \<and>
       (\<forall>off. off + 4 \<le> i_size nd \<longrightarrow>
          load_int (ptr_add (shm_ptr m) (of_nat off)) w' = Ok (inode_int nd off) w' \<and>
          store_int (ptr_add (shm_ptr m) (of_nat off)) v w' = Stop Segv)))"
    by auto
qed (auto dest: reachD)

theorem av_shm_attach_ro_correct_witness:
  "wp (may_stop demo_os) (av_shm_attach_ro (Some zero_shm) 7) (\<lambda>(r, m) w'.
    os_ok w' \<and> dir w' = dir demo_os \<and> inodes w' = inodes demo_os \<and>
    (close_err_releases (env demo_os) \<longrightarrow> fds w' = fds demo_os) \<and>
    (r = -1 \<and> maps w' = maps demo_os \<and> (faulty demo_os \<or> (\<nexists>i nd. valid_segment demo_os 7 i nd)) \<or>
     r = 0 \<and> (\<exists>i nd. valid_segment demo_os 7 i nd \<and> unat (shm_size m) = i_size nd \<and>
       (\<forall>off. off + 4 \<le> i_size nd \<longrightarrow>
          load_int (ptr_add (shm_ptr m) (of_nat off)) w' = Ok (inode_int nd off) w' \<and>
          store_int (ptr_add (shm_ptr m) (of_nat off)) 1 w' = Stop Segv)))) demo_os"
  by (rule av_shm_attach_ro_correct [OF demo_ok])

text \<open>
  C10: \<open>av_shm_free\<close> of a structure that describes a mapping always returns, gives the mapping back
  and, where the structure says so, removes the segment's name, unless \<open>munmap\<close> or \<open>shm_unlink\<close>
  fails; it touches nothing else. The structure is zeroed, so that freeing it again aborts.
\<close>

theorem av_shm_free_correct:
  assumes "os_ok w" and "describes m b w"
  shows "wp never (av_shm_free (Some m)) (\<lambda>m' w'. os_ok w' \<and> inodes w' = inodes w \<and>
    (close_err_releases (env w) \<longrightarrow> fds w' = fds w) \<and>
    (maps w' = (maps w)(b := None) \<or> faulty w \<and> maps w' = maps w) \<and>
    (dir w' = (if shared m \<noteq> 0 \<and> do_unlink m \<noteq> 0 then drop_name (seg_file (shm_id m)) (dir w)
               else dir w) \<or> faulty w \<and> dir w' = dir w) \<and>
    (\<forall>v. av_shm_free (Some m') v = Stop Abort)) w"
proof (rule wp_mono [OF free_spec [OF assms]], elim exE conjE)
  fix m' w' M D
  assume m': "m' = zero_shm" and r: "reach M D w w'"
    and M: "M = (maps w)(b := None) \<or> faulty w \<and> M = maps w"
    and D: "D = (if shared m \<noteq> 0 \<and> do_unlink m \<noteq> 0 then drop_name (seg_file (shm_id m)) (dir w)
         else dir w) \<or> faulty w \<and> D = dir w"
  note d = reachD [OF r]
  have "\<forall>v. av_shm_free (Some m') v = Stop Abort"
    by (simp add: m' av_shm_free_def zero_shm_def prog_defs)
  then show "os_ok w' \<and> inodes w' = inodes w \<and> (close_err_releases (env w) \<longrightarrow> fds w' = fds w) \<and>
    (maps w' = (maps w)(b := None) \<or> faulty w \<and> maps w' = maps w) \<and>
    (dir w' = (if shared m \<noteq> 0 \<and> do_unlink m \<noteq> 0 then drop_name (seg_file (shm_id m)) (dir w)
               else dir w) \<or> faulty w \<and> dir w' = dir w) \<and>
    (\<forall>v. av_shm_free (Some m') v = Stop Abort)"
    unfolding d(3,4) using d(1,5,13) M D by blast
qed

definition demo_map :: os where
  "demo_map = demo_os\<lparr>maps := [0 \<mapsto> \<lparr>m_ino = 0, m_lo = 0, m_len = 4096, m_write = True\<rparr>],
     next_map := 1\<rparr>"

lemma demo_map_ok: "os_ok demo_map"
  by (auto simp: demo_map_def os_ok_defs demo_os_def demo_env_def split: if_splits)

theorem av_shm_free_correct_witness:
  "wp never (av_shm_free (Some \<lparr>shm_id = 7, shm_ptr = Ptr 0 0, shm_size = 16, do_unlink = -1,
      shared = -1\<rparr>)) (\<lambda>m' w'. os_ok w' \<and> inodes w' = inodes demo_map \<and>
    (close_err_releases (env demo_map) \<longrightarrow> fds w' = fds demo_map) \<and>
    (maps w' = (maps demo_map)(0 := None) \<or> faulty demo_map \<and> maps w' = maps demo_map) \<and>
    (dir w' = drop_name (seg_file 7) (dir demo_map) \<or> faulty demo_map \<and> dir w' = dir demo_map) \<and>
    (\<forall>v. av_shm_free (Some m') v = Stop Abort)) demo_map"
  using av_shm_free_correct [OF demo_map_ok, of "\<lparr>shm_id = 7, shm_ptr = Ptr 0 0, shm_size = 16,
      do_unlink = -1, shared = -1\<rparr>" 0]
  by (simp add: describes_def demo_map_def page_up_def page_def)

section \<open>The cleanup\<close>

text \<open>
  C2: \<open>av_shm_cleanup\<close> is safe. Whatever fails while it runs, each name it removes belongs to a
  stale segment (a valid marker of a process that does not exist); names of live segments and of
  other programs stay, no file's content changes, the mappings that existed stay, and it makes no
  invalid access, whatever the files of /dev/shm hold.
\<close>

theorem av_shm_cleanup_safe:
  assumes "os_ok w"
  shows "wp (may_stop w) (av_shm_cleanup seg0) (\<lambda>r w'. os_ok w' \<and> inodes w' = inodes w \<and>
    (close_err_releases (env w) \<longrightarrow> fds w' = fds w) \<and>
    (\<forall>b < next_map w. maps w' b = maps w b) \<and> set (dir w') \<subseteq> set (dir w) \<and>
    (\<forall>e \<in> set (dir w) - set (dir w'). \<exists>ident. fst e = seg_file ident \<and> stale w ident)) w"
proof (rule wp_mono [OF cleanup_spec [OF assms]], elim conjE)
  fix r w'
  assume "cleaned (map fst (dir w)) w w'"
  then obtain R where R: "os_ok w'" "inodes w' = inodes w"
    "dir w' = filter (\<lambda>e. fst e \<notin> R) (dir w)" "kept w (maps w')"
    "close_err_releases (env w) \<longrightarrow> fds w' = fds w" "R \<subseteq> stale_names w"
    by (rule cleanedE)
  have "\<exists>ident. fst e = seg_file ident \<and> stale w ident" if "e \<in> set (dir w) - set (dir w')" for e
  proof -
    from that R(3) have "fst e \<in> R" by auto
    with R(6) show ?thesis by (auto simp: stale_names_def)
  qed
  then show "os_ok w' \<and> inodes w' = inodes w \<and> (close_err_releases (env w) \<longrightarrow> fds w' = fds w) \<and>
    (\<forall>b < next_map w. maps w' b = maps w b) \<and> set (dir w') \<subseteq> set (dir w) \<and>
    (\<forall>e \<in> set (dir w) - set (dir w'). \<exists>ident. fst e = seg_file ident \<and> stale w ident)"
    using R(1,2,4,5) by (simp add: R(3) kept_def)
qed

theorem av_shm_cleanup_safe_witness:
  "wp (may_stop demo_os) (av_shm_cleanup zero_shm) (\<lambda>r w'. os_ok w' \<and>
    inodes w' = inodes demo_os \<and> (close_err_releases (env demo_os) \<longrightarrow> fds w' = fds demo_os) \<and>
    (\<forall>b < next_map demo_os. maps w' b = maps demo_os b) \<and> set (dir w') \<subseteq> set (dir demo_os) \<and>
    (\<forall>e \<in> set (dir demo_os) - set (dir w').
       \<exists>ident. fst e = seg_file ident \<and> stale demo_os ident)) demo_os"
  by (rule av_shm_cleanup_safe [OF demo_ok])

text \<open>
  C3: \<open>av_shm_cleanup\<close> does its job. Where no call fails it returns 0, removes exactly the stale
  segments in the order of the directory, and leaves none; descriptors and mappings are as before.
\<close>

theorem av_shm_cleanup_complete:
  assumes "os_ok w" and "\<not> faulty w" and "close_err_releases (env w)"
  shows "wp never (av_shm_cleanup seg0) (\<lambda>r w'. r = 0 \<and>
    dir w' = filter (\<lambda>e. fst e \<notin> stale_names w) (dir w) \<and> (\<forall>ident. \<not> stale w' ident) \<and>
    maps w' = maps w \<and> fds w' = fds w) w"
  by (rule wp_mono [OF wp_quiet [OF cleanup_spec [OF assms(1)] assms(2)]])
    (use assms(2,3) in \<open>auto simp: cleaned_quiet elim: cleanedE\<close>)

theorem av_shm_cleanup_complete_witness:
  "stale demo_os 7 \<and> wp never (av_shm_cleanup zero_shm) (\<lambda>r w'. r = 0 \<and>
    dir w' = filter (\<lambda>e. fst e \<notin> stale_names demo_os) (dir demo_os) \<and>
    (\<forall>ident. \<not> stale w' ident) \<and> maps w' = maps demo_os \<and> fds w' = fds demo_os) demo_os"
  using demo_stale av_shm_cleanup_complete [OF demo_ok, of zero_shm] by simp

section \<open>Names\<close>

text \<open>
  C14: the name of a segment fits the 32 bytes reserved for it, tells segments apart, and is read
  back by \<open>av_atou\<close> as the identifier it was made from.
\<close>

theorem segment_name_roundtrip:
  "length (segment_name 32 ident) < 32 \<and>
   (segment_name 32 ident = segment_name 32 other \<longleftrightarrow> ident = other) \<and>
   segment_name 128 ident = segment_name 32 ident \<and>
   av_atou (drop (length SHM_NAME_PREFIX) (shm_file (segment_name 32 ident))) w =
     Ok (0, Some ident) (w\<lparr>errno := EOK\<rparr>)"
  using length_fmt_u_u32 [of ident] seg_file_inj [of ident other]
  by (auto simp: segment_name_eq seg_file_def SHM_NAME_PREFIX_def shm_file_def av_atou_eq
      atou_spec_fmt_u)

text \<open>
  the cleanup takes names it did not make for segments. A file \<open>anek-shm-\<close> with nothing after
  the prefix is treated as segment 0, \<open>anek-shm-010\<close> as segment 8 and
  \<open>anek-shm--18446744073709551615\<close> as segment 1: the round works on another file than the one
  listed. A name that continues with anything \<open>av_atou\<close> rejects is passed over.
\<close>

lemma cleanup_entry_aliases:
  "cleanup_entry ''anek-shm-'' seg0 w = cleanup_segment 0 seg0 (w\<lparr>errno := EOK\<rparr>) \<and>
   cleanup_entry ''anek-shm-010'' seg0 w = cleanup_segment 8 seg0 (w\<lparr>errno := EOK\<rparr>) \<and>
   cleanup_entry ''anek-shm--18446744073709551615'' seg0 w = cleanup_segment 1 seg0 (w\<lparr>errno := EOK\<rparr>) \<and>
   cleanup_entry ''anek-shm-7x'' seg0 w = Ok () (w\<lparr>errno := EINVAL\<rparr>)"
proof -
  note defs = atou_spec_def strtoul_def strtoul_sign_def strtoul_base_def is_space_def
    is_digit_def digit_val_def digits_value_def Let_def ULONG_MAX_def
  have "atou_spec [] = Inr 0" by (simp add: defs)
  moreover have "atou_spec ''010'' = Inr 8" by (simp add: defs)
  moreover have "atou_spec ''-18446744073709551615'' = Inr 1" by (simp add: defs)
  moreover have "atou_spec ''7x'' = Inl EINVAL" by (simp add: defs)
  ultimately show ?thesis
    by (simp add: cleanup_entry_def SHM_NAME_PREFIX_def prog_defs av_atou_eq)
qed

end
