(* ===== verification/Talloc.thy ===== *)
theory Talloc
  imports Prelude
begin

text \<open>
  ccan/talloc/talloc.c: hierarchical memory pools. Every allocation is a chunk, a header followed by
  the memory handed out; the header links the chunk to its parent, its children and its siblings,
  and to the handles of the references that other pools hold on it.

  A chunk is named by a number, its address. \<open>TC_PTR_FROM_CHUNK\<close> adds a constant to an address and
  \<open>talloc_chunk_from_ptr\<close> takes it off again, so one number stands for the chunk and for the memory
  it hands out; a pointer that may be null is an option. An access to a chunk that has been freed
  is undefined in C and stops with \<open>Segv\<close>.
\<close>

section \<open>Data\<close>

type_synonym addr = nat

text \<open>
  A destructor is null, \<open>talloc_reference_destructor\<close>, \<open>talloc_autofree_destructor\<close>, a function of
  the program, or the value -1 that marks a destructor as running.
\<close>

datatype destructor = D_null | D_reference | D_autofree | D_user nat | D_minus_1

text \<open>A name is null, \<open>TALLOC_MAGIC_REFERENCE\<close>, a string constant, or the text held by a chunk.\<close>

datatype tname = N_null | N_reference | N_const string | N_chunk addr

record talloc_chunk =
  tc_next :: "addr option"
  tc_prev :: "addr option"
  tc_parent :: "addr option"
  tc_child :: "addr option"
  tc_refs :: "addr option"
  tc_destructor :: destructor
  tc_name :: tname
  tc_size :: u64
  tc_flags :: u32

record talloc_reference_handle =
  h_next :: "addr option"
  h_prev :: "addr option"
  h_ptr :: addr

text \<open>What \<open>atexit\<close> is given.\<close>

datatype exit_handler = X_autofree | X_report_null | X_report_null_full

text \<open>
  The state: the chunks, the contents of reference handles (kept apart from the other contents) and
  of the memory handed out, the static variables of the file, and what the outside world does:
  whether an allocation fails, whether \<open>realloc\<close> moves and what fresh memory holds, each asked with
  a clock that never stands still. The program's own destructors act on a state \<open>'w\<close> of the
  program; they are taken to return and not to call talloc themselves, as those of AnekVideo do.
\<close>

record 'w tstate =
  chunks :: "addr \<Rightarrow> talloc_chunk option"
  handles :: "addr \<Rightarrow> talloc_reference_handle option"
  payload :: "addr \<Rightarrow> u8 list"
  next_addr :: addr
  null_context :: "addr option"
  autofree_context :: "addr option"
  tc_lock :: bool
  locked :: bool
  oom :: "nat \<Rightarrow> bool"
  moves :: "nat \<Rightarrow> bool"
  junk :: "nat \<Rightarrow> u8"
  ticks :: nat
  exit_handlers :: "exit_handler list"
  external_realloc :: "nat option"
  user_destructor :: "nat \<Rightarrow> addr \<Rightarrow> 'w \<Rightarrow> int \<times> 'w"
  outside :: 'w

definition MAX_TALLOC_SIZE :: u64 where
  "MAX_TALLOC_SIZE = 0x10000000"

definition TALLOC_MAGIC :: u32 where
  "TALLOC_MAGIC = 0xe814ec70"

definition TALLOC_FLAG_FREE :: u32 where
  "TALLOC_FLAG_FREE = 1"

definition TALLOC_FLAG_LOOP :: u32 where
  "TALLOC_FLAG_LOOP = 2"

definition TALLOC_FLAG_EXT_ALLOC :: u32 where
  "TALLOC_FLAG_EXT_ALLOC = 4"

lemmas flag_defs = TALLOC_MAGIC_def TALLOC_FLAG_FREE_def TALLOC_FLAG_LOOP_def
  TALLOC_FLAG_EXT_ALLOC_def

section \<open>Access to chunks and handles\<close>

definition get_chunk :: "addr \<Rightarrow> ('w tstate, talloc_chunk) prog" where
  "get_chunk a = (\<lambda>h. case chunks h a of None \<Rightarrow> Stop Segv | Some c \<Rightarrow> Ok c h)"

definition upd_chunk :: "addr \<Rightarrow> (talloc_chunk \<Rightarrow> talloc_chunk) \<Rightarrow> ('w tstate, unit) prog" where
  "upd_chunk a f = (\<lambda>h. case chunks h a of None \<Rightarrow> Stop Segv
     | Some c \<Rightarrow> Ok () (h\<lparr>chunks := (chunks h)(a \<mapsto> f c)\<rparr>))"

definition get_handle :: "addr \<Rightarrow> ('w tstate, talloc_reference_handle) prog" where
  "get_handle a = (\<lambda>h. case handles h a of None \<Rightarrow> Stop Segv | Some c \<Rightarrow> Ok c h)"

definition upd_handle :: "addr \<Rightarrow> (talloc_reference_handle \<Rightarrow> talloc_reference_handle) \<Rightarrow>
    ('w tstate, unit) prog" where
  "upd_handle a f = (\<lambda>h. case handles h a of None \<Rightarrow> Stop Segv
     | Some c \<Rightarrow> Ok () (h\<lparr>handles := (handles h)(a \<mapsto> f c)\<rparr>))"

text \<open>\<open>if (p) p->field = v\<close>.\<close>

definition upd_chunk_opt :: "addr option \<Rightarrow> (talloc_chunk \<Rightarrow> talloc_chunk) \<Rightarrow> ('w tstate, unit) prog" where
  "upd_chunk_opt p f = (case p of None \<Rightarrow> pret () | Some a \<Rightarrow> upd_chunk a f)"

definition upd_handle_opt ::
    "addr option \<Rightarrow> (talloc_reference_handle \<Rightarrow> talloc_reference_handle) \<Rightarrow> ('w tstate, unit) prog" where
  "upd_handle_opt p f = (case p of None \<Rightarrow> pret () | Some a \<Rightarrow> upd_handle a f)"

definition talloc_chunk_from_ptr :: "addr \<Rightarrow> ('w tstate, talloc_chunk) prog" where
  "talloc_chunk_from_ptr p =
     pbind (get_chunk p) (\<lambda>tc.
       if tc_flags tc AND (TALLOC_FLAG_FREE OR NOT 0xF) \<noteq> TALLOC_MAGIC then pstop Abort
       else pret tc)"

text \<open>
  \<open>_TLIST_ADD(parent->child, p)\<close> and \<open>_TLIST_REMOVE(parent->child, p)\<close>; the same macros are used
  on the list of handles \<open>tc->refs\<close>.
\<close>

definition tlist_add_child :: "addr \<Rightarrow> addr \<Rightarrow> ('w tstate, unit) prog" where
  "tlist_add_child par p =
     pbind (get_chunk par) (\<lambda>pc.
     case tc_child pc of
       None \<Rightarrow>
         pthen (upd_chunk par (\<lambda>c. c\<lparr>tc_child := Some p\<rparr>))
          (upd_chunk p (\<lambda>c. c\<lparr>tc_next := None, tc_prev := None\<rparr>))
     | Some l \<Rightarrow>
         pthen (upd_chunk l (\<lambda>c. c\<lparr>tc_prev := Some p\<rparr>))
        (pthen (upd_chunk p (\<lambda>c. c\<lparr>tc_next := Some l\<rparr>))
        (pthen (upd_chunk p (\<lambda>c. c\<lparr>tc_prev := None\<rparr>))
          (upd_chunk par (\<lambda>c. c\<lparr>tc_child := Some p\<rparr>)))))"

definition tlist_remove_child :: "addr \<Rightarrow> addr \<Rightarrow> ('w tstate, unit) prog" where
  "tlist_remove_child par p =
     pbind (get_chunk par) (\<lambda>pc.
     pbind (get_chunk p) (\<lambda>c.
     pthen
       (if tc_child pc = Some p then
          pthen (upd_chunk par (\<lambda>d. d\<lparr>tc_child := tc_next c\<rparr>))
            (upd_chunk_opt (tc_next c) (\<lambda>d. d\<lparr>tc_prev := None\<rparr>))
        else
          pthen (upd_chunk_opt (tc_prev c) (\<lambda>d. d\<lparr>tc_next := tc_next c\<rparr>))
            (upd_chunk_opt (tc_next c) (\<lambda>d. d\<lparr>tc_prev := tc_prev c\<rparr>)))
     (pbind (get_chunk par) (\<lambda>pc.
        if tc_child pc \<noteq> Some p
        then upd_chunk p (\<lambda>d. d\<lparr>tc_next := None, tc_prev := None\<rparr>) else pret ()))))"

definition tlist_add_ref :: "addr \<Rightarrow> addr \<Rightarrow> ('w tstate, unit) prog" where
  "tlist_add_ref tc p =
     pbind (get_chunk tc) (\<lambda>c.
     case tc_refs c of
       None \<Rightarrow>
         pthen (upd_chunk tc (\<lambda>c. c\<lparr>tc_refs := Some p\<rparr>))
          (upd_handle p (\<lambda>h. h\<lparr>h_next := None, h_prev := None\<rparr>))
     | Some l \<Rightarrow>
         pthen (upd_handle l (\<lambda>h. h\<lparr>h_prev := Some p\<rparr>))
        (pthen (upd_handle p (\<lambda>h. h\<lparr>h_next := Some l\<rparr>))
        (pthen (upd_handle p (\<lambda>h. h\<lparr>h_prev := None\<rparr>))
          (upd_chunk tc (\<lambda>c. c\<lparr>tc_refs := Some p\<rparr>)))))"

definition tlist_remove_ref :: "addr \<Rightarrow> addr \<Rightarrow> ('w tstate, unit) prog" where
  "tlist_remove_ref tc p =
     pbind (get_chunk tc) (\<lambda>c.
     pbind (get_handle p) (\<lambda>h.
     pthen
       (if tc_refs c = Some p then
          pthen (upd_chunk tc (\<lambda>d. d\<lparr>tc_refs := h_next h\<rparr>))
            (upd_handle_opt (h_next h) (\<lambda>g. g\<lparr>h_prev := None\<rparr>))
        else
          pthen (upd_handle_opt (h_prev h) (\<lambda>g. g\<lparr>h_next := h_next h\<rparr>))
            (upd_handle_opt (h_next h) (\<lambda>g. g\<lparr>h_prev := h_prev h\<rparr>)))
     (pbind (get_chunk tc) (\<lambda>c.
        if tc_refs c \<noteq> Some p
        then upd_handle p (\<lambda>g. g\<lparr>h_next := None, h_prev := None\<rparr>) else pret ()))))"

section \<open>Locking\<close>

text \<open>\<open>tc_lock\<close> is whether a lock function is installed; calling it is all that is modelled of it.\<close>

definition lock :: "addr option \<Rightarrow> ('w tstate, unit) prog" where
  "lock p =
     pbind (pgets tc_lock) (\<lambda>installed.
     case p of
       None \<Rightarrow> pret ()
     | Some a \<Rightarrow>
         if \<not> installed then pret ()
         else
           pbind (talloc_chunk_from_ptr a) (\<lambda>tc.
           if tc_flags tc AND TALLOC_FLAG_EXT_ALLOC \<noteq> 0
           then pbind (pgets locked) (\<lambda>l.
                if l then pstop Abort else pmodify (\<lambda>h. h\<lparr>locked := True\<rparr>))
           else pret ()))"

definition unlock :: "('w tstate, unit) prog" where
  "unlock = pmodify (\<lambda>h. h\<lparr>locked := False\<rparr>)"

section \<open>Parents\<close>

text \<open>
  A walk along pointers of a heap that does not change visits no more chunks than there are
  addresses, or it never ends: the fuel of the walks below is the number of addresses.
\<close>

fun first_sibling :: "nat \<Rightarrow> addr \<Rightarrow> ('w tstate, talloc_chunk) prog" where
  "first_sibling 0 a = pstop Diverge"
| "first_sibling (Suc n) a =
     pbind (get_chunk a) (\<lambda>c. case tc_prev c of None \<Rightarrow> pret c | Some b \<Rightarrow> first_sibling n b)"

definition talloc_parent_chunk :: "addr option \<Rightarrow> ('w tstate, addr option) prog" where
  "talloc_parent_chunk ptr =
     (case ptr of
        None \<Rightarrow> pret None
      | Some p \<Rightarrow>
          pthen (talloc_chunk_from_ptr p)
         (pbind (pgets next_addr) (\<lambda>n.
          pbind (first_sibling (Suc n) p) (\<lambda>c. pret (tc_parent c)))))"

definition talloc_parent :: "addr option \<Rightarrow> ('w tstate, addr option) prog" where
  "talloc_parent ptr =
     pthen (lock ptr)
    (pbind (talloc_parent_chunk ptr) (\<lambda>parent. pthen unlock (pret parent)))"

definition talloc_parent_name :: "addr option \<Rightarrow> ('w tstate, tname) prog" where
  "talloc_parent_name ptr =
     pthen (lock ptr)
    (pbind (talloc_parent_chunk ptr) (\<lambda>tc.
     pthen unlock
    (case tc of None \<Rightarrow> pret N_null | Some a \<Rightarrow> pbind (get_chunk a) (\<lambda>c. pret (tc_name c)))))"

fun is_parent_loop :: "nat \<Rightarrow> addr option \<Rightarrow> addr option \<Rightarrow> ('w tstate, bool) prog" where
  "is_parent_loop 0 tc ptr = pstop Diverge"
| "is_parent_loop (Suc n) tc ptr =
     (case tc of
        None \<Rightarrow> pret False
      | Some a \<Rightarrow>
          if Some a = ptr then pret True
          else
            pbind (pgets next_addr) (\<lambda>m.
            pbind (first_sibling (Suc m) a) (\<lambda>c. is_parent_loop n (tc_parent c) ptr)))"

definition talloc_is_parent_nolock :: "addr option \<Rightarrow> addr option \<Rightarrow> ('w tstate, bool) prog" where
  "talloc_is_parent_nolock ctxt ptr =
     (case ctxt of
        None \<Rightarrow> pret False
      | Some c \<Rightarrow>
          pthen (talloc_chunk_from_ptr c)
         (pbind (pgets next_addr) (\<lambda>n. is_parent_loop (Suc (Suc n)) (Some c) ptr)))"

definition talloc_is_parent :: "addr option \<Rightarrow> addr option \<Rightarrow> ('w tstate, bool) prog" where
  "talloc_is_parent ctxt ptr =
     pthen (lock ctxt)
    (pbind (talloc_is_parent_nolock ctxt ptr) (\<lambda>r. pthen unlock (pret r)))"

section \<open>Allocating\<close>

text \<open>\<open>malloc\<close>: a fresh chunk with an unspecified header, or null.\<close>

definition blank_chunk :: talloc_chunk where
  "blank_chunk = \<lparr>tc_next = None, tc_prev = None, tc_parent = None, tc_child = None,
     tc_refs = None, tc_destructor = D_null, tc_name = N_null, tc_size = 0, tc_flags = 0\<rparr>"

definition malloc_chunk :: "nat \<Rightarrow> ('w tstate, addr option) prog" where
  "malloc_chunk sz =
     pbind (pgets (\<lambda>h. oom h (ticks h))) (\<lambda>fails.
     pthen (pmodify (\<lambda>h. h\<lparr>ticks := Suc (ticks h)\<rparr>))
     (if fails then pret None
      else pbind (pgets next_addr) (\<lambda>a.
           pthen (pmodify (\<lambda>h. h\<lparr>chunks := (chunks h)(a \<mapsto> blank_chunk), next_addr := Suc a,
                     handles := (handles h)(a := None),
                     payload := (payload h)(a := map (\<lambda>i. junk h (ticks h + i)) [0..<sz])\<rparr>))
             (pret (Some a)))))"

definition init_talloc :: "addr option \<Rightarrow> addr option \<Rightarrow> u64 \<Rightarrow> bool \<Rightarrow> ('w tstate, addr option) prog" where
  "init_talloc parent tc sz external =
     (case tc of
        None \<Rightarrow> pret None
      | Some a \<Rightarrow>
          pthen (upd_chunk a (\<lambda>c. c\<lparr>tc_size := sz,
              tc_flags := (if external then TALLOC_MAGIC OR TALLOC_FLAG_EXT_ALLOC else TALLOC_MAGIC),
              tc_destructor := D_null, tc_child := None, tc_name := N_null, tc_refs := None\<rparr>))
         (pthen
           (case parent of
              Some p \<Rightarrow>
                pbind (get_chunk p) (\<lambda>pc.
                pthen
                  (case tc_child pc of
                     Some k \<Rightarrow>
                       pthen (upd_chunk k (\<lambda>c. c\<lparr>tc_parent := None\<rparr>))
                      (pthen (upd_chunk a (\<lambda>c. c\<lparr>tc_next := Some k\<rparr>))
                        (upd_chunk k (\<lambda>c. c\<lparr>tc_prev := Some a\<rparr>)))
                   | None \<Rightarrow> upd_chunk a (\<lambda>c. c\<lparr>tc_next := None\<rparr>))
               (pthen (upd_chunk a (\<lambda>c. c\<lparr>tc_parent := Some p, tc_prev := None\<rparr>))
                 (upd_chunk p (\<lambda>c. c\<lparr>tc_child := Some a\<rparr>))))
            | None \<Rightarrow> upd_chunk a (\<lambda>c. c\<lparr>tc_next := None, tc_prev := None, tc_parent := None\<rparr>))
         (pret (Some a))))"

text \<open>\<open>__talloc\<close>; an external pool allocates with its own function, modelled like \<open>malloc\<close>.\<close>

definition talloc_alloc :: "addr option \<Rightarrow> u64 \<Rightarrow> ('w tstate, addr option) prog" where
  "talloc_alloc ctxt sz =
     pbind (pgets null_context) (\<lambda>nc.
     let ctxt = (if ctxt = None then nc else ctxt) in
     if MAX_TALLOC_SIZE \<le> sz then pret None
     else
       pbind (case ctxt of
                None \<Rightarrow> pret False
              | Some c \<Rightarrow> pbind (talloc_chunk_from_ptr c) (\<lambda>pc.
                  pret (tc_flags pc AND TALLOC_FLAG_EXT_ALLOC \<noteq> 0)))
       (\<lambda>external.
         pbind (malloc_chunk (unat sz)) (\<lambda>tc. init_talloc ctxt tc sz external)))"

definition talloc_set_destructor :: "addr \<Rightarrow> destructor \<Rightarrow> ('w tstate, unit) prog" where
  "talloc_set_destructor ptr d =
     pthen (talloc_chunk_from_ptr ptr) (upd_chunk ptr (\<lambda>c. c\<lparr>tc_destructor := d\<rparr>))"

definition talloc_set_name_const :: "addr \<Rightarrow> tname \<Rightarrow> ('w tstate, unit) prog" where
  "talloc_set_name_const ptr name =
     pthen (talloc_chunk_from_ptr ptr) (upd_chunk ptr (\<lambda>c. c\<lparr>tc_name := name\<rparr>))"

definition talloc_named_const_nolock :: "addr option \<Rightarrow> u64 \<Rightarrow> tname \<Rightarrow> ('w tstate, addr option) prog" where
  "talloc_named_const_nolock ctxt sz name =
     pbind (talloc_alloc ctxt sz) (\<lambda>ptr.
     case ptr of
       None \<Rightarrow> pret None
     | Some p \<Rightarrow> pthen (talloc_set_name_const p name) (pret ptr))"

definition talloc_named_const :: "addr option \<Rightarrow> u64 \<Rightarrow> tname \<Rightarrow> ('w tstate, addr option) prog" where
  "talloc_named_const ctxt sz name =
     pthen (lock ctxt)
    (pbind (talloc_named_const_nolock ctxt sz name) (\<lambda>p. pthen unlock (pret p)))"

section \<open>Moving\<close>

text \<open>
  Taking a chunk out of the list it is in, as \<open>__talloc_steal\<close> and \<open>_talloc_free\<close> do: the first
  child is the one that knows its parent.
\<close>

definition detach :: "addr \<Rightarrow> ('w tstate, unit) prog" where
  "detach tc =
     pbind (get_chunk tc) (\<lambda>c.
     case tc_parent c of
       Some q \<Rightarrow>
         pthen (tlist_remove_child q tc)
        (pbind (get_chunk q) (\<lambda>qc.
         upd_chunk_opt (tc_child qc) (\<lambda>d. d\<lparr>tc_parent := Some q\<rparr>)))
     | None \<Rightarrow>
         pthen (upd_chunk_opt (tc_prev c) (\<lambda>d. d\<lparr>tc_next := tc_next c\<rparr>))
          (upd_chunk_opt (tc_next c) (\<lambda>d. d\<lparr>tc_prev := tc_prev c\<rparr>)))"

definition talloc_steal_nolock :: "addr option \<Rightarrow> addr option \<Rightarrow> ('w tstate, addr option) prog" where
  "talloc_steal_nolock new_ctx ptr =
     (case ptr of
        None \<Rightarrow> pret None
      | Some tc \<Rightarrow>
          pbind (pgets null_context) (\<lambda>nc.
          let new_ctx = (if new_ctx = None then nc else new_ctx) in
          pbind (talloc_chunk_from_ptr tc) (\<lambda>c.
          case new_ctx of
            None \<Rightarrow>
              pthen (detach tc)
             (pthen (upd_chunk tc (\<lambda>d. d\<lparr>tc_parent := None, tc_next := None, tc_prev := None\<rparr>))
               (pret ptr))
          | Some new_tc \<Rightarrow>
              pbind (talloc_chunk_from_ptr new_tc) (\<lambda>_.
              if tc = new_tc \<or> tc_parent c = Some new_tc then pret ptr
              else
                pthen (detach tc)
               (pthen (upd_chunk tc (\<lambda>d. d\<lparr>tc_parent := Some new_tc\<rparr>))
               (pbind (get_chunk new_tc) (\<lambda>nc.
                pthen (upd_chunk_opt (tc_child nc) (\<lambda>d. d\<lparr>tc_parent := None\<rparr>))
               (pthen (tlist_add_child new_tc tc)
                 (pret ptr)))))))))"

definition talloc_steal :: "addr option \<Rightarrow> addr option \<Rightarrow> ('w tstate, addr option) prog" where
  "talloc_steal new_ctx ptr =
     pthen (lock new_ctx)
    (pbind (talloc_steal_nolock new_ctx ptr) (\<lambda>p. pthen unlock (pret p)))"

text \<open>\<open>_talloc_move\<close>: the caller's pointer, which becomes null, is passed and returned.\<close>

definition talloc_move :: "addr option \<Rightarrow> addr option \<Rightarrow> ('w tstate, addr option \<times> addr option) prog" where
  "talloc_move new_ctx ptr = pbind (talloc_steal new_ctx ptr) (\<lambda>ret. pret (ret, None))"

section \<open>Freeing\<close>

definition talloc_reference_destructor :: "addr \<Rightarrow> ('w tstate, int) prog" where
  "talloc_reference_destructor handle =
     pbind (get_handle handle) (\<lambda>g.
     pthen (talloc_chunk_from_ptr (h_ptr g))
    (pthen (tlist_remove_ref (h_ptr g) handle)
      (pret 0)))"

definition call_destructor :: "destructor \<Rightarrow> addr \<Rightarrow> ('w tstate, int) prog" where
  "call_destructor d p =
     (case d of
        D_reference \<Rightarrow> talloc_reference_destructor p
      | D_autofree \<Rightarrow> pthen (pmodify (\<lambda>h. h\<lparr>autofree_context := None\<rparr>)) (pret 0)
      | D_user f \<Rightarrow>
          pcall (\<lambda>h. case user_destructor h f p (outside h) of (r, w) \<Rightarrow> (r, h\<lparr>outside := w\<rparr>))
      | _ \<Rightarrow> pstop Segv)"

text \<open>
  The part of \<open>_talloc_free\<close> that runs the destructor; the result says whether to go on. While it
  runs the field holds -1, and a destructor that fails is put back.
\<close>

definition run_destructor :: "addr \<Rightarrow> ('w tstate, bool) prog" where
  "run_destructor tc =
     pbind (get_chunk tc) (\<lambda>c.
     case tc_destructor c of
       D_null \<Rightarrow> pret True
     | D_minus_1 \<Rightarrow> pret False
     | d \<Rightarrow>
         pthen (upd_chunk tc (\<lambda>c. c\<lparr>tc_destructor := D_minus_1\<rparr>))
        (pbind (call_destructor d tc) (\<lambda>r.
           if r = -1
           then pthen (upd_chunk tc (\<lambda>c. c\<lparr>tc_destructor := d\<rparr>)) (pret False)
           else pthen (upd_chunk tc (\<lambda>c. c\<lparr>tc_destructor := D_null\<rparr>)) (pret True))))"

text \<open>\<open>free\<close>, or the external pool's function with size 0.\<close>

definition free_chunk :: "addr \<Rightarrow> ('w tstate, unit) prog" where
  "free_chunk a =
     pthen (get_chunk a)
       (pmodify (\<lambda>h. h\<lparr>chunks := (chunks h)(a := None), handles := (handles h)(a := None),
          payload := (payload h)(a := [])\<rparr>))"

text \<open>
  \<open>_talloc_free\<close> and its loop over the children. Each call and each round uses one unit of fuel;
  twice the number of addresses is enough where a tree without references is freed, and what the
  bound is for the other cases is a matter of the caller: a run that uses it up is \<open>Diverge\<close>.
\<close>

fun talloc_free_n :: "nat \<Rightarrow> addr option \<Rightarrow> ('w tstate, int) prog"
and free_children :: "nat \<Rightarrow> addr \<Rightarrow> ('w tstate, unit) prog" where
  "talloc_free_n 0 ptr = pstop Diverge"
| "talloc_free_n (Suc n) ptr =
     (case ptr of
        None \<Rightarrow> pret (-1)
      | Some p \<Rightarrow>
          pbind (talloc_chunk_from_ptr p) (\<lambda>c.
          case tc_refs c of
            Some r \<Rightarrow>
              pbind (talloc_is_parent_nolock (Some r) (Some p)) (\<lambda>is_child.
              pthen (talloc_free_n n (Some r))
              (if is_child then talloc_free_n n (Some p) else pret (-1)))
          | None \<Rightarrow>
              if tc_flags c AND TALLOC_FLAG_LOOP \<noteq> 0 then pret 0
              else
                pbind (run_destructor p) (\<lambda>ok.
                if \<not> ok then pret (-1)
                else
                  pthen (if tc_flags c AND TALLOC_FLAG_EXT_ALLOC \<noteq> 0
                         then pthen (talloc_parent_chunk (Some p)) (pret ()) else pret ())
                 (pthen (detach p)
                 (pthen (upd_chunk p (\<lambda>d. d\<lparr>tc_flags := tc_flags d OR TALLOC_FLAG_LOOP\<rparr>))
                 (pthen (free_children n p)
                 (pthen (upd_chunk p (\<lambda>d. d\<lparr>tc_flags := tc_flags d OR TALLOC_FLAG_FREE\<rparr>))
                 (pthen (free_chunk p)
                   (pret 0)))))))))"
| "free_children 0 tc = pstop Diverge"
| "free_children (Suc n) tc =
     pbind (get_chunk tc) (\<lambda>c.
     case tc_child c of
       None \<Rightarrow> pret ()
     | Some child \<Rightarrow>
         pbind (pgets null_context) (\<lambda>nc.
         pbind (get_chunk child) (\<lambda>kc.
         pbind (case tc_refs kc of
                  None \<Rightarrow> pret nc
                | Some r \<Rightarrow> pbind (talloc_parent_chunk (Some r)) (\<lambda>p.
                    pret (if p = None then nc else p)))
         (\<lambda>new_parent.
         pbind (talloc_free_n n (Some child)) (\<lambda>r.
         pthen
           (if r = -1
            then pbind (if new_parent = nc
                        then pbind (talloc_parent_chunk (Some tc)) (\<lambda>p.
                               pret (if p = None then new_parent else p))
                        else pret new_parent)
                 (\<lambda>new_parent. pthen (talloc_steal_nolock new_parent (Some child)) (pret ()))
            else pret ())
         (free_children n tc))))))"

definition free_fuel :: "'w tstate \<Rightarrow> nat" where
  "free_fuel h = 4 * next_addr h + 4"

definition talloc_free_nolock :: "addr option \<Rightarrow> ('w tstate, int) prog" where
  "talloc_free_nolock ptr = pbind (pgets free_fuel) (\<lambda>n. talloc_free_n n ptr)"

definition talloc_free :: "addr option \<Rightarrow> ('w tstate, int) prog" where
  "talloc_free ptr =
     pthen (lock ptr)
    (pbind (talloc_free_nolock ptr) (\<lambda>ret. pthen unlock (pret ret)))"

section \<open>References\<close>

text \<open>\<open>sizeof(struct talloc_reference_handle)\<close> is 24.\<close>

definition talloc_reference :: "addr option \<Rightarrow> addr option \<Rightarrow> ('w tstate, addr option) prog" where
  "talloc_reference ctxt ptr =
     (case ptr of
        None \<Rightarrow> pret None
      | Some p \<Rightarrow>
          pthen (lock ctxt)
         (pthen (talloc_chunk_from_ptr p)
         (pbind (talloc_named_const_nolock ctxt 24 N_reference) (\<lambda>handle.
          case handle of
            None \<Rightarrow> pthen unlock (pret None)
          | Some g \<Rightarrow>
              pthen (talloc_set_destructor g D_reference)
             (pthen (pmodify (\<lambda>h. h\<lparr>handles := (handles h)(g \<mapsto>
                \<lparr>h_next = None, h_prev = None, h_ptr = p\<rparr>)\<rparr>))
             (pthen (tlist_add_ref p g)
             (pthen unlock
               (pret ptr))))))))"

definition talloc_increase_ref_count :: "addr option \<Rightarrow> ('w tstate, int) prog" where
  "talloc_increase_ref_count ptr =
     pbind (pgets null_context) (\<lambda>nc.
     pbind (talloc_reference nc ptr) (\<lambda>r. pret (if r = None then -1 else 0)))"

text \<open>The handle through which \<open>context\<close> refers to the chunk whose handles start at \<open>h\<close>.\<close>

fun find_handle :: "nat \<Rightarrow> addr option \<Rightarrow> addr option \<Rightarrow> ('w tstate, addr option) prog" where
  "find_handle 0 h ctxt = pstop Diverge"
| "find_handle (Suc n) h ctxt =
     (case h of
        None \<Rightarrow> pret None
      | Some g \<Rightarrow>
          pbind (talloc_parent_chunk (Some g)) (\<lambda>p.
          if p = ctxt then pret (Some g)
          else pbind (get_handle g) (\<lambda>gh. find_handle n (h_next gh) ctxt)))"

definition talloc_unreference :: "addr option \<Rightarrow> addr \<Rightarrow> ('w tstate, int) prog" where
  "talloc_unreference ctxt ptr =
     pbind (talloc_chunk_from_ptr ptr) (\<lambda>c.
     pbind (pgets null_context) (\<lambda>nc.
     let ctxt = (if ctxt = None then nc else ctxt) in
     pbind (pgets next_addr) (\<lambda>n.
     pbind (find_handle (Suc (Suc n)) (tc_refs c) ctxt) (\<lambda>h.
     case h of
       None \<Rightarrow> pret (-1)
     | Some g \<Rightarrow> talloc_free_nolock (Some g)))))"

definition talloc_unlink :: "addr option \<Rightarrow> addr option \<Rightarrow> ('w tstate, int) prog" where
  "talloc_unlink ctxt ptr =
     (case ptr of
        None \<Rightarrow> pret (-1)
      | Some p \<Rightarrow>
          pbind (pgets null_context) (\<lambda>nc.
          let ctxt = (if ctxt = None then nc else ctxt) in
          pthen (lock ctxt)
         (pbind (talloc_unreference ctxt p) (\<lambda>r.
          if r = 0 then pthen unlock (pret 0)
          else
            pthen (case ctxt of None \<Rightarrow> pret () | Some c \<Rightarrow> pthen (talloc_chunk_from_ptr c) (pret ()))
           (pbind (talloc_parent_chunk ptr) (\<lambda>par.
            if par \<noteq> ctxt then pthen unlock (pret (-1))
            else
              pbind (talloc_chunk_from_ptr p) (\<lambda>c.
              case tc_refs c of
                None \<Rightarrow> pbind (talloc_free_nolock ptr) (\<lambda>ret. pthen unlock (pret ret))
              | Some h \<Rightarrow>
                  pbind (talloc_parent_chunk (Some h)) (\<lambda>new_parent.
                  pbind (talloc_unreference new_parent p) (\<lambda>r.
                  if r \<noteq> 0 then pthen unlock (pret (-1))
                  else
                    pthen (talloc_steal_nolock new_parent ptr)
                   (pthen unlock
                     (pret 0)))))))))))"

text \<open>
  \<open>talloc_reference_count\<close> locks \<open>talloc_chunk_from_ptr(ptr)\<close>: a chunk, where \<open>lock\<close> expects the
  memory behind one, so that it looks for a header in front of the header.
\<close>

fun count_handles :: "nat \<Rightarrow> addr option \<Rightarrow> ('w tstate, nat) prog" where
  "count_handles 0 h = pstop Diverge"
| "count_handles (Suc n) h =
     (case h of
        None \<Rightarrow> pret 0
      | Some g \<Rightarrow> pbind (get_handle g) (\<lambda>gh.
          pbind (count_handles n (h_next gh)) (\<lambda>k. pret (Suc k))))"

definition reference_count_nolock :: "addr \<Rightarrow> ('w tstate, nat) prog" where
  "reference_count_nolock ptr =
     pbind (talloc_chunk_from_ptr ptr) (\<lambda>c.
     pbind (pgets next_addr) (\<lambda>n. count_handles (Suc (Suc n)) (tc_refs c)))"

definition talloc_reference_count :: "addr \<Rightarrow> ('w tstate, nat) prog" where
  "talloc_reference_count ptr =
     pthen (talloc_chunk_from_ptr ptr)
    (pbind (pgets tc_lock) (\<lambda>installed.
     if installed then pstop Segv
     else pbind (reference_count_nolock ptr) (\<lambda>k. pthen unlock (pret k))))"

end
