(* ===== verification/Talloc_Tools.thy ===== *)
theory Talloc_Tools
  imports Talloc "HOL-Library.Char_ord"
begin

text \<open>
  The rest of ccan/talloc/talloc.c, built on the operations of the theory Talloc: \<open>realloc\<close>, the
  totals and the report over a subtree, names, strings, arrays, the null and the autofree context
  and external pools.
\<close>

section \<open>Memory contents\<close>

definition put_payload :: "addr \<Rightarrow> u8 list \<Rightarrow> ('w tstate, unit) prog" where
  "put_payload a bs = pmodify (\<lambda>h. h\<lparr>payload := (payload h)(a := bs)\<rparr>)"

text \<open>\<open>memcpy(p + off, bs, length bs)\<close>: outside the memory handed out it is undefined.\<close>

definition write_bytes :: "addr \<Rightarrow> nat \<Rightarrow> u8 list \<Rightarrow> ('w tstate, unit) prog" where
  "write_bytes a off bs =
     pbind (pgets (\<lambda>h. payload h a)) (\<lambda>old.
     if off + length bs \<le> length old
     then put_payload a (take off old @ bs @ drop (off + length bs) old)
     else pstop Segv)"

definition bytes_of_string :: "string \<Rightarrow> u8 list" where
  "bytes_of_string s = map of_char s"

definition string_of_bytes :: "u8 list \<Rightarrow> string" where
  "string_of_bytes bs = map (\<lambda>b. char_of (unat b)) (takeWhile (\<lambda>b. b \<noteq> 0) bs)"

text \<open>Reading the string at \<open>a\<close>: without a NUL in the memory the read runs off its end.\<close>

definition read_cstr :: "addr \<Rightarrow> ('w tstate, string) prog" where
  "read_cstr a =
     pbind (pgets (\<lambda>h. payload h a)) (\<lambda>bs.
     if 0 \<in> set bs then pret (string_of_bytes bs) else pstop Segv)"

section \<open>Reallocating\<close>

text \<open>\<open>realloc\<close>: the block stays or moves, contents kept up to the smaller size, or null.\<close>

definition realloc_chunk :: "addr \<Rightarrow> nat \<Rightarrow> ('w tstate, addr option) prog" where
  "realloc_chunk p sz =
     pbind (pgets (\<lambda>h. (oom h (ticks h), moves h (ticks h)))) (\<lambda>(fails, move).
     pthen (pmodify (\<lambda>h. h\<lparr>ticks := Suc (ticks h)\<rparr>))
     (if fails then pret None
      else
        pbind (get_chunk p) (\<lambda>c.
        pbind (pgets (\<lambda>h. take sz (payload h p) @
                 map (\<lambda>i. junk h (ticks h + i)) [length (payload h p)..<sz])) (\<lambda>bs.
        if \<not> move then pthen (put_payload p bs) (pret (Some p))
        else
          pbind (pgets next_addr) (\<lambda>a.
          pthen (pmodify (\<lambda>h. h\<lparr>chunks := (chunks h)(p := None, a \<mapsto> c),
                   handles := (handles h)(p := None, a := handles h p),
                   payload := (payload h)(p := [], a := bs), next_addr := Suc a\<rparr>))
            (pret (Some a)))))))"

definition talloc_realloc ::
    "addr option \<Rightarrow> addr option \<Rightarrow> u64 \<Rightarrow> tname \<Rightarrow> ('w tstate, addr option) prog" where
  "talloc_realloc ctxt ptr sz name =
     (if sz = 0 then pthen (talloc_free ptr) (pret None)
      else if MAX_TALLOC_SIZE \<le> sz then pret None
      else case ptr of
        None \<Rightarrow> talloc_named_const ctxt sz name
      | Some p \<Rightarrow>
          pbind (talloc_chunk_from_ptr p) (\<lambda>c.
          if tc_refs c \<noteq> None then pret None
          else
            pthen (lock ptr)
           (pthen (if tc_flags c AND TALLOC_FLAG_EXT_ALLOC \<noteq> 0
                   then pthen (talloc_parent_chunk ptr) (pret ()) else pret ())
           (pthen (upd_chunk p (\<lambda>d. d\<lparr>tc_flags := tc_flags d OR TALLOC_FLAG_FREE\<rparr>))
           (pbind (realloc_chunk p (unat sz)) (\<lambda>new.
            case new of
              None \<Rightarrow>
                pthen (upd_chunk p (\<lambda>d. d\<lparr>tc_flags := tc_flags d AND NOT TALLOC_FLAG_FREE\<rparr>))
               (pthen unlock
                 (pret None))
            | Some a \<Rightarrow>
                pthen (upd_chunk a (\<lambda>d. d\<lparr>tc_flags := tc_flags d AND NOT TALLOC_FLAG_FREE\<rparr>))
               (pbind (get_chunk a) (\<lambda>d.
                pthen (upd_chunk_opt (tc_parent d) (\<lambda>q. q\<lparr>tc_child := Some a\<rparr>))
               (pthen (upd_chunk_opt (tc_child d) (\<lambda>k. k\<lparr>tc_parent := Some a\<rparr>))
               (pthen (upd_chunk_opt (tc_prev d) (\<lambda>k. k\<lparr>tc_next := Some a\<rparr>))
               (pthen (upd_chunk_opt (tc_next d) (\<lambda>k. k\<lparr>tc_prev := Some a\<rparr>))
               (pthen (upd_chunk a (\<lambda>k. k\<lparr>tc_size := sz\<rparr>))
               (pthen (talloc_set_name_const a name)
               (pthen unlock
                 (pret (Some a))))))))))))))))"

section \<open>Totals\<close>

text \<open>
  \<open>_talloc_total_size\<close> and \<open>_talloc_total_blocks\<close> are one walk with what a chunk counts for,
  its size or one; a call and a round of its loop each use a unit of fuel.
\<close>

fun total_n :: "nat \<Rightarrow> (talloc_chunk \<Rightarrow> u64) \<Rightarrow> addr \<Rightarrow> ('w tstate, u64) prog"
and total_list :: "nat \<Rightarrow> (talloc_chunk \<Rightarrow> u64) \<Rightarrow> u64 \<Rightarrow> addr option \<Rightarrow> ('w tstate, u64) prog" where
  "total_n 0 count ptr = pstop Diverge"
| "total_n (Suc n) count ptr =
     pbind (talloc_chunk_from_ptr ptr) (\<lambda>tc.
     if tc_flags tc AND TALLOC_FLAG_LOOP \<noteq> 0 then pret 0
     else
       pthen (upd_chunk ptr (\<lambda>c. c\<lparr>tc_flags := tc_flags c OR TALLOC_FLAG_LOOP\<rparr>))
      (pbind (total_list n count (count tc) (tc_child tc)) (\<lambda>total.
       pthen (upd_chunk ptr (\<lambda>c. c\<lparr>tc_flags := tc_flags c AND NOT TALLOC_FLAG_LOOP\<rparr>))
         (pret total))))"
| "total_list 0 count acc c = pstop Diverge"
| "total_list (Suc n) count acc c =
     (case c of
        None \<Rightarrow> pret acc
      | Some a \<Rightarrow>
          pbind (total_n n count a) (\<lambda>t.
          pbind (get_chunk a) (\<lambda>tc. total_list n count (acc + t) (tc_next tc))))"

definition total_nolock :: "(talloc_chunk \<Rightarrow> u64) \<Rightarrow> addr \<Rightarrow> ('w tstate, u64) prog" where
  "total_nolock count ptr = pbind (pgets next_addr) (\<lambda>n. total_n (2 * n + 2) count ptr)"

definition total_size_nolock :: "addr \<Rightarrow> ('w tstate, u64) prog" where
  "total_size_nolock = total_nolock tc_size"

definition total_blocks_nolock :: "addr \<Rightarrow> ('w tstate, u64) prog" where
  "total_blocks_nolock = total_nolock (\<lambda>_. 1)"

definition talloc_total_size :: "addr option \<Rightarrow> ('w tstate, u64) prog" where
  "talloc_total_size ptr =
     pbind (pgets null_context) (\<lambda>nc.
     let ptr = (if ptr = None then nc else ptr) in
     case ptr of
       None \<Rightarrow> pret 0
     | Some p \<Rightarrow>
         pthen (lock ptr)
        (pbind (total_size_nolock p) (\<lambda>total. pthen unlock (pret total))))"

definition talloc_total_blocks :: "addr \<Rightarrow> ('w tstate, u64) prog" where
  "talloc_total_blocks ptr =
     pthen (lock (Some ptr))
    (pbind (total_blocks_nolock ptr) (\<lambda>total. pthen unlock (pret total)))"

section \<open>Sizes and names\<close>

definition talloc_get_size :: "addr option \<Rightarrow> ('w tstate, u64) prog" where
  "talloc_get_size ctxt =
     (case ctxt of
        None \<Rightarrow> pret 0
      | Some p \<Rightarrow> pbind (talloc_chunk_from_ptr p) (\<lambda>tc. pret (tc_size tc)))"

definition talloc_get_name :: "addr \<Rightarrow> ('w tstate, string) prog" where
  "talloc_get_name ptr =
     pbind (talloc_chunk_from_ptr ptr) (\<lambda>tc.
     case tc_name tc of
       N_reference \<Rightarrow> pret ''.reference''
     | N_null \<Rightarrow> pret ''UNNAMED''
     | N_const s \<Rightarrow> pret s
     | N_chunk a \<Rightarrow> read_cstr a)"

definition talloc_check_name :: "addr option \<Rightarrow> string \<Rightarrow> ('w tstate, addr option) prog" where
  "talloc_check_name ptr name =
     (case ptr of
        None \<Rightarrow> pret None
      | Some p \<Rightarrow> pbind (talloc_get_name p) (\<lambda>pname. pret (if pname = name then ptr else None)))"

text \<open>
  The walk of \<open>talloc_find_parent_byname\<close>. A chunk whose name is \<open>TALLOC_MAGIC_REFERENCE\<close>, the
  address 1, is handed to \<open>strcmp\<close> as it is.
\<close>

definition name_equals :: "tname \<Rightarrow> string \<Rightarrow> ('w tstate, bool) prog" where
  "name_equals t name =
     (case t of
        N_null \<Rightarrow> pret False
      | N_reference \<Rightarrow> pstop Segv
      | N_const s \<Rightarrow> pret (s = name)
      | N_chunk a \<Rightarrow> pbind (read_cstr a) (\<lambda>s. pret (s = name)))"

fun find_byname :: "nat \<Rightarrow> addr option \<Rightarrow> string \<Rightarrow> ('w tstate, addr option) prog" where
  "find_byname 0 tc name = pstop Diverge"
| "find_byname (Suc n) tc name =
     (case tc of
        None \<Rightarrow> pret None
      | Some a \<Rightarrow>
          pbind (get_chunk a) (\<lambda>c.
          pbind (name_equals (tc_name c) name) (\<lambda>eq.
          if eq then pret (Some a)
          else
            pbind (pgets next_addr) (\<lambda>m.
            pbind (first_sibling (Suc m) a) (\<lambda>c. find_byname n (tc_parent c) name)))))"

definition talloc_find_parent_byname ::
    "addr option \<Rightarrow> string \<Rightarrow> ('w tstate, addr option) prog" where
  "talloc_find_parent_byname ctxt name =
     (case ctxt of
        None \<Rightarrow> pret None
      | Some p \<Rightarrow>
          pthen (lock ctxt)
         (pthen (talloc_chunk_from_ptr p)
         (pbind (pgets next_addr) (\<lambda>n.
          pbind (find_byname (Suc (Suc n)) ctxt name) (\<lambda>r.
          pthen unlock (pret r))))))"

section \<open>Reports\<close>

text \<open>
  \<open>_talloc_report_depth_cb\<close>: the callback is called with the pointer, its depth, the greatest depth
  and whether it stands for a reference; what the calls print is collected in their order.
\<close>

type_synonym ('w, 'r) report_callback = "addr \<Rightarrow> int \<Rightarrow> int \<Rightarrow> bool \<Rightarrow> ('w tstate, 'r list) prog"

fun report_n :: "nat \<Rightarrow> addr \<Rightarrow> int \<Rightarrow> int \<Rightarrow> ('w, 'r) report_callback \<Rightarrow> ('w tstate, 'r list) prog"
and report_list ::
    "nat \<Rightarrow> addr option \<Rightarrow> int \<Rightarrow> int \<Rightarrow> ('w, 'r) report_callback \<Rightarrow> ('w tstate, 'r list) prog" where
  "report_n 0 ptr depth max_depth cb = pstop Diverge"
| "report_n (Suc n) ptr depth max_depth cb =
     pbind (talloc_chunk_from_ptr ptr) (\<lambda>tc.
     if tc_flags tc AND TALLOC_FLAG_LOOP \<noteq> 0 then pret []
     else
       pbind (cb ptr depth max_depth False) (\<lambda>line.
       if 0 \<le> max_depth \<and> max_depth \<le> depth then pret line
       else
         pthen (upd_chunk ptr (\<lambda>c. c\<lparr>tc_flags := tc_flags c OR TALLOC_FLAG_LOOP\<rparr>))
        (pbind (report_list n (tc_child tc) depth max_depth cb) (\<lambda>rs.
         pthen (upd_chunk ptr (\<lambda>c. c\<lparr>tc_flags := tc_flags c AND NOT TALLOC_FLAG_LOOP\<rparr>))
           (pret (line @ rs))))))"
| "report_list 0 c depth max_depth cb = pstop Diverge"
| "report_list (Suc n) c depth max_depth cb =
     (case c of
        None \<Rightarrow> pret []
      | Some a \<Rightarrow>
          pbind (get_chunk a) (\<lambda>tc.
          pbind (if tc_name tc = N_reference
                 then pbind (get_handle a) (\<lambda>g. cb (h_ptr g) (depth + 1) max_depth True)
                 else report_n n a (depth + 1) max_depth cb) (\<lambda>rs.
          pbind (get_chunk a) (\<lambda>tc.
          pbind (report_list n (tc_next tc) depth max_depth cb) (\<lambda>rs'. pret (rs @ rs'))))))"

definition talloc_report_depth_cb ::
    "addr option \<Rightarrow> int \<Rightarrow> int \<Rightarrow> ('w, 'r) report_callback \<Rightarrow> ('w tstate, 'r list) prog" where
  "talloc_report_depth_cb ptr depth max_depth cb =
     pbind (pgets null_context) (\<lambda>nc.
     let ptr = (if ptr = None then nc else ptr) in
     case ptr of
       None \<Rightarrow> pret []
     | Some p \<Rightarrow>
         pthen (lock ptr)
        (pbind (pgets next_addr) (\<lambda>n.
         pbind (report_n (2 * n + 2) p depth max_depth cb) (\<lambda>rs. pthen unlock (pret rs)))))"

text \<open>The lines that \<open>talloc_report_depth_FILE_helper\<close> prints, by the format they are printed with.\<close>

datatype report_line =
    L_reference int string
  | L_pool bool string u64 u64
  | L_block int string u64 u64 nat addr

definition report_depth_FILE_helper :: "('w, report_line) report_callback" where
  "report_depth_FILE_helper ptr depth max_depth is_ref =
     pbind (talloc_get_name ptr) (\<lambda>name.
     if is_ref then pret [L_reference (depth * 4) name]
     else
       pbind (total_size_nolock ptr) (\<lambda>bytes.
       pbind (total_blocks_nolock ptr) (\<lambda>blocks.
       if depth = 0 then pret [L_pool (max_depth < 0) name bytes blocks]
       else
         pbind (reference_count_nolock ptr) (\<lambda>count.
         pret [L_block (depth * 4) name bytes blocks count ptr]))))"

definition talloc_report_depth_file ::
    "addr option \<Rightarrow> int \<Rightarrow> int \<Rightarrow> ('w tstate, report_line list) prog" where
  "talloc_report_depth_file ptr depth max_depth =
     talloc_report_depth_cb ptr depth max_depth report_depth_FILE_helper"

definition talloc_report_full :: "addr option \<Rightarrow> ('w tstate, report_line list) prog" where
  "talloc_report_full ptr = talloc_report_depth_file ptr 0 (-1)"

definition talloc_report :: "addr option \<Rightarrow> ('w tstate, report_line list) prog" where
  "talloc_report ptr = talloc_report_depth_file ptr 0 1"

text \<open>The two functions that \<open>atexit\<close> is given to report leaks; the result is printed on stderr.\<close>

definition talloc_report_null :: "('w tstate, report_line list) prog" where
  "talloc_report_null =
     pbind (pgets null_context) (\<lambda>nc.
     pbind (talloc_total_size nc) (\<lambda>total.
     if total \<noteq> 0 then talloc_report nc else pret []))"

definition talloc_report_null_full :: "('w tstate, report_line list) prog" where
  "talloc_report_null_full =
     pbind (pgets null_context) (\<lambda>nc.
     pbind (talloc_total_size nc) (\<lambda>total.
     if total \<noteq> 0 then talloc_report_full nc else pret []))"

text \<open>\<open>talloc_show_parents\<close>: the names it prints, the first one as the heading.\<close>

fun show_parents :: "nat \<Rightarrow> addr option \<Rightarrow> ('w tstate, string list) prog" where
  "show_parents 0 tc = pstop Diverge"
| "show_parents (Suc n) tc =
     (case tc of
        None \<Rightarrow> pret []
      | Some a \<Rightarrow>
          pbind (talloc_get_name a) (\<lambda>name.
          pbind (pgets next_addr) (\<lambda>m.
          pbind (first_sibling (Suc m) a) (\<lambda>c.
          pbind (show_parents n (tc_parent c)) (\<lambda>names. pret (name # names))))))"

definition talloc_show_parents :: "addr option \<Rightarrow> ('w tstate, string list) prog" where
  "talloc_show_parents ctxt =
     (case ctxt of
        None \<Rightarrow> pret []
      | Some p \<Rightarrow>
          pthen (lock ctxt)
         (pthen (talloc_chunk_from_ptr p)
         (pbind (talloc_get_name p) (\<lambda>name.
          pbind (pgets next_addr) (\<lambda>n.
          pbind (show_parents (Suc (Suc n)) ctxt) (\<lambda>names.
          pthen unlock (pret (name # names))))))))"

section \<open>Contents\<close>

definition talloc_zero :: "addr option \<Rightarrow> u64 \<Rightarrow> tname \<Rightarrow> ('w tstate, addr option) prog" where
  "talloc_zero ctx sz name =
     pbind (talloc_named_const ctx sz name) (\<lambda>p.
     case p of
       None \<Rightarrow> pret None
     | Some a \<Rightarrow> pthen (write_bytes a 0 (replicate (unat sz) 0)) (pret p))"

definition talloc_memdup ::
    "addr option \<Rightarrow> u8 list \<Rightarrow> tname \<Rightarrow> ('w tstate, addr option) prog" where
  "talloc_memdup t bs name =
     pbind (talloc_named_const t (of_nat (length bs)) name) (\<lambda>p.
     case p of
       None \<Rightarrow> pret None
     | Some a \<Rightarrow> pthen (write_bytes a 0 bs) (pret p))"

definition talloc_strdup :: "addr option \<Rightarrow> string option \<Rightarrow> ('w tstate, addr option) prog" where
  "talloc_strdup t p =
     (case p of
        None \<Rightarrow> pret None
      | Some s \<Rightarrow>
          pbind (talloc_memdup t (bytes_of_string s @ [0]) (N_const ''char'')) (\<lambda>ret.
          case ret of
            None \<Rightarrow> pret None
          | Some a \<Rightarrow> pthen (talloc_set_name_const a (N_chunk a)) (pret ret)))"

definition talloc_strndup ::
    "addr option \<Rightarrow> string \<Rightarrow> u64 \<Rightarrow> ('w tstate, addr option) prog" where
  "talloc_strndup t p n =
     (let s = take (unat n) p; len = length s in
     pthen (lock t)
    (pbind (talloc_alloc t (of_nat len + 1)) (\<lambda>ret.
     pthen unlock
    (case ret of
       None \<Rightarrow> pret None
     | Some a \<Rightarrow>
         pthen (write_bytes a 0 (bytes_of_string s))
        (pthen (write_bytes a len [0])
        (pthen (talloc_set_name_const a (N_chunk a))
          (pret ret)))))))"

text \<open>\<open>talloc_vasprintf\<close>, with what \<open>vsnprintf\<close> makes of the format: a string, or an error.\<close>

definition talloc_vasprintf ::
    "addr option \<Rightarrow> string option \<Rightarrow> ('w tstate, addr option) prog" where
  "talloc_vasprintf t formatted =
     (case formatted of
        None \<Rightarrow> pret None
      | Some s \<Rightarrow>
          pthen (lock t)
         (pbind (talloc_alloc t (of_nat (length s) + 1)) (\<lambda>ret.
          pthen unlock
         (case ret of
            None \<Rightarrow> pret None
          | Some a \<Rightarrow>
              pthen (write_bytes a 0 (bytes_of_string s @ [0]))
             (pthen (talloc_set_name_const a (N_chunk a))
               (pret ret))))))"

definition talloc_set_name :: "addr \<Rightarrow> string option \<Rightarrow> ('w tstate, addr option) prog" where
  "talloc_set_name ptr formatted =
     pthen (talloc_chunk_from_ptr ptr)
    (pbind (talloc_vasprintf (Some ptr) formatted) (\<lambda>name.
     pthen (upd_chunk ptr (\<lambda>c. c\<lparr>tc_name := (case name of None \<Rightarrow> N_null | Some a \<Rightarrow> N_chunk a)\<rparr>))
    (case name of
       None \<Rightarrow> pret None
     | Some a \<Rightarrow> pthen (talloc_set_name_const a (N_const ''.name'')) (pret name))))"

definition talloc_named ::
    "addr option \<Rightarrow> u64 \<Rightarrow> string option \<Rightarrow> ('w tstate, addr option) prog" where
  "talloc_named ctxt sz formatted =
     pthen (lock ctxt)
    (pbind (talloc_alloc ctxt sz) (\<lambda>ptr.
     pthen unlock
    (case ptr of
       None \<Rightarrow> pret None
     | Some p \<Rightarrow>
         pbind (talloc_set_name p formatted) (\<lambda>name.
         if name = None then pthen (talloc_free ptr) (pret None) else pret ptr))))"

definition talloc_asprintf :: "addr option \<Rightarrow> string option \<Rightarrow> ('w tstate, addr option) prog" where
  "talloc_asprintf t formatted = talloc_vasprintf t formatted"

section \<open>Strings that grow, arrays\<close>

text \<open>
  The array functions: \<open>MAX_TALLOC_SIZE / el_size\<close> is a division of \<open>size_t\<close> values, undefined
  for an element size of zero, and \<open>el_size * count\<close> is a product of \<open>size_t\<close> values.
\<close>

definition array_too_big :: "u64 \<Rightarrow> u32 \<Rightarrow> ('w tstate, bool) prog" where
  "array_too_big el_size count =
     (if el_size = 0 then pstop Segv else pret (MAX_TALLOC_SIZE div el_size \<le> ucast count))"

definition talloc_array ::
    "addr option \<Rightarrow> u64 \<Rightarrow> u32 \<Rightarrow> tname \<Rightarrow> ('w tstate, addr option) prog" where
  "talloc_array ctx el_size count name =
     pbind (array_too_big el_size count) (\<lambda>big.
     if big then pret None else talloc_named_const ctx (el_size * ucast count) name)"

definition talloc_zero_array ::
    "addr option \<Rightarrow> u64 \<Rightarrow> u32 \<Rightarrow> tname \<Rightarrow> ('w tstate, addr option) prog" where
  "talloc_zero_array ctx el_size count name =
     pbind (array_too_big el_size count) (\<lambda>big.
     if big then pret None else talloc_zero ctx (el_size * ucast count) name)"

definition talloc_realloc_array ::
    "addr option \<Rightarrow> addr option \<Rightarrow> u64 \<Rightarrow> u32 \<Rightarrow> tname \<Rightarrow> ('w tstate, addr option) prog" where
  "talloc_realloc_array ctx ptr el_size count name =
     pbind (array_too_big el_size count) (\<lambda>big.
     if big then pret None else talloc_realloc ctx ptr (el_size * ucast count) name)"

text \<open>\<open>talloc_realloc(NULL, orig, char, n)\<close> passes the number of elements as an \<open>unsigned\<close>.\<close>

definition talloc_append_string ::
    "addr \<Rightarrow> string option \<Rightarrow> ('w tstate, addr option) prog" where
  "talloc_append_string orig app =
     pbind (read_cstr orig) (\<lambda>s.
     case app of
       None \<Rightarrow> pret (Some orig)
     | Some t \<Rightarrow>
         let olen = length s; alenz = length t + 1 in
         pbind (talloc_realloc_array None (Some orig) 1 (of_nat (olen + alenz)) (N_const ''char''))
         (\<lambda>ret.
         case ret of
           None \<Rightarrow> pret None
         | Some a \<Rightarrow>
             pthen (write_bytes a olen (bytes_of_string t @ [0]))
            (pthen (talloc_set_name_const a (N_chunk a))
              (pret ret))))"

text \<open>
  \<open>talloc_vasprintf_append\<close> appends behind the last byte of the block, not behind the end of the
  string in it: the two differ when the block is larger than its string needs.
\<close>

definition talloc_vasprintf_append ::
    "addr option \<Rightarrow> string option \<Rightarrow> ('w tstate, addr option) prog" where
  "talloc_vasprintf_append s formatted =
     (case s of
        None \<Rightarrow> talloc_vasprintf None formatted
      | Some p \<Rightarrow>
          pbind (talloc_chunk_from_ptr p) (\<lambda>tc.
          let s_len = ucast (tc_size tc - 1) :: u32 in
          case formatted of
            None \<Rightarrow> pret s
          | Some t \<Rightarrow>
              if t = [] then pret s
              else
                pbind (talloc_realloc_array None s 1 (s_len + of_nat (length t) + 1) (N_const ''char''))
                (\<lambda>ret.
                case ret of
                  None \<Rightarrow> pret None
                | Some a \<Rightarrow>
                    pthen (if sint s_len < 0 then pstop Segv
                           else write_bytes a (unat s_len) (bytes_of_string t @ [0]))
                   (pthen (talloc_set_name_const a (N_chunk a))
                     (pret ret)))))"

definition talloc_asprintf_append :: "addr option \<Rightarrow> string option \<Rightarrow> ('w tstate, addr option) prog" where
  "talloc_asprintf_append s formatted = talloc_vasprintf_append s formatted"

definition talloc_realloc_fn :: "addr option \<Rightarrow> addr option \<Rightarrow> u64 \<Rightarrow> ('w tstate, addr option) prog" where
  "talloc_realloc_fn ctxt ptr sz = talloc_realloc ctxt ptr sz N_null"

section \<open>Null tracking, the autofree context, external pools\<close>

definition talloc_enable_null_tracking :: "('w tstate, unit) prog" where
  "talloc_enable_null_tracking =
     pbind (pgets null_context) (\<lambda>nc.
     if nc = None
     then pbind (talloc_named_const_nolock None 0 (N_const ''null_context'')) (\<lambda>p.
          pmodify (\<lambda>h. h\<lparr>null_context := p\<rparr>))
     else pret ())"

definition talloc_disable_null_tracking :: "('w tstate, unit) prog" where
  "talloc_disable_null_tracking =
     pbind (pgets null_context) (\<lambda>nc.
     pthen (talloc_free_nolock nc)
       (pmodify (\<lambda>h. h\<lparr>null_context := None\<rparr>)))"

definition at_exit :: "exit_handler \<Rightarrow> ('w tstate, unit) prog" where
  "at_exit x = pmodify (\<lambda>h. h\<lparr>exit_handlers := x # exit_handlers h\<rparr>)"

definition talloc_enable_leak_report :: "('w tstate, unit) prog" where
  "talloc_enable_leak_report = pthen talloc_enable_null_tracking (at_exit X_report_null)"

definition talloc_enable_leak_report_full :: "('w tstate, unit) prog" where
  "talloc_enable_leak_report_full = pthen talloc_enable_null_tracking (at_exit X_report_null_full)"

definition talloc_init :: "string option \<Rightarrow> ('w tstate, addr option) prog" where
  "talloc_init formatted =
     pthen talloc_enable_null_tracking
    (pbind (talloc_alloc None 0) (\<lambda>ptr.
     case ptr of
       None \<Rightarrow> pret None
     | Some p \<Rightarrow>
         pbind (talloc_set_name p formatted) (\<lambda>name.
         if name = None then pthen (talloc_free ptr) (pret None) else pret ptr)))"

text \<open>The autofree context holds the process number that made it.\<close>

definition autofree_pid :: "addr \<Rightarrow> ('w tstate, u32) prog" where
  "autofree_pid a =
     pbind (pgets (\<lambda>h. payload h a)) (\<lambda>bs.
     case bs of
       [b0, b1, b2, b3] \<Rightarrow> pret (int_of_bytes b0 b1 b2 b3)
     | _ \<Rightarrow> pstop Segv)"

definition talloc_autofree :: "u32 \<Rightarrow> ('w tstate, unit) prog" where
  "talloc_autofree getpid =
     pbind (pgets autofree_context) (\<lambda>ac.
     case ac of
       None \<Rightarrow> pret ()
     | Some a \<Rightarrow> pbind (autofree_pid a) (\<lambda>pid.
         if pid = getpid then pthen (talloc_free ac) (pret ()) else pret ()))"

definition talloc_autofree_context :: "u32 \<Rightarrow> ('w tstate, addr option) prog" where
  "talloc_autofree_context getpid =
     pbind (pgets autofree_context) (\<lambda>ac.
     pthen
       (pbind (case ac of None \<Rightarrow> pret True
               | Some a \<Rightarrow> pbind (autofree_pid a) (\<lambda>pid. pret (pid \<noteq> getpid))) (\<lambda>make.
        if \<not> make then pret ()
        else
          pbind (talloc_named_const None 4 (N_const ''pid_t'')) (\<lambda>p.
          pthen (pmodify (\<lambda>h. h\<lparr>autofree_context := p\<rparr>))
         (case p of
            None \<Rightarrow> pstop Segv
          | Some a \<Rightarrow>
              pthen (write_bytes a 0 (bytes_of_int getpid))
             (pthen (talloc_set_name_const a (N_const ''autofree_context''))
             (pthen (talloc_set_destructor a D_autofree)
               (at_exit X_autofree)))))))
     (pgets autofree_context))"

text \<open>
  \<open>talloc_add_external\<close>: the functions of the pool are named by a number (\<open>realloc\<close>) and by
  whether there is one (\<open>lock\<close>).
\<close>

definition talloc_add_external ::
    "addr option \<Rightarrow> nat \<Rightarrow> bool \<Rightarrow> ('w tstate, addr option) prog" where
  "talloc_add_external ctx realloc_fn lock_fn =
     pbind (pgets external_realloc) (\<lambda>old.
     if old \<noteq> None \<and> old \<noteq> Some realloc_fn then pstop Abort
     else
       pthen (pmodify (\<lambda>h. h\<lparr>external_realloc := Some realloc_fn\<rparr>))
      (pbind (case ctx of
                None \<Rightarrow> pret None
              | Some c \<Rightarrow> pthen (talloc_chunk_from_ptr c) (pret ctx)) (\<lambda>parent.
       pbind (malloc_chunk 0) (\<lambda>tc.
       pbind (init_talloc parent tc 0 True) (\<lambda>p.
       pthen (pmodify (\<lambda>h. h\<lparr>tc_lock := lock_fn\<rparr>))
         (pret p))))))"

end
