(* ===== verification/Siblings.thy ===== *)
theory Siblings
  imports Main
begin

text \<open>
  The neighbours of an element in a list without repetitions: what the \<open>next\<close> and \<open>prev\<close> fields of
  a doubly linked list hold, and how they change when an element is put in front or taken out.
\<close>

definition hd_opt :: "'a list \<Rightarrow> 'a option" where
  "hd_opt xs = (case xs of [] \<Rightarrow> None | x # _ \<Rightarrow> Some x)"

fun succ_in :: "'a list \<Rightarrow> 'a \<Rightarrow> 'a option" where
  "succ_in [] x = None"
| "succ_in (y # ys) x = (if x = y then hd_opt ys else succ_in ys x)"

fun pred_from :: "'a option \<Rightarrow> 'a list \<Rightarrow> 'a \<Rightarrow> 'a option" where
  "pred_from p [] x = None"
| "pred_from p (y # ys) x = (if x = y then p else pred_from (Some y) ys x)"

abbreviation pred_in :: "'a list \<Rightarrow> 'a \<Rightarrow> 'a option" where
  "pred_in \<equiv> pred_from None"

definition without :: "'a \<Rightarrow> 'a list \<Rightarrow> 'a list" where
  "without a xs = filter (\<lambda>b. b \<noteq> a) xs"

lemma hd_opt_simps [simp]: "hd_opt [] = None" "hd_opt (x # xs) = Some x"
  by (simp_all add: hd_opt_def)

lemma hd_opt_None [simp]: "hd_opt xs = None \<longleftrightarrow> xs = []"
  by (cases xs) simp_all

lemma hd_opt_in: "hd_opt xs = Some x \<Longrightarrow> x \<in> set xs"
  by (cases xs) simp_all

lemma succ_in_set: "succ_in xs x = Some y \<Longrightarrow> y \<in> set xs"
  by (induction xs) (auto split: if_splits dest: hd_opt_in)

lemma succ_in_notin [simp]: "x \<notin> set xs \<Longrightarrow> succ_in xs x = None"
  by (induction xs) auto

lemma pred_from_notin [simp]: "x \<notin> set xs \<Longrightarrow> pred_from p xs x = None"
  by (induction xs arbitrary: p) auto

lemma pred_from_set: "pred_from p xs x = Some y \<Longrightarrow> y \<in> set xs \<or> p = Some y"
  by (induction xs arbitrary: p) (auto split: if_splits)

lemma pred_in_set: "pred_in xs x = Some y \<Longrightarrow> y \<in> set xs"
  using pred_from_set by fastforce

lemma pred_from_None: "pred_from (Some p) xs x = None \<longleftrightarrow> x \<notin> set xs"
  by (induction xs arbitrary: p) auto

lemma pred_in_None: "x \<in> set xs \<Longrightarrow> distinct xs \<Longrightarrow> pred_in xs x = None \<longleftrightarrow> hd_opt xs = Some x"
  by (cases xs) (auto simp: pred_from_None)

lemma succ_pred_from:
  "distinct xs \<Longrightarrow> p \<noteq> Some x \<Longrightarrow> (\<And>z. p = Some z \<Longrightarrow> z \<notin> set xs) \<Longrightarrow>
   succ_in xs x = Some y \<longleftrightarrow> y \<in> set xs \<and> pred_from p xs y = Some x"
proof (induction xs arbitrary: p)
  case (Cons z xs)
  show ?case
  proof (cases "x = z")
    case True
    with Cons.prems show ?thesis by (cases xs) (auto dest: pred_from_set)
  next
    case False
    with Cons.prems have "succ_in xs x = Some y \<longleftrightarrow> y \<in> set xs \<and> pred_from (Some z) xs y = Some x"
      by (intro Cons.IH) auto
    with False Cons.prems show ?thesis by auto
  qed
qed simp

lemma succ_pred_in: "distinct xs \<Longrightarrow> succ_in xs x = Some y \<longleftrightarrow> pred_in xs y = Some x"
  using succ_pred_from [of xs None x y] pred_from_notin [of y xs None] by auto

lemma pred_succ_from:
  "distinct xs \<Longrightarrow> (\<And>z. p = Some z \<Longrightarrow> z \<notin> set xs) \<Longrightarrow> succ_in xs a = Some b \<Longrightarrow>
   pred_from p xs a \<noteq> Some b"
proof (induction xs arbitrary: p)
  case (Cons z xs)
  show ?case
  proof (cases "a = z")
    case True
    with Cons.prems have "b \<in> set xs" by (auto dest: hd_opt_in)
    with Cons.prems True show ?thesis by auto
  next
    case False
    with Cons.prems have "pred_from (Some z) xs a \<noteq> Some b" by (intro Cons.IH) auto
    with False show ?thesis by simp
  qed
qed simp

lemma pred_ne_succ: "distinct xs \<Longrightarrow> succ_in xs a = Some b \<Longrightarrow> pred_in xs a \<noteq> Some b"
  by (rule pred_succ_from) auto

lemma succ_in_irrefl: "distinct xs \<Longrightarrow> succ_in xs x \<noteq> Some x"
  by (induction xs) (auto dest: hd_opt_in)

lemma pred_in_irrefl: "distinct xs \<Longrightarrow> pred_in xs x \<noteq> Some x"
  using succ_pred_in [of xs x x] succ_in_irrefl [of xs x] by auto

subsection \<open>Taking an element out\<close>

lemma set_without [simp]: "set (without a xs) = set xs - {a}"
  by (auto simp: without_def)

lemma distinct_without [simp]: "distinct xs \<Longrightarrow> distinct (without a xs)"
  by (simp add: without_def)

lemma without_notin [simp]: "a \<notin> set xs \<Longrightarrow> without a xs = xs"
  by (auto simp: without_def intro!: filter_True)

lemma without_simps [simp]:
  "without a [] = []" "without a (x # xs) = (if x = a then without a xs else x # without a xs)"
  by (simp_all add: without_def)

lemma hd_opt_without:
  "distinct xs \<Longrightarrow> hd_opt (without a xs) = (if hd_opt xs = Some a then succ_in xs a else hd_opt xs)"
  by (cases xs) auto

lemma succ_in_without:
  "distinct xs \<Longrightarrow> x \<noteq> a \<Longrightarrow>
   succ_in (without a xs) x = (if succ_in xs x = Some a then succ_in xs a else succ_in xs x)"
  by (induction xs) (auto simp: hd_opt_without)

lemma pred_from_without:
  "distinct xs \<Longrightarrow> x \<noteq> a \<Longrightarrow> p \<noteq> Some a \<Longrightarrow>
   pred_from p (without a xs) x = (if pred_from p xs x = Some a then pred_from p xs a else pred_from p xs x)"
proof (induction xs arbitrary: p)
  case (Cons z xs)
  show ?case
  proof (cases "z = a")
    case True
    with Cons.prems have "without a xs = xs" by simp
    moreover have "pred_from p xs x = (if pred_from (Some a) xs x = Some a then p else pred_from (Some a) xs x)"
      if "a \<notin> set xs" "p \<noteq> Some a"
      using that by (cases xs) (auto dest: pred_from_set)
    ultimately show ?thesis using True Cons.prems by auto
  qed (use Cons in auto)
qed simp

subsection \<open>Putting an element in front\<close>

lemma succ_in_Cons: "x \<noteq> a \<Longrightarrow> succ_in (a # xs) x = succ_in xs x"
  by simp

lemma pred_in_Cons:
  "distinct xs \<Longrightarrow> x \<noteq> a \<Longrightarrow>
   pred_in (a # xs) x = (if hd_opt xs = Some x then Some a else pred_in xs x)"
  by (cases xs) auto

end
