(* ===== verification/Talloc_Rep.thy ===== *)
theory Talloc_Rep
  imports Talloc_Tools Siblings
begin

text \<open>
  What the pointers of talloc's chunks stand for: a forest, given by the list of children of every
  chunk (\<open>K\<close>, newest first), and for every chunk the list of the handles that refer to it (\<open>R\<close>).
  \<open>rep X h K R\<close> says that the chunks of \<open>h\<close> represent them, where the chunks of \<open>X\<close> have been
  taken out of their list and are being freed.
\<close>

type_synonym links = "addr \<Rightarrow> addr list"

definition kid :: "links \<Rightarrow> (addr \<times> addr) set" where
  "kid K = {(b, a). b \<in> set (K a)}"

text \<open>Lists without repetitions, pairwise disjoint, of members and below members of \<open>D\<close> only.\<close>

definition lists_ok :: "addr set \<Rightarrow> links \<Rightarrow> bool" where
  "lists_ok D K \<longleftrightarrow> (\<forall>a. distinct (K a) \<and> set (K a) \<subseteq> D \<and> (a \<notin> D \<longrightarrow> K a = [])) \<and>
     (\<forall>a b x. x \<in> set (K a) \<and> x \<in> set (K b) \<longrightarrow> a = b)"

definition forest :: "addr set \<Rightarrow> links \<Rightarrow> bool" where
  "forest D K \<longleftrightarrow> lists_ok D K \<and> acyclic (kid K)"

definition is_root :: "links \<Rightarrow> addr \<Rightarrow> bool" where
  "is_root K a \<longleftrightarrow> (\<forall>p. a \<notin> set (K p))"

text \<open>The links a chunk holds as a child: the first child alone knows the parent.\<close>

definition own_ok :: "links \<Rightarrow> addr \<Rightarrow> talloc_chunk \<Rightarrow> bool" where
  "own_ok K a c \<longleftrightarrow>
     (\<forall>p. a \<in> set (K p) \<longrightarrow> tc_next c = succ_in (K p) a \<and> tc_prev c = pred_in (K p) a \<and>
        tc_parent c = (if hd_opt (K p) = Some a then Some p else None)) \<and>
     (is_root K a \<longrightarrow> tc_next c = None \<and> tc_prev c = None \<and> tc_parent c = None)"

definition magic_ok :: "talloc_chunk \<Rightarrow> bool" where
  "magic_ok c \<longleftrightarrow> tc_flags c AND (TALLOC_FLAG_FREE OR NOT 0xF) = TALLOC_MAGIC"

definition chunk_ok :: "addr set \<Rightarrow> links \<Rightarrow> links \<Rightarrow> addr \<Rightarrow> talloc_chunk \<Rightarrow> bool" where
  "chunk_ok X K R a c \<longleftrightarrow>
     tc_child c = hd_opt (K a) \<and> tc_refs c = hd_opt (R a) \<and>
     tc_destructor c \<noteq> D_minus_1 \<and> (tc_destructor c = D_reference \<longleftrightarrow> \<not> is_root R a) \<and>
     (if a \<in> X then magic_ok c \<and> is_root K a else own_ok K a c \<and> tc_flags c = TALLOC_MAGIC)"

definition handle_ok :: "links \<Rightarrow> addr \<Rightarrow> addr \<Rightarrow> talloc_reference_handle \<Rightarrow> bool" where
  "handle_ok R q g r \<longleftrightarrow>
     h_next r = succ_in (R q) g \<and> h_prev r = pred_in (R q) g \<and> h_ptr r = q"

definition world_ok :: "'w tstate \<Rightarrow> bool" where
  "world_ok h \<longleftrightarrow> \<not> tc_lock h \<and> \<not> locked h \<and>
     (\<forall>a. null_context h = Some a \<longrightarrow> chunks h a \<noteq> None) \<and>
     (\<forall>a. chunks h a \<noteq> None \<longrightarrow> a < next_addr h)"

definition rep :: "addr set \<Rightarrow> 'w tstate \<Rightarrow> links \<Rightarrow> links \<Rightarrow> bool" where
  "rep X h K R \<longleftrightarrow> forest (dom (chunks h)) K \<and> lists_ok (dom (chunks h)) R \<and>
     (\<forall>a c. chunks h a = Some c \<longrightarrow> chunk_ok X K R a c) \<and>
     (\<forall>q g. g \<in> set (R q) \<longrightarrow> (\<exists>r. handles h g = Some r \<and> handle_ok R q g r)) \<and>
     world_ok h"

section \<open>The forest\<close>

lemma lists_okD:
  assumes "lists_ok D K"
  shows "distinct (K a)" and "x \<in> set (K a) \<Longrightarrow> x \<in> D" and "x \<in> set (K a) \<Longrightarrow> a \<in> D"
    and "x \<in> set (K a) \<Longrightarrow> x \<in> set (K b) \<Longrightarrow> a = b" and "a \<notin> D \<Longrightarrow> K a = []"
  using assms unfolding lists_ok_def by (blast, blast, fastforce, blast, blast)

lemma forestD: "forest D K \<Longrightarrow> lists_ok D K" "forest D K \<Longrightarrow> acyclic (kid K)"
  by (simp_all add: forest_def)

lemma acyclic_irrefl: "acyclic (kid K) \<Longrightarrow> a \<notin> set (K a)"
  by (auto simp: acyclic_def kid_def dest: r_into_trancl)

lemma acyclic_asym: "acyclic (kid K) \<Longrightarrow> b \<in> set (K a) \<Longrightarrow> a \<notin> set (K b)"
proof
  assume ac: "acyclic (kid K)" and ba: "b \<in> set (K a)" and ab: "a \<in> set (K b)"
  then have "(b, a) \<in> kid K" "(a, b) \<in> kid K" by (simp_all add: kid_def)
  then have "(b, b) \<in> (kid K)\<^sup>+" by (meson r_into_trancl trancl_trans)
  with ac show False by (auto simp: acyclic_def)
qed

lemma kid_mono: "(\<And>a. set (K' a) \<subseteq> set (K a)) \<Longrightarrow> kid K' \<subseteq> kid K"
  by (auto simp: kid_def)

lemma forest_sub:
  assumes "forest D K" and "\<And>a. distinct (K' a)" and "\<And>a. set (K' a) \<subseteq> set (K a) \<inter> D'"
    and "\<And>a. a \<notin> D' \<Longrightarrow> K' a = []"
  shows "forest D' K'"
proof -
  have "acyclic (kid K')"
    using forestD(2) [OF assms(1)] kid_mono [of K' K] assms(3) by (blast intro: acyclic_subset)
  moreover have "lists_ok D' K'"
    using assms lists_okD(4) [OF forestD(1) [OF assms(1)]] unfolding lists_ok_def by blast
  ultimately show ?thesis by (simp add: forest_def)
qed

lemma lists_ok_sub:
  assumes "lists_ok D K" and "\<And>a. distinct (K' a)" and "\<And>a. set (K' a) \<subseteq> set (K a) \<inter> D'"
    and "\<And>a. a \<notin> D' \<Longrightarrow> K' a = []"
  shows "lists_ok D' K'"
  using assms lists_okD(4) [OF assms(1)] unfolding lists_ok_def by blast

definition drop_kid :: "addr \<Rightarrow> links \<Rightarrow> links" where
  "drop_kid a K = (\<lambda>p. without a (K p))"

definition add_kid :: "addr \<Rightarrow> addr \<Rightarrow> links \<Rightarrow> links" where
  "add_kid p a K = K(p := a # K p)"

text \<open>Every pool below \<open>a\<close>, \<open>a\<close> included.\<close>

definition below :: "links \<Rightarrow> addr \<Rightarrow> addr set" where
  "below K a = {b. (b, a) \<in> (kid K)\<^sup>*}"

lemma below_refl [simp]: "a \<in> below K a"
  by (simp add: below_def)

lemma drop_kid_root [simp]: "is_root (drop_kid a K) a"
  by (simp add: is_root_def drop_kid_def)

lemma drop_kid_other: "a \<notin> set (K p) \<Longrightarrow> drop_kid a K p = K p"
  by (simp add: drop_kid_def)

lemma drop_kid_idem [simp]: "is_root K a \<Longrightarrow> drop_kid a K = K"
  by (rule ext) (simp add: is_root_def drop_kid_def)

lemma set_drop_kid [simp]: "set (drop_kid a K p) = set (K p) - {a}"
  by (simp add: drop_kid_def)

lemma is_root_drop: "b \<noteq> a \<Longrightarrow> is_root (drop_kid a K) b = is_root K b"
  by (auto simp: is_root_def)

lemma lists_ok_drop: "lists_ok D K \<Longrightarrow> lists_ok D (drop_kid a K)"
  by (rule lists_ok_sub [of D K])
    (auto simp: drop_kid_def lists_okD(1) lists_okD(5) dest: lists_okD(2))

lemma forest_drop: "forest D K \<Longrightarrow> forest D (drop_kid a K)"
  unfolding forest_def
  by (auto intro: lists_ok_drop acyclic_subset [of "kid K"] intro!: kid_mono)

lemma kid_add: "kid (add_kid p a K) = insert (a, p) (kid K)"
  by (auto simp: kid_def add_kid_def)

lemma lists_ok_add:
  "lists_ok D K \<Longrightarrow> is_root K a \<Longrightarrow> a \<in> D \<Longrightarrow> p \<in> D \<Longrightarrow> lists_ok D (add_kid p a K)"
  unfolding lists_ok_def is_root_def add_kid_def by (auto 0 3)

lemma forest_add:
  assumes "forest D K" and "is_root K a" and "a \<in> D" and "p \<in> D" and "p \<notin> below K a"
  shows "forest D (add_kid p a K)"
proof -
  have "acyclic (insert (a, p) (kid K))"
    using assms by (simp add: forest_def acyclic_insert below_def)
  then show ?thesis using assms by (simp add: forest_def lists_ok_add kid_add)
qed

section \<open>The links of the other chunks\<close>

definition relink_out :: "links \<Rightarrow> addr \<Rightarrow> addr \<Rightarrow> addr \<Rightarrow> talloc_chunk \<Rightarrow> talloc_chunk" where
  "relink_out K q a b c = c\<lparr>
     tc_next := (if tc_next c = Some a then succ_in (K q) a else tc_next c),
     tc_prev := (if tc_prev c = Some a then pred_in (K q) a else tc_prev c),
     tc_parent := (if hd_opt (K q) = Some a \<and> succ_in (K q) a = Some b then Some q else tc_parent c)\<rparr>"

lemma own_ok_drop:
  assumes ok: "lists_ok D K" and aq: "a \<in> set (K q)" and ne: "b \<noteq> a" and own: "own_ok K b c"
  shows "own_ok (drop_kid a K) b (relink_out K q a b c)"
proof -
  note dist = lists_okD(1) [OF ok]
  have inp: "tc_next (relink_out K q a b c) = succ_in (without a (K p)) b \<and>
      tc_prev (relink_out K q a b c) = pred_in (without a (K p)) b \<and>
      tc_parent (relink_out K q a b c) = (if hd_opt (without a (K p)) = Some b then Some p else None)"
    if bp: "b \<in> set (K p)" for p
  proof -
    have links: "tc_next c = succ_in (K p) b" "tc_prev c = pred_in (K p) b"
      "tc_parent c = (if hd_opt (K p) = Some b then Some p else None)"
      using own bp by (auto simp: own_ok_def)
    show ?thesis
    proof (cases "p = q")
      case True
      with links dist ne bp show ?thesis
        by (auto simp: relink_out_def succ_in_without pred_from_without hd_opt_without)
    next
      case False
      then have "a \<notin> set (K p)" using lists_okD(4) [OF ok, of a p q] aq by blast
      moreover have "succ_in (K q) a \<noteq> Some b"
        using False bp lists_okD(4) [OF ok, of b p q] by (auto dest: succ_in_set)
      ultimately show ?thesis using links
        by (auto simp: relink_out_def dest: succ_in_set pred_in_set)
    qed
  qed
  have root: "tc_next (relink_out K q a b c) = None \<and> tc_prev (relink_out K q a b c) = None \<and>
      tc_parent (relink_out K q a b c) = None" if "is_root K b"
  proof -
    have "succ_in (K q) a \<noteq> Some b" using that by (auto simp: is_root_def dest: succ_in_set)
    then show ?thesis using own that by (auto simp: own_ok_def relink_out_def)
  qed
  show ?thesis
    unfolding own_ok_def is_root_drop [OF ne] using inp root by (auto simp: drop_kid_def)
qed

definition relink_in :: "links \<Rightarrow> addr \<Rightarrow> addr \<Rightarrow> addr \<Rightarrow> talloc_chunk \<Rightarrow> talloc_chunk" where
  "relink_in K p a b c = (if hd_opt (K p) = Some b then c\<lparr>tc_parent := None, tc_prev := Some a\<rparr> else c)"

lemma own_ok_add:
  assumes ok: "lists_ok D K" and ra: "is_root K a" and ne: "b \<noteq> a" and own: "own_ok K b c"
  shows "own_ok (add_kid p a K) b (relink_in K p a b c)"
proof -
  note dist = lists_okD(1) [OF ok]
  have inq: "tc_next (relink_in K p a b c) = succ_in (add_kid p a K q) b \<and>
      tc_prev (relink_in K p a b c) = pred_in (add_kid p a K q) b \<and>
      tc_parent (relink_in K p a b c) = (if hd_opt (add_kid p a K q) = Some b then Some q else None)"
    if bq: "b \<in> set (K q)" for q
  proof -
    have links: "tc_next c = succ_in (K q) b" "tc_prev c = pred_in (K q) b"
      "tc_parent c = (if hd_opt (K q) = Some b then Some q else None)"
      using own bq by (auto simp: own_ok_def)
    show ?thesis
    proof (cases "q = p")
      case True
      with links dist [of p] ne bq show ?thesis
        by (cases "hd_opt (K p) = Some b")
          (simp_all add: relink_in_def add_kid_def pred_in_Cons del: pred_from.simps succ_in.simps,
           simp_all)
    next
      case False
      then have "hd_opt (K p) \<noteq> Some b" using bq lists_okD(4) [OF ok, of b p q] by (auto dest: hd_opt_in)
      then show ?thesis using links False by (simp add: relink_in_def add_kid_def)
    qed
  qed
  have root: "tc_next (relink_in K p a b c) = None \<and> tc_prev (relink_in K p a b c) = None \<and>
      tc_parent (relink_in K p a b c) = None" if "is_root K b"
  proof -
    have "hd_opt (K p) \<noteq> Some b" using that by (auto simp: is_root_def dest: hd_opt_in)
    then show ?thesis using own that by (auto simp: own_ok_def relink_in_def)
  qed
  have "is_root (add_kid p a K) b = is_root K b" using ne by (auto simp: is_root_def add_kid_def)
  moreover have "b \<in> set (add_kid p a K q) = (b \<in> set (K q))" for q using ne by (simp add: add_kid_def)
  ultimately show ?thesis using inq root by (auto simp: own_ok_def)
qed

section \<open>Running programs on chunks\<close>

named_theorems run \<open>equations that execute a program on chunks that exist\<close>

lemma run_pret [run]: "pbind (pret x) f h = f x h"
  by (simp add: prog_defs)

lemma run_pgets [run]: "pbind (pgets g) f h = f (g h) h"
  by (simp add: prog_defs)

lemma run_pmodify [run]: "pbind (pmodify m) f h = f () (m h)"
  by (simp add: prog_defs)

lemma run_pcall [run]: "pbind (pcall g) f h = (case g h of (x, h') \<Rightarrow> f x h')"
  by (simp add: prog_defs split: prod.split)

lemma run_pcall_end [run]: "pcall g h = (case g h of (x, h') \<Rightarrow> Ok x h')"
  by (simp add: prog_defs)

lemma run_assoc [run]: "pbind (pbind p g) f h = pbind p (\<lambda>y. pbind (g y) f) h"
  by (simp add: prog_defs split: outcome.split)

lemma prog_assoc: "pbind (pbind p g) f = pbind p (\<lambda>y. pbind (g y) f)"
  by (rule ext) (simp add: run_assoc)

lemma run_end [run]: "pret x h = Ok x h" "pgets g h = Ok (g h) h"
  by (simp_all add: prog_defs)

lemma run_pmodify_end [run]: "pmodify m h = Ok () (m h)"
  by (simp add: prog_defs)

lemma run_get [run]: "chunks h a = Some c \<Longrightarrow> pbind (get_chunk a) f h = f c h"
  by (simp add: prog_defs get_chunk_def)

lemma run_upd [run]:
  "chunks h a = Some c \<Longrightarrow>
     pbind (upd_chunk a g) f h = f () (h\<lparr>chunks := (chunks h)(a \<mapsto> g c)\<rparr>)"
  by (simp add: prog_defs upd_chunk_def)

lemma run_upd_end [run]:
  "chunks h a = Some c \<Longrightarrow> upd_chunk a g h = Ok () (h\<lparr>chunks := (chunks h)(a \<mapsto> g c)\<rparr>)"
  by (simp add: prog_defs upd_chunk_def)

lemma upd_opt_simps [run]:
  "upd_chunk_opt None g = pret ()" "upd_chunk_opt (Some a) g = upd_chunk a g"
  by (simp_all add: upd_chunk_opt_def)

lemma run_step: "m h = Ok x h' \<Longrightarrow> pbind m f h = f x h'"
  by (simp add: prog_defs)

lemma run_from_ptr [run]:
  "chunks h a = Some c \<Longrightarrow> magic_ok c \<Longrightarrow> pbind (talloc_chunk_from_ptr a) f h = f c h"
  by (simp add: prog_defs talloc_chunk_from_ptr_def get_chunk_def magic_ok_def)

lemma magic_MAGIC [simp]: "tc_flags c = TALLOC_MAGIC \<Longrightarrow> magic_ok c"
  by (simp add: magic_ok_def flag_defs)

section \<open>What the representation gives\<close>

lemma repD:
  assumes "rep X h K R"
  shows "forest (dom (chunks h)) K" and "lists_ok (dom (chunks h)) R" and "world_ok h"
    and "lists_ok (dom (chunks h)) K"
    and "chunks h a = Some c \<Longrightarrow> chunk_ok X K R a c"
    and "g \<in> set (R q) \<Longrightarrow> \<exists>r. handles h g = Some r \<and> handle_ok R q g r"
  using assms by (auto simp: rep_def forest_def)

lemma rep_magic: "rep X h K R \<Longrightarrow> chunks h a = Some c \<Longrightarrow> magic_ok c"
  using repD(5) [of X h K R a c] by (auto simp: chunk_ok_def split: if_splits)

lemma rep_flags: "rep X h K R \<Longrightarrow> chunks h a = Some c \<Longrightarrow> a \<notin> X \<Longrightarrow> tc_flags c = TALLOC_MAGIC"
  using repD(5) [of X h K R a c] by (auto simp: chunk_ok_def)

lemma rep_own: "rep X h K R \<Longrightarrow> chunks h a = Some c \<Longrightarrow> a \<notin> X \<Longrightarrow> own_ok K a c"
  using repD(5) [of X h K R a c] by (auto simp: chunk_ok_def)

lemma rep_child: "rep X h K R \<Longrightarrow> chunks h a = Some c \<Longrightarrow> tc_child c = hd_opt (K a)"
  using repD(5) [of X h K R a c] by (auto simp: chunk_ok_def)

lemma rep_refs: "rep X h K R \<Longrightarrow> chunks h a = Some c \<Longrightarrow> tc_refs c = hd_opt (R a)"
  using repD(5) [of X h K R a c] by (auto simp: chunk_ok_def)

lemma rep_kid_chunk: "rep X h K R \<Longrightarrow> b \<in> set (K a) \<Longrightarrow> \<exists>c. chunks h b = Some c"
  using repD(4) [of X h K R] lists_okD(2) [of "dom (chunks h)" K b a] by auto

lemma rep_parent_chunk: "rep X h K R \<Longrightarrow> b \<in> set (K a) \<Longrightarrow> \<exists>c. chunks h a = Some c"
  using repD(4) [of X h K R] lists_okD(3) [of "dom (chunks h)" K b a] by auto

lemma rep_kid_notin: "rep X h K R \<Longrightarrow> b \<in> set (K a) \<Longrightarrow> b \<notin> X"
proof
  assume r: "rep X h K R" and ba: "b \<in> set (K a)" and "b \<in> X"
  obtain c where "chunks h b = Some c" using rep_kid_chunk [OF r ba] by blast
  with r \<open>b \<in> X\<close> have "is_root K b" using repD(5) [OF r] by (auto simp: chunk_ok_def)
  with ba show False by (simp add: is_root_def)
qed

text \<open>What survives a change of links: everything but the links.\<close>

definition same_content :: "talloc_chunk \<Rightarrow> talloc_chunk \<Rightarrow> bool" where
  "same_content c d \<longleftrightarrow> tc_destructor c = tc_destructor d \<and> tc_name c = tc_name d \<and>
     tc_size c = tc_size d \<and> tc_flags c = tc_flags d"

lemma same_content_refl [simp]: "same_content c c"
  by (simp add: same_content_def)

lemma same_content_trans: "same_content c d \<Longrightarrow> same_content d e \<Longrightarrow> same_content c e"
  by (simp add: same_content_def)

section \<open>Taking a chunk out of its list\<close>

lemma neighbour:
  assumes r: "rep X h K R" and aq: "a \<in> set (K q)" and cb: "chunks h b = Some c" and bX: "b \<notin> X"
  shows "tc_next c = Some a \<longleftrightarrow> pred_in (K q) a = Some b"
    and "tc_prev c = Some a \<longleftrightarrow> succ_in (K q) a = Some b"
proof -
  note ok = repD(4) [OF r]
  note dist = lists_okD(1) [OF ok, of q]
  have own: "own_ok K b c" using rep_own [OF r cb bX] .
  have "(tc_next c = Some a \<longleftrightarrow> pred_in (K q) a = Some b) \<and>
        (tc_prev c = Some a \<longleftrightarrow> succ_in (K q) a = Some b)"
  proof (cases "is_root K b")
    case True
    then have "b \<notin> set (K q)" by (simp add: is_root_def)
    with own True show ?thesis by (auto simp: own_ok_def dest: succ_in_set pred_in_set)
  next
    case False
    then obtain p where bp: "b \<in> set (K p)" by (auto simp: is_root_def)
    then have links: "tc_next c = succ_in (K p) b" "tc_prev c = pred_in (K p) b"
      using own by (auto simp: own_ok_def)
    show ?thesis
    proof (cases "p = q")
      case True
      with links dist show ?thesis by (simp add: succ_pred_in)
    next
      case False
      then have "a \<notin> set (K p)" "b \<notin> set (K q)"
        using aq bp lists_okD(4) [OF ok, of _ p q] by blast+
      with links show ?thesis by (auto dest: succ_in_set pred_in_set)
    qed
  qed
  then show "tc_next c = Some a \<longleftrightarrow> pred_in (K q) a = Some b"
    "tc_prev c = Some a \<longleftrightarrow> succ_in (K q) a = Some b" by simp_all
qed

lemma detach_first:
  assumes ca: "chunks h a = Some ca" and par: "tc_parent ca = Some q" and qa: "q \<noteq> a"
    and cq: "chunks h q = Some cq" and chd: "tc_child cq = Some a"
    and nx: "tc_next ca = None"
  shows "detach a h = Ok () (h\<lparr>chunks := (chunks h)(q \<mapsto> cq\<lparr>tc_child := None\<rparr>,
    a \<mapsto> ca\<lparr>tc_next := None, tc_prev := None\<rparr>)\<rparr>)"
  using assms by (simp add: detach_def tlist_remove_child_def run)

lemma detach_first_next:
  assumes ca: "chunks h a = Some ca" and par: "tc_parent ca = Some q" and qa: "q \<noteq> a"
    and cq: "chunks h q = Some cq" and chd: "tc_child cq = Some a"
    and nx: "tc_next ca = Some y" and ya: "y \<noteq> a" and yq: "y \<noteq> q" and cy: "chunks h y = Some cy"
  shows "detach a h = Ok () (h\<lparr>chunks := (chunks h)(q \<mapsto> cq\<lparr>tc_child := Some y\<rparr>,
    y \<mapsto> cy\<lparr>tc_prev := None, tc_parent := Some q\<rparr>, a \<mapsto> ca\<lparr>tc_next := None, tc_prev := None\<rparr>)\<rparr>)"
  using assms by (simp add: detach_def tlist_remove_child_def run fun_upd_twist)

lemma detach_inner:
  assumes ca: "chunks h a = Some ca" and par: "tc_parent ca = None"
    and pr: "tc_prev ca = Some p" and pa: "p \<noteq> a" and cp: "chunks h p = Some cp"
    and nx: "tc_next ca = Some y" and ya: "y \<noteq> a" and yp: "y \<noteq> p" and cy: "chunks h y = Some cy"
  shows "detach a h = Ok () (h\<lparr>chunks := (chunks h)(p \<mapsto> cp\<lparr>tc_next := Some y\<rparr>,
    y \<mapsto> cy\<lparr>tc_prev := Some p\<rparr>)\<rparr>)"
  using assms by (simp add: detach_def run)

lemma detach_last:
  assumes ca: "chunks h a = Some ca" and par: "tc_parent ca = None"
    and pr: "tc_prev ca = Some p" and pa: "p \<noteq> a" and cp: "chunks h p = Some cp"
    and nx: "tc_next ca = None"
  shows "detach a h = Ok () (h\<lparr>chunks := (chunks h)(p \<mapsto> cp\<lparr>tc_next := None\<rparr>)\<rparr>)"
  using assms by (simp add: detach_def run)

definition cut :: "addr set \<Rightarrow> links \<Rightarrow> addr \<Rightarrow> addr \<Rightarrow> addr \<Rightarrow> talloc_chunk \<Rightarrow> talloc_chunk" where
  "cut X K q a b c = (if b \<in> X then c else relink_out K q a b c)\<lparr>tc_child := hd_opt (drop_kid a K b)\<rparr>"

lemma chunk_eqI:
  "tc_next c = tc_next d \<Longrightarrow> tc_prev c = tc_prev d \<Longrightarrow> tc_parent c = tc_parent d \<Longrightarrow>
   tc_child c = tc_child d \<Longrightarrow> tc_refs c = tc_refs d \<Longrightarrow> same_content c d \<Longrightarrow> (c::talloc_chunk) = d"
  by (cases c; cases d) (simp add: same_content_def)

lemma detach_kid:
  assumes r: "rep X h K R" and aq: "a \<in> set (K q)" and ca: "chunks h a = Some ca"
  shows "\<exists>C. detach a h = Ok () (h\<lparr>chunks := C\<rparr>) \<and>
    (\<forall>b. b \<noteq> a \<longrightarrow> C b = map_option (cut X K q a b) (chunks h b)) \<and>
    (\<exists>d. C a = Some d \<and> same_content d ca \<and> tc_child d = tc_child ca \<and> tc_refs d = tc_refs ca)"
proof -
  note ok = repD(4) [OF r]
  note dist = lists_okD(1) [OF ok, of q]
  have aX: "a \<notin> X" using rep_kid_notin [OF r aq] .
  obtain cq where cq: "chunks h q = Some cq" using rep_parent_chunk [OF r aq] by blast
  have chq: "tc_child cq = hd_opt (K q)" using rep_child [OF r cq] .
  have qa: "q \<noteq> a" using acyclic_irrefl [OF forestD(2) [OF repD(1) [OF r]]] aq by metis
  have links: "tc_next ca = succ_in (K q) a" "tc_prev ca = pred_in (K q) a"
    "tc_parent ca = (if hd_opt (K q) = Some a then Some q else None)"
    using rep_own [OF r ca aX] aq by (auto simp: own_ok_def)
  have child: "hd_opt (drop_kid a K b) = tc_child c"
    if "chunks h b = Some c" "b \<noteq> q" for b c
  proof -
    have "a \<notin> set (K b)" using lists_okD(4) [OF ok, of a b q] aq that(2) by blast
    then show ?thesis using rep_child [OF r that(1)] by (simp add: drop_kid_other)
  qed
  have childq: "hd_opt (drop_kid a K q) = (if hd_opt (K q) = Some a then succ_in (K q) a else hd_opt (K q))"
    using dist by (simp add: drop_kid_def hd_opt_without)
  have sibling: "y \<in> set (K q) \<and> y \<noteq> a \<and> y \<noteq> q \<and> y \<notin> X \<and> (\<exists>c. chunks h y = Some c)"
    if "succ_in (K q) a = Some y \<or> pred_in (K q) a = Some y" for y
  proof -
    have y: "y \<in> set (K q)" using that by (auto dest: succ_in_set pred_in_set)
    moreover have "y \<noteq> a" using that dist by (auto simp: succ_in_irrefl pred_in_irrefl)
    moreover have "y \<noteq> q" using acyclic_irrefl [OF forestD(2) [OF repD(1) [OF r]]] y by metis
    ultimately show ?thesis using rep_kid_notin [OF r y] rep_kid_chunk [OF r y] by blast
  qed
  have cutX: "cut X K q a b c = c\<lparr>tc_child := hd_opt (drop_kid a K b)\<rparr>" if "b \<in> X" for b c
    using that by (simp add: cut_def)
  have cutN: "cut X K q a b c = c\<lparr>
       tc_next := (if pred_in (K q) a = Some b then succ_in (K q) a else tc_next c),
       tc_prev := (if succ_in (K q) a = Some b then pred_in (K q) a else tc_prev c),
       tc_parent := (if hd_opt (K q) = Some a \<and> succ_in (K q) a = Some b then Some q else tc_parent c),
       tc_child := hd_opt (drop_kid a K b)\<rparr>" if "chunks h b = Some c" "b \<notin> X" for b c
    using that neighbour [OF r aq that] by (simp add: cut_def relink_out_def)
  have cut_other: "map_option (cut X K q a b) (chunks h b) = chunks h b"
    if "b \<noteq> q" "succ_in (K q) a \<noteq> Some b" "pred_in (K q) a \<noteq> Some b" for b
  proof (cases "chunks h b")
    case (Some c)
    have "c = cut X K q a b c"
      using that child [OF Some that(1)] cutX [of b c] cutN [OF Some]
      by (cases "b \<in> X") (auto intro!: chunk_eqI simp: same_content_def)
    with Some show ?thesis by simp
  qed simp
  have q_nosib: "succ_in (K q) a \<noteq> Some q" "pred_in (K q) a \<noteq> Some q" using sibling by blast+
  have cut_q: "cq\<lparr>tc_child := x\<rparr> = cut X K q a q cq" if "x = hd_opt (drop_kid a K q)" for x
    using that cutX [of q cq] cutN [OF cq] q_nosib
    by (cases "q \<in> X") (auto intro!: chunk_eqI simp: same_content_def)
  show ?thesis
  proof (cases "hd_opt (K q) = Some a")
    case first: True
    then have pr: "pred_in (K q) a = None" using pred_in_None [OF aq dist] by simp
    show ?thesis
    proof (cases "succ_in (K q) a")
      case None
      have eq: "detach a h = Ok () (h\<lparr>chunks := (chunks h)(q \<mapsto> cq\<lparr>tc_child := None\<rparr>,
          a \<mapsto> ca\<lparr>tc_next := None, tc_prev := None\<rparr>)\<rparr>)"
        using None first by (intro detach_first [OF ca _ qa cq]) (simp_all add: links chq)
      show ?thesis
        by (rule exI, rule conjI, rule eq)
          (use cut_other None pr cq first childq cut_q [of None] in
            \<open>auto simp: same_content_def\<close>)
    next
      case (Some y)
      obtain cy where cy: "chunks h y = Some cy" and y: "y \<noteq> a" "y \<noteq> q" "y \<notin> X"
        using sibling Some by blast
      have eq: "detach a h = Ok () (h\<lparr>chunks := (chunks h)(q \<mapsto> cq\<lparr>tc_child := Some y\<rparr>,
          y \<mapsto> cy\<lparr>tc_prev := None, tc_parent := Some q\<rparr>,
          a \<mapsto> ca\<lparr>tc_next := None, tc_prev := None\<rparr>)\<rparr>)"
        using Some first
        by (intro detach_first_next [OF ca _ qa cq _ _ y(1) y(2) cy]) (simp_all add: links chq)
      have new: "cy\<lparr>tc_prev := None, tc_parent := Some q\<rparr> = cut X K q a y cy"
        using cutN [OF cy y(3)] child [OF cy y(2)] Some pr first
        by (auto intro!: chunk_eqI simp: same_content_def)
      show ?thesis
        by (intro exI, intro conjI, rule eq)
          (use new cut_other Some pr cq first childq y cy cut_q [of "Some y"] in
            \<open>auto simp: same_content_def\<close>)
    qed
  next
    case inner: False
    then obtain p where pr: "pred_in (K q) a = Some p" using pred_in_None [OF aq dist] by auto
    obtain cp where cp: "chunks h p = Some cp" and p: "p \<noteq> a" "p \<noteq> q" "p \<notin> X"
      using sibling pr by blast
    have "cq = cut X K q a q cq" using cut_q [of "hd_opt (K q)"] inner childq
      by (simp add: chq [symmetric])
    then have other: "map_option (cut X K q a b) (chunks h b) = chunks h b"
      if "succ_in (K q) a \<noteq> Some b" "p \<noteq> b" for b
      using cut_other [of b] that pr cq by (cases "b = q") auto
    have par: "tc_parent ca = None" "tc_prev ca = Some p" using inner pr by (simp_all add: links)
    show ?thesis
    proof (cases "succ_in (K q) a")
      case None
      have eq: "detach a h = Ok () (h\<lparr>chunks := (chunks h)(p \<mapsto> cp\<lparr>tc_next := None\<rparr>)\<rparr>)"
        using None by (intro detach_last [OF ca par p(1) cp]) (simp add: links)
      have new: "cp\<lparr>tc_next := None\<rparr> = cut X K q a p cp"
        using cutN [OF cp p(3)] child [OF cp p(2)] None pr inner
        by (auto intro!: chunk_eqI simp: same_content_def)
      show ?thesis
        by (intro exI, intro conjI, rule eq)
          (use new other None ca cp p in \<open>auto\<close>)
    next
      case (Some y)
      obtain cy where cy: "chunks h y = Some cy" and y: "y \<noteq> a" "y \<noteq> q" "y \<notin> X"
        using sibling Some by blast
      have yp: "y \<noteq> p" using pred_ne_succ [OF dist Some] pr by auto
      have eq: "detach a h = Ok () (h\<lparr>chunks := (chunks h)(p \<mapsto> cp\<lparr>tc_next := Some y\<rparr>,
          y \<mapsto> cy\<lparr>tc_prev := Some p\<rparr>)\<rparr>)"
        using Some by (intro detach_inner [OF ca par p(1) cp _ y(1) yp cy]) (simp add: links)
      have new: "cp\<lparr>tc_next := Some y\<rparr> = cut X K q a p cp" "cy\<lparr>tc_prev := Some p\<rparr> = cut X K q a y cy"
        using cutN [OF cp p(3)] child [OF cp p(2)] cutN [OF cy y(3)] child [OF cy y(2)] Some pr inner yp
        by (auto intro!: chunk_eqI simp: same_content_def)
      show ?thesis
        by (intro exI, intro conjI, rule eq)
          (use new other Some ca cp p cy y in \<open>auto\<close>)
    qed
  qed
qed

lemma detach_root:
  assumes "rep X h K R" and "is_root K a" and "chunks h a = Some c" and "a \<notin> X"
  shows "detach a h = Ok () h"
  using assms rep_own [OF assms(1,3,4)] by (simp add: detach_def run own_ok_def)

definition keeps :: "(addr \<Rightarrow> talloc_chunk option) \<Rightarrow> (addr \<Rightarrow> talloc_chunk option) \<Rightarrow> bool" where
  "keeps C D \<longleftrightarrow> (\<forall>b. case C b of None \<Rightarrow> D b = None
     | Some c \<Rightarrow> (\<exists>d. D b = Some d \<and> same_content d c))"

lemma keepsD: "keeps C D \<Longrightarrow> C b = Some c \<Longrightarrow> \<exists>d. D b = Some d \<and> same_content d c"
  by (auto simp: keeps_def split: option.splits)

lemma keeps_None: "keeps C D \<Longrightarrow> D b = None \<longleftrightarrow> C b = None"
  by (auto simp: keeps_def split: option.splits dest: spec [of _ b])

lemma keeps_dom: "keeps C D \<Longrightarrow> dom D = dom C"
  by (auto simp: dom_def keeps_None)

lemma keeps_refl [simp]: "keeps C C"
  by (auto simp: keeps_def split: option.split)

lemma keeps_trans: "keeps C D \<Longrightarrow> keeps D E \<Longrightarrow> keeps C E"
  unfolding keeps_def
proof
  fix b
  assume CD: "\<forall>b. case C b of None \<Rightarrow> D b = None | Some c \<Rightarrow> \<exists>d. D b = Some d \<and> same_content d c"
    and DE: "\<forall>b. case D b of None \<Rightarrow> E b = None | Some c \<Rightarrow> \<exists>d. E b = Some d \<and> same_content d c"
  show "case C b of None \<Rightarrow> E b = None | Some c \<Rightarrow> \<exists>d. E b = Some d \<and> same_content d c"
    using CD [rule_format, of b] DE [rule_format, of b]
    by (cases "C b") (auto simp: same_content_def)
qed

lemma world_ok_links: "world_ok h \<Longrightarrow> keeps (chunks h) C \<Longrightarrow> world_ok (h\<lparr>chunks := C\<rparr>)"
  by (simp add: world_ok_def keeps_None)

lemma own_ok_fields:
  "own_ok K a c \<Longrightarrow> tc_next d = tc_next c \<Longrightarrow> tc_prev d = tc_prev c \<Longrightarrow> tc_parent d = tc_parent c \<Longrightarrow>
   own_ok K a d"
  by (simp add: own_ok_def)

lemma magic_fields: "magic_ok c \<Longrightarrow> same_content d c \<Longrightarrow> magic_ok d"
  by (simp add: magic_ok_def same_content_def)

lemma detach_rep:
  assumes r: "rep X h K R" and ca: "chunks h a = Some ca" and aX: "a \<notin> X"
  obtains C where "detach a h = Ok () (h\<lparr>chunks := C\<rparr>)"
    and "rep (insert a X) (h\<lparr>chunks := C\<rparr>) (drop_kid a K) R" and "keeps (chunks h) C"
proof (cases "is_root K a")
  case True
  have "rep (insert a X) h K R"
    using r True aX rep_magic [OF r] unfolding rep_def chunk_ok_def by auto
  with that [of "chunks h"] detach_root [OF r True ca aX] True show ?thesis by simp
next
  case False
  then obtain q where aq: "a \<in> set (K q)" by (auto simp: is_root_def)
  obtain C d where run: "detach a h = Ok () (h\<lparr>chunks := C\<rparr>)"
    and other: "\<And>b. b \<noteq> a \<Longrightarrow> C b = map_option (cut X K q a b) (chunks h b)"
    and da: "C a = Some d" "same_content d ca" "tc_child d = tc_child ca" "tc_refs d = tc_refs ca"
    using detach_kid [OF r aq ca] by blast
  have content: "same_content (cut X K q a b c) c" for b c
    by (simp add: cut_def relink_out_def same_content_def)
  have keep: "keeps (chunks h) C"
    unfolding keeps_def
  proof
    fix b
    show "case chunks h b of None \<Rightarrow> C b = None | Some c \<Rightarrow> \<exists>d. C b = Some d \<and> same_content d c"
      using other [of b] da ca content by (cases "b = a") (auto split: option.split)
  qed
  have "chunk_ok (insert a X) (drop_kid a K) R b e" if Cb: "C b = Some e" for b e
  proof (cases "b = a")
    case True
    have "a \<notin> set (K a)" using acyclic_irrefl [OF forestD(2) [OF repD(1) [OF r]]] .
    then have "hd_opt (drop_kid a K a) = hd_opt (K a)" by (simp add: drop_kid_other)
    then show ?thesis
      using repD(5) [OF r ca] da that True magic_fields [OF rep_magic [OF r ca] da(2)]
      by (auto simp: chunk_ok_def same_content_def)
  next
    case False
    obtain c where cb: "chunks h b = Some c" and e: "e = cut X K q a b c"
      using other [OF False] Cb by (cases "chunks h b") auto
    have ok: "chunk_ok X K R b c" using repD(5) [OF r cb] .
    have own: "own_ok (drop_kid a K) b e" if "b \<notin> X"
    proof (rule own_ok_fields)
      show "own_ok (drop_kid a K) b (relink_out K q a b c)"
        using own_ok_drop [OF repD(4) [OF r] aq False] ok that by (simp add: chunk_ok_def)
    qed (use that in \<open>simp_all add: e cut_def\<close>)
    have "magic_ok e" using magic_fields [OF rep_magic [OF r cb] content [of b c]] e by simp
    then show ?thesis
      using ok content [of b c] own False
      by (auto simp: chunk_ok_def same_content_def e cut_def relink_out_def is_root_drop
            split: if_splits)
  qed
  then have "rep (insert a X) (h\<lparr>chunks := C\<rparr>) (drop_kid a K) R"
    using r forest_drop [of "dom (chunks h)" K a] world_ok_links [OF _ keep]
    unfolding rep_def by (simp add: keeps_dom [OF keep])
  with that run keep show ?thesis by blast
qed

section \<open>Putting a chunk in front of a list\<close>

text \<open>
  Both \<open>init_talloc\<close> and \<open>__talloc_steal\<close> put a chunk first among the children of \<open>p\<close>: the chunk
  that was first forgets its parent.
\<close>

definition paste :: "addr set \<Rightarrow> links \<Rightarrow> addr \<Rightarrow> addr \<Rightarrow> addr \<Rightarrow> talloc_chunk \<Rightarrow> talloc_chunk" where
  "paste X K p a b c =
     (relink_in K p a b c)\<lparr>tc_child := hd_opt (add_kid p a K b)\<rparr>"

lemma add_rep:
  assumes r: "rep X h K R" and ca: "C a = Some d" and root: "is_root K a" and pd: "p \<in> dom (chunks h)"
    and nb: "p \<notin> below K a"
    and da: "tc_next d = hd_opt (K p)" "tc_prev d = None" "tc_parent d = Some p"
      "tc_child d = hd_opt (K a)" "tc_refs d = hd_opt (R a)" "tc_flags d = TALLOC_MAGIC"
      "tc_destructor d \<noteq> D_minus_1" "tc_destructor d = D_reference \<longleftrightarrow> \<not> is_root R a"
    and others: "\<And>b. b \<noteq> a \<Longrightarrow> C b = map_option (paste X K p a b) (chunks h b)"
    and ah: "a \<in> dom (chunks h)"
  shows "rep (X - {a}) (h\<lparr>chunks := C\<rparr>) (add_kid p a K) R"
proof -
  have pa: "p \<noteq> a" using nb by auto
  have dom: "dom C = dom (chunks h)"
  proof (rule set_eqI)
    fix b
    show "b \<in> dom C \<longleftrightarrow> b \<in> dom (chunks h)"
      using others [of b] ca ah by (cases "b = a"; cases "chunks h b") auto
  qed
  have "chunk_ok (X - {a}) (add_kid p a K) R b e" if Cb: "C b = Some e" for b e
  proof (cases "b = a")
    case True
    have "own_ok (add_kid p a K) a d"
      using root da pa unfolding own_ok_def is_root_def add_kid_def by auto
    then show ?thesis using True that da ca pa by (auto simp: chunk_ok_def add_kid_def)
  next
    case False
    obtain c where cb: "chunks h b = Some c" and e: "e = paste X K p a b c"
      using others [OF False] Cb by (cases "chunks h b") auto
    have ok: "chunk_ok X K R b c" using repD(5) [OF r cb] .
    have own: "own_ok (add_kid p a K) b e" if "b \<notin> X"
    proof (rule own_ok_fields)
      show "own_ok (add_kid p a K) b (relink_in K p a b c)"
        using own_ok_add [OF repD(4) [OF r] root False] ok that by (simp add: chunk_ok_def)
    qed (simp_all add: e paste_def)
    have same: "same_content e c" by (simp add: e paste_def relink_in_def same_content_def)
    have "is_root (add_kid p a K) b" if "is_root K b"
      using that False by (auto simp: is_root_def add_kid_def)
    then show ?thesis
      using ok own False same magic_fields [OF rep_magic [OF r cb] same]
      by (auto simp: chunk_ok_def same_content_def e paste_def relink_in_def split: if_splits)
  qed
  moreover have "world_ok (h\<lparr>chunks := C\<rparr>)" using repD(3) [OF r] dom by (auto simp: world_ok_def dom_def)
  ultimately show ?thesis
    using r forest_add [OF repD(1) [OF r] root ah pd nb] dom unfolding rep_def by simp
qed

end
