(* ===== verification/Talloc_Alloc.thy ===== *)
theory Talloc_Alloc
  imports Talloc_Rep
begin

text \<open>
  What allocating, moving and asking for the parent do to the forest a state of talloc represents.
\<close>

declare first_sibling.simps [simp del] is_parent_loop.simps [simp del]

section \<open>Locks\<close>

lemma lock_id [run]: "\<not> tc_lock h \<Longrightarrow> pbind (lock p) f h = f () h"
  by (simp add: lock_def run split: option.split)

lemma unlock_id: "\<not> locked h \<Longrightarrow> unlock h = Ok () h"
  by (simp add: unlock_def run)

lemma unlock_bind [run]: "\<not> locked h \<Longrightarrow> pbind unlock f h = f () h"
  by (simp add: run_step [OF unlock_id])

lemma rep_world:
  assumes "rep X h K R"
  shows "\<not> tc_lock h" and "\<not> locked h" and "null_context h = Some a \<Longrightarrow> \<exists>c. chunks h a = Some c"
    and "chunks h b = Some c \<Longrightarrow> b < next_addr h"
  using repD(3) [OF assms] by (auto simp: world_ok_def)

section \<open>Parents\<close>

lemma pred_from_append:
  "distinct (pre @ a # post) \<Longrightarrow> pred_from p (pre @ a # post) a = (if pre = [] then p else Some (last pre))"
  by (induction pre arbitrary: p) auto

lemma first_sibling_run:
  assumes r: "rep X h K R" and K: "K q = pre @ a # post" and n: "length pre < n"
  shows "\<exists>c. first_sibling n a h = Ok c h \<and> tc_parent c = Some q"
  using K n
proof (induction pre arbitrary: a post n rule: rev_induct)
  case Nil
  then have aq: "a \<in> set (K q)" by simp
  obtain c where ca: "chunks h a = Some c" using rep_kid_chunk [OF r aq] by blast
  have "tc_prev c = pred_in (K q) a" "tc_parent c = (if hd_opt (K q) = Some a then Some q else None)"
    using rep_own [OF r ca rep_kid_notin [OF r aq]] aq by (auto simp: own_ok_def)
  with Nil ca show ?case by (cases n) (auto simp: run first_sibling.simps)
next
  case (snoc x pre)
  then have aq: "a \<in> set (K q)" by simp
  obtain c where ca: "chunks h a = Some c" using rep_kid_chunk [OF r aq] by blast
  have "distinct (K q)" using lists_okD(1) [OF repD(4) [OF r]] .
  moreover have "tc_prev c = pred_in (K q) a"
    using rep_own [OF r ca rep_kid_notin [OF r aq]] aq by (auto simp: own_ok_def)
  ultimately have "tc_prev c = Some x"
    using snoc.prems(1) pred_from_append [of "pre @ [x]" a post None] by simp
  moreover obtain m where "n = Suc m" "length pre < m" using snoc.prems(2) by (cases n) auto
  ultimately show ?case using snoc.IH [of x "a # post" m] snoc.prems(1) ca
    by (auto simp: run first_sibling.simps)
qed

lemma kids_bound: "rep X h K R \<Longrightarrow> length (K q) \<le> next_addr h"
proof -
  assume r: "rep X h K R"
  have "set (K q) \<subseteq> {..<next_addr h}"
    using rep_kid_chunk [OF r] rep_world(4) [OF r] by blast
  then have "card (set (K q)) \<le> next_addr h" using card_mono [of "{..<next_addr h}"] by simp
  then show ?thesis using distinct_card [OF lists_okD(1) [OF repD(4) [OF r], of q]] by simp
qed

lemma first_sibling_kid:
  assumes r: "rep X h K R" and aq: "a \<in> set (K q)"
  shows "\<exists>c. first_sibling (Suc (next_addr h)) a h = Ok c h \<and> tc_parent c = Some q"
proof -
  obtain pre post where K: "K q = pre @ a # post" using split_list [OF aq] by blast
  show ?thesis
    by (rule first_sibling_run [OF r K]) (use kids_bound [OF r, of q] K in simp)
qed

lemma first_sibling_root:
  assumes r: "rep X h K R" and root: "is_root K a" and ca: "chunks h a = Some c" and aX: "a \<notin> X"
  shows "first_sibling (Suc n) a h = Ok c h" and "tc_parent c = None"
  using rep_own [OF r ca aX] root ca by (simp_all add: own_ok_def run first_sibling.simps)

definition parent_is :: "links \<Rightarrow> addr \<Rightarrow> addr option \<Rightarrow> bool" where
  "parent_is K a r \<longleftrightarrow> (case r of None \<Rightarrow> is_root K a | Some p \<Rightarrow> a \<in> set (K p))"

lemma parent_run:
  assumes r: "rep X h K R" and ca: "chunks h a = Some c" and aX: "a \<notin> X"
  shows "\<exists>d. first_sibling (Suc (next_addr h)) a h = Ok d h \<and> parent_is K a (tc_parent d)"
proof (cases "is_root K a")
  case True
  with first_sibling_root [OF r True ca aX] show ?thesis by (auto simp: parent_is_def)
next
  case False
  then obtain q where "a \<in> set (K q)" by (auto simp: is_root_def)
  with first_sibling_kid [OF r this] show ?thesis by (auto simp: parent_is_def)
qed

lemma talloc_parent_chunk_run:
  assumes r: "rep X h K R" and ca: "chunks h a = Some c" and aX: "a \<notin> X"
  obtains p where "talloc_parent_chunk (Some a) h = Ok p h" and "parent_is K a p"
proof -
  obtain d where "first_sibling (Suc (next_addr h)) a h = Ok d h" "parent_is K a (tc_parent d)"
    using parent_run [OF r ca aX] by blast
  with that show thesis
    by (simp add: talloc_parent_chunk_def run ca rep_magic [OF r ca] run_step)
qed

lemma parent_is_unique:
  "lists_ok D K \<Longrightarrow> parent_is K a p \<Longrightarrow> parent_is K a q \<Longrightarrow> p = q"
  by (auto simp: parent_is_def is_root_def dest: lists_okD(4) split: option.splits)

section \<open>Ancestors\<close>

definition above :: "links \<Rightarrow> addr \<Rightarrow> addr set" where
  "above K a = {b. (a, b) \<in> (kid K)\<^sup>*}"

lemma above_below: "b \<in> above K a \<longleftrightarrow> a \<in> below K b"
  by (simp add: above_def below_def)

lemma above_kid:
  assumes ok: "lists_ok D K" and aq: "a \<in> set (K q)"
  shows "above K a = insert a (above K q)"
proof -
  have step: "(a, b) \<in> kid K \<longleftrightarrow> b = q" for b
    using aq lists_okD(4) [OF ok, of a b q] by (auto simp: kid_def)
  show ?thesis
  proof (intro set_eqI iffI)
    fix b assume "b \<in> above K a"
    then have "(a, b) \<in> (kid K)\<^sup>*" by (simp add: above_def)
    then show "b \<in> insert a (above K q)"
      by (rule converse_rtranclE) (auto simp: step above_def)
  next
    fix b assume "b \<in> insert a (above K q)"
    then show "b \<in> above K a"
      using step [of q] by (auto simp: above_def intro: converse_rtrancl_into_rtrancl)
  qed
qed

lemma above_root: "is_root K a \<Longrightarrow> above K a = {a}"
  by (auto simp: above_def is_root_def kid_def elim: converse_rtranclE)

lemma above_dom:
  assumes "lists_ok D K" and "a \<in> D"
  shows "above K a \<subseteq> D"
proof
  fix b assume "b \<in> above K a"
  then have "(a, b) \<in> (kid K)\<^sup>*" by (simp add: above_def)
  then show "b \<in> D"
    by (induction rule: rtrancl_induct) (use assms lists_okD(3) [OF assms(1)] in \<open>auto simp: kid_def\<close>)
qed

lemma kid_above: "acyclic (kid K) \<Longrightarrow> a \<in> set (K q) \<Longrightarrow> a \<notin> above K q"
proof
  assume ac: "acyclic (kid K)" and "a \<in> set (K q)" and "a \<in> above K q"
  then have "(a, q) \<in> kid K" "(q, a) \<in> (kid K)\<^sup>*" by (simp_all add: kid_def above_def)
  then have "(a, a) \<in> (kid K)\<^sup>+" by (rule rtrancl_into_trancl2)
  with ac show False by (auto simp: acyclic_def)
qed

lemma rep_finite: "rep X h K R \<Longrightarrow> finite (dom (chunks h)) \<and> card (dom (chunks h)) \<le> next_addr h"
proof -
  assume "rep X h K R"
  then have "dom (chunks h) \<subseteq> {..<next_addr h}" using rep_world(4) by blast
  then show ?thesis using card_mono [of "{..<next_addr h}"] finite_subset by fastforce
qed

lemma is_parent_loop_run:
  assumes r: "rep {} h K R" and ca: "chunks h a = Some c" and n: "card (above K a) < n"
  shows "is_parent_loop n (Some a) (Some p) h = Ok (p \<in> above K a) h"
  using ca n
proof (induction n arbitrary: a c)
  case (Suc n)
  note ok = repD(4) [OF r]
  have fin: "finite (above K b)" if "b \<in> dom (chunks h)" for b
    using above_dom [OF ok that] rep_finite [OF r] finite_subset by blast
  obtain d where d: "first_sibling (Suc (next_addr h)) a h = Ok d h" "parent_is K a (tc_parent d)"
    using parent_run [OF r Suc.prems(1)] by blast
  show ?case
  proof (cases "a = p")
    case True
    then show ?thesis by (simp add: run above_def is_parent_loop.simps)
  next
    case False
    show ?thesis
    proof (cases "tc_parent d")
      case None
      with d have "above K a = {a}" by (simp add: parent_is_def above_root)
      moreover have "0 < n" using Suc.prems(2) calculation by simp
      ultimately show ?thesis using False None d
        by (cases n) (simp_all add: run run_step d(1) is_parent_loop.simps)
    next
      case (Some q)
      with d have aq: "a \<in> set (K q)" by (simp add: parent_is_def)
      obtain cq where cq: "chunks h q = Some cq" using rep_parent_chunk [OF r aq] by blast
      have eq: "above K a = insert a (above K q)" using above_kid [OF ok aq] .
      have "a \<notin> above K q" using kid_above [OF forestD(2) [OF repD(1) [OF r]] aq] .
      then have "card (above K q) < n" using Suc.prems(2) eq fin [OF domI, OF cq] by simp
      with Suc.IH [OF cq] have "is_parent_loop n (Some q) (Some p) h = Ok (p \<in> above K q) h" .
      with False Some d eq show ?thesis by (simp add: run run_step d(1) is_parent_loop.simps)
    qed
  qed
qed simp

lemma talloc_is_parent_nolock_run:
  assumes r: "rep {} h K R" and ca: "chunks h a = Some c"
  shows "talloc_is_parent_nolock (Some a) (Some p) h = Ok (a \<in> below K p) h"
proof -
  have "card (above K a) \<le> next_addr h"
    using above_dom [OF repD(4) [OF r], of a] ca rep_finite [OF r]
    by (meson card_mono domI le_trans)
  then have "is_parent_loop (Suc (Suc (next_addr h))) (Some a) (Some p) h = Ok (p \<in> above K a) h"
    by (intro is_parent_loop_run [OF r ca]) simp
  then show ?thesis
    unfolding talloc_is_parent_nolock_def
    by (simp add: run ca rep_magic [OF r ca] above_below)
qed

section \<open>Allocating\<close>

lemma lists_ok_mono: "lists_ok D K \<Longrightarrow> D \<subseteq> E \<Longrightarrow> lists_ok E K"
  unfolding lists_ok_def by (meson subset_iff)

lemma fresh_chunk:
  assumes r: "rep X h K R"
  shows "chunks h (next_addr h) = None" and "is_root K (next_addr h)" and "K (next_addr h) = []"
    and "is_root R (next_addr h)" and "R (next_addr h) = []" and "next_addr h \<notin> X \<or> next_addr h \<in> X"
proof -
  show none: "chunks h (next_addr h) = None"
    using rep_world(4) [OF r, of "next_addr h"] by (cases "chunks h (next_addr h)") auto
  then have nd: "next_addr h \<notin> dom (chunks h)" by auto
  show "is_root K (next_addr h)" "K (next_addr h) = []"
    using lists_okD(2,5) [OF repD(4) [OF r]] nd by (auto simp: is_root_def)
  show "is_root R (next_addr h)" "R (next_addr h) = []"
    using lists_okD(2,5) [OF repD(2) [OF r]] nd by (auto simp: is_root_def)
qed simp

text \<open>A fresh chunk that is a root: what \<open>malloc\<close> and \<open>init_talloc\<close> without a parent leave.\<close>

definition fresh :: "tname \<Rightarrow> u64 \<Rightarrow> talloc_chunk" where
  "fresh name sz = \<lparr>tc_next = None, tc_prev = None, tc_parent = None, tc_child = None,
     tc_refs = None, tc_destructor = D_null, tc_name = name, tc_size = sz, tc_flags = TALLOC_MAGIC\<rparr>"

definition with_fresh :: "talloc_chunk \<Rightarrow> 'w tstate \<Rightarrow> 'w tstate" where
  "with_fresh c h = (let a = next_addr h; t = Suc (ticks h) in
     h\<lparr>chunks := (chunks h)(a \<mapsto> c), handles := (handles h)(a := None),
       payload := (payload h)(a := map (\<lambda>i. junk h (t + i)) [0..<unat (tc_size c)]),
       next_addr := Suc a, ticks := t\<rparr>)"

lemma with_fresh_simps [simp]:
  "chunks (with_fresh c h) = (chunks h)(next_addr h \<mapsto> c)"
  "next_addr (with_fresh c h) = Suc (next_addr h)"
  "tc_lock (with_fresh c h) = tc_lock h" "locked (with_fresh c h) = locked h"
  "null_context (with_fresh c h) = null_context h" "outside (with_fresh c h) = outside h"
  "handles (with_fresh c h) = (handles h)(next_addr h := None)"
  "user_destructor (with_fresh c h) = user_destructor h"
  "ticks (with_fresh c h) = Suc (ticks h)" "oom (with_fresh c h) = oom h"
  by (simp_all add: with_fresh_def Let_def)

lemma fresh_rep:
  assumes r: "rep X h K R" and nX: "next_addr h \<notin> X"
  shows "rep X (with_fresh (fresh name sz) h) K R"
proof -
  let ?a = "next_addr h"
  note f = fresh_chunk [OF r]
  have "own_ok K ?a (fresh name sz)"
    using f(2) by (auto simp: own_ok_def is_root_def fresh_def)
  then have "chunk_ok X K R ?a (fresh name sz)"
    using f nX by (simp add: chunk_ok_def fresh_def)
  moreover have "forest (insert ?a (dom (chunks h))) K"
    using repD(1) [OF r] lists_ok_mono [OF repD(4) [OF r] subset_insertI] by (simp add: forest_def)
  moreover have "lists_ok (insert ?a (dom (chunks h))) R"
    using lists_ok_mono [OF repD(2) [OF r] subset_insertI] .
  moreover have "g \<noteq> ?a" if "g \<in> set (R q)" for g q
    using that f(4) by (auto simp: is_root_def)
  moreover have "world_ok (with_fresh (fresh name sz) h)"
    using repD(3) [OF r] by (auto simp: world_ok_def less_Suc_eq)
  ultimately show ?thesis
    using r unfolding rep_def by auto
qed

definition context_of :: "'w tstate \<Rightarrow> addr option \<Rightarrow> addr option" where
  "context_of h ctxt = (if ctxt = None then null_context h else ctxt)"

definition add_opt :: "addr option \<Rightarrow> addr \<Rightarrow> links \<Rightarrow> links" where
  "add_opt p a K = (case p of None \<Rightarrow> K | Some q \<Rightarrow> add_kid q a K)"

text \<open>
  The new chunk \<open>a\<close> is in front of the children of its context and everything else is as it was
  but for the links.
\<close>

lemma named_const_root:
  assumes r: "rep X h K R" and nX: "next_addr h \<notin> X" and ctxt: "context_of h ctxt = None"
    and sz: "sz < MAX_TALLOC_SIZE" and mem: "\<not> oom h (ticks h)"
  shows "talloc_named_const_nolock ctxt sz name h =
    Ok (Some (next_addr h)) (with_fresh (fresh name sz) h)"
proof -
  have "null_context h = None" "ctxt = None" using ctxt by (auto simp: context_of_def split: if_splits)
  with sz mem show ?thesis
    by (simp add: talloc_named_const_nolock_def talloc_alloc_def run malloc_chunk_def init_talloc_def
        talloc_set_name_const_def with_fresh_def fresh_def blank_chunk_def magic_ok_def flag_defs Let_def)
qed

lemma named_const_run:
  assumes ctxt: "context_of h ctxt = Some p" and cp: "chunks h p = Some cp"
    and flags: "tc_flags cp = TALLOC_MAGIC" and new: "p \<noteq> next_addr h"
    and sz: "sz < MAX_TALLOC_SIZE" and mem: "\<not> oom h (ticks h)"
  shows "tc_child cp = None \<Longrightarrow> talloc_named_const_nolock ctxt sz name h =
      Ok (Some (next_addr h)) (with_fresh (fresh name sz) h
        \<lparr>chunks := (chunks h)(p \<mapsto> cp\<lparr>tc_child := Some (next_addr h)\<rparr>,
           next_addr h \<mapsto> (fresh name sz)\<lparr>tc_parent := Some p\<rparr>)\<rparr>)"
    and "tc_child cp = Some k \<Longrightarrow> chunks h k = Some ck \<Longrightarrow> k \<noteq> p \<Longrightarrow> k \<noteq> next_addr h \<Longrightarrow>
      talloc_named_const_nolock ctxt sz name h =
      Ok (Some (next_addr h)) (with_fresh (fresh name sz) h
        \<lparr>chunks := (chunks h)(k \<mapsto> ck\<lparr>tc_parent := None, tc_prev := Some (next_addr h)\<rparr>,
           p \<mapsto> cp\<lparr>tc_child := Some (next_addr h)\<rparr>,
           next_addr h \<mapsto> (fresh name sz)\<lparr>tc_parent := Some p, tc_next := Some k\<rparr>)\<rparr>)"
proof -
  have c: "(case ctxt of None \<Rightarrow> null_context h | Some a \<Rightarrow> Some a) = Some p"
    "(if ctxt = None then null_context h else ctxt) = Some p"
    using ctxt by (auto simp: context_of_def split: option.splits if_splits)
  have m: "magic_ok cp" "tc_flags cp AND TALLOC_FLAG_EXT_ALLOC = 0"
    using flags by (simp_all add: flag_defs)
  note defs = talloc_named_const_nolock_def talloc_alloc_def malloc_chunk_def init_talloc_def
    talloc_set_name_const_def with_fresh_def fresh_def blank_chunk_def Let_def
  show "talloc_named_const_nolock ctxt sz name h =
      Ok (Some (next_addr h)) (with_fresh (fresh name sz) h
        \<lparr>chunks := (chunks h)(p \<mapsto> cp\<lparr>tc_child := Some (next_addr h)\<rparr>,
           next_addr h \<mapsto> (fresh name sz)\<lparr>tc_parent := Some p\<rparr>)\<rparr>)" if "tc_child cp = None"
    using that c m cp new sz mem by (simp add: defs run fun_upd_twist [of _ p])
  show "talloc_named_const_nolock ctxt sz name h =
      Ok (Some (next_addr h)) (with_fresh (fresh name sz) h
        \<lparr>chunks := (chunks h)(k \<mapsto> ck\<lparr>tc_parent := None, tc_prev := Some (next_addr h)\<rparr>,
           p \<mapsto> cp\<lparr>tc_child := Some (next_addr h)\<rparr>,
           next_addr h \<mapsto> (fresh name sz)\<lparr>tc_parent := Some p, tc_next := Some k\<rparr>)\<rparr>)"
    if "tc_child cp = Some k" "chunks h k = Some ck" "k \<noteq> p" "k \<noteq> next_addr h"
    using that c m cp new sz mem
    by (simp add: defs run)
qed

text \<open>A fresh chunk that has been made the first child of \<open>p\<close>.\<close>

lemma paste_keeps: "same_content (paste X K p a b c) c"
  by (simp add: paste_def relink_in_def same_content_def)

lemma paste_other:
  assumes r: "rep X h K R" and cb: "chunks h b = Some c"
  shows "b \<noteq> p \<Longrightarrow> hd_opt (K p) \<noteq> Some b \<Longrightarrow> paste X K p a b c = c"
    and "hd_opt (K p) \<noteq> Some p \<Longrightarrow> paste X K p a p c = c\<lparr>tc_child := Some a\<rparr>"
    and "b \<noteq> p \<Longrightarrow> hd_opt (K p) = Some b \<Longrightarrow> paste X K p a b c = c\<lparr>tc_parent := None, tc_prev := Some a\<rparr>"
  using rep_child [OF r cb]
  by (auto simp: paste_def relink_in_def add_kid_def intro!: chunk_eqI simp: same_content_def)

lemma paste_list:
  assumes r: "rep X h K R" and cp: "chunks h p = Some cp" and pa: "p \<noteq> a" and ca: "chunks h a \<noteq> None"
    and C: "C = (case K p of
        [] \<Rightarrow> (chunks h)(p \<mapsto> cp\<lparr>tc_child := Some a\<rparr>, a \<mapsto> d)
      | k # _ \<Rightarrow> (chunks h)(k \<mapsto> (the (chunks h k))\<lparr>tc_parent := None, tc_prev := Some a\<rparr>,
           p \<mapsto> cp\<lparr>tc_child := Some a\<rparr>, a \<mapsto> d))" and b: "b \<noteq> a"
  shows "C b = map_option (paste X K p a b) (chunks h b)"
proof -
  have np: "hd_opt (K p) \<noteq> Some p"
    using acyclic_irrefl [OF forestD(2) [OF repD(1) [OF r]]] by (metis hd_opt_in)
  show ?thesis
  proof (cases "chunks h b")
    case None
    then have "b \<noteq> p" "hd_opt (K p) \<noteq> Some b" using cp rep_kid_chunk [OF r, of b p]
      by (auto dest!: hd_opt_in)
    then show ?thesis using None b C by (auto split: list.splits)
  next
    case (Some c)
    show ?thesis
      using paste_other [OF r Some, of p a] Some np cp pa b C by (auto split: list.splits)
  qed
qed

lemma add_opt_simps [simp]: "add_opt None a K = K" "add_opt (Some p) a K = add_kid p a K"
  by (simp_all add: add_opt_def)

lemma below_root_kids: "K a = [] \<Longrightarrow> below K a = {a}"
  by (auto simp: below_def kid_def elim: rtranclE)

lemma named_const_spec:
  assumes r: "rep X h K R" and nX: "next_addr h \<notin> X"
    and ctxt: "\<And>p. context_of h ctxt = Some p \<Longrightarrow> p \<in> dom (chunks h) \<and> p \<notin> X"
    and sz: "sz < MAX_TALLOC_SIZE" and mem: "\<not> oom h (ticks h)"
  obtains C where "talloc_named_const_nolock ctxt sz name h =
      Ok (Some (next_addr h)) (with_fresh (fresh name sz) h\<lparr>chunks := C\<rparr>)"
    and "rep X (with_fresh (fresh name sz) h\<lparr>chunks := C\<rparr>) (add_opt (context_of h ctxt) (next_addr h) K) R"
    and "keeps ((chunks h)(next_addr h \<mapsto> fresh name sz)) C"
proof (cases "context_of h ctxt")
  case None
  let ?h = "with_fresh (fresh name sz) h"
  have "?h\<lparr>chunks := (chunks h)(next_addr h \<mapsto> fresh name sz)\<rparr> = ?h"
    by (simp add: with_fresh_def Let_def)
  with that [of "(chunks h)(next_addr h \<mapsto> fresh name sz)"] None
    named_const_root [OF r nX None sz mem, of name] fresh_rep [OF r nX, of name sz]
  show thesis by simp
next
  case (Some p)
  let ?h = "with_fresh (fresh name sz) h" and ?a = "next_addr h"
  obtain cp where cp: "chunks h p = Some cp" and pX: "p \<notin> X" using ctxt [OF Some] by blast
  note r1 = fresh_rep [OF r nX, of name sz]
  note f = fresh_chunk [OF r]
  have pa: "p \<noteq> ?a" using rep_world(4) [OF r cp] by simp
  have np: "p \<notin> set (K p)" using acyclic_irrefl [OF forestD(2) [OF repD(1) [OF r]]] .
  have ch: "tc_child cp = hd_opt (K p)" using rep_child [OF r cp] .
  let ?d = "(fresh name sz)\<lparr>tc_parent := Some p, tc_next := hd_opt (K p)\<rparr>"
  define C where "C = (case K p of
        [] \<Rightarrow> (chunks ?h)(p \<mapsto> cp\<lparr>tc_child := Some ?a\<rparr>, ?a \<mapsto> ?d)
      | k # _ \<Rightarrow> (chunks ?h)(k \<mapsto> (the (chunks ?h k))\<lparr>tc_parent := None, tc_prev := Some ?a\<rparr>,
           p \<mapsto> cp\<lparr>tc_child := Some ?a\<rparr>, ?a \<mapsto> ?d))"
  note runs = named_const_run [OF Some cp rep_flags [OF r cp pX] pa sz mem, where name = name]
  have run: "talloc_named_const_nolock ctxt sz name h = Ok (Some ?a) (?h\<lparr>chunks := C\<rparr>)"
  proof (cases "K p")
    case Nil
    have "C = (chunks h)(p \<mapsto> cp\<lparr>tc_child := Some ?a\<rparr>, ?a \<mapsto> (fresh name sz)\<lparr>tc_parent := Some p\<rparr>)"
      using Nil pa by (simp add: C_def fun_upd_twist fresh_def)
    then show ?thesis using runs(1) Nil ch by simp
  next
    case (Cons k ks)
    then obtain ck where ck: "chunks h k = Some ck" using rep_kid_chunk [OF r, of k p] by auto
    have k: "k \<noteq> p" "k \<noteq> ?a" using np Cons rep_world(4) [OF r ck] by auto
    have "C = (chunks h)(k \<mapsto> ck\<lparr>tc_parent := None, tc_prev := Some ?a\<rparr>,
        p \<mapsto> cp\<lparr>tc_child := Some ?a\<rparr>,
        ?a \<mapsto> (fresh name sz)\<lparr>tc_parent := Some p, tc_next := Some k\<rparr>)"
      unfolding C_def using Cons k pa ck by (auto simp: fun_eq_iff)
    then show ?thesis using runs(2) [OF _ ck k] Cons ch by simp
  qed
  have others: "C b = map_option (paste X K p ?a b) (chunks ?h b)" if "b \<noteq> ?a" for b
    by (rule paste_list [OF r1 _ pa _ _ that]) (use cp pa in \<open>simp_all add: C_def\<close>)
  have Ca: "C ?a = Some ?d" using pa by (auto simp: C_def split: list.split)
  have "rep (X - {?a}) (?h\<lparr>chunks := C\<rparr>) (add_kid p ?a K) R"
    by (rule add_rep [OF r1 Ca f(2) _ _ _ _ _ _ _ _ _ _ others])
      (use cp pa f below_root_kids [of K ?a] in \<open>auto simp: fresh_def\<close>)
  moreover have "X - {?a} = X" using nX by simp
  moreover have "keeps ((chunks h)(?a \<mapsto> fresh name sz)) C"
    unfolding keeps_def
  proof
    fix b
    show "case ((chunks h)(?a \<mapsto> fresh name sz)) b of None \<Rightarrow> C b = None
        | Some c \<Rightarrow> \<exists>d. C b = Some d \<and> same_content d c"
      using others [of b] Ca paste_keeps [of X K p ?a b]
      by (cases "b = ?a") (auto simp: same_content_def split: option.split)
  qed
  ultimately show thesis using that run Some by simp
qed

section \<open>Moving\<close>

lemma below_mono: "(\<And>a. set (K a) \<subseteq> set (L a)) \<Longrightarrow> below K a \<subseteq> below L a"
  unfolding below_def using kid_mono [of K L] by (auto dest: rtrancl_mono)

lemma below_drop: "below (drop_kid b K) a \<subseteq> below K a"
  by (rule below_mono) auto

text \<open>A chunk out of its list becomes a root.\<close>

lemma settle_rep:
  assumes r: "rep (insert a X) h K R" and ca: "chunks h a = Some c" and flags: "tc_flags c = TALLOC_MAGIC"
    and aX: "a \<notin> X"
  shows "rep X (h\<lparr>chunks := (chunks h)(a \<mapsto> c\<lparr>tc_parent := None, tc_next := None, tc_prev := None\<rparr>)\<rparr>) K R"
proof -
  let ?d = "c\<lparr>tc_parent := None, tc_next := None, tc_prev := None\<rparr>"
  have ok: "chunk_ok (insert a X) K R a c" using repD(5) [OF r ca] .
  then have "own_ok K a ?d" by (auto simp: chunk_ok_def own_ok_def is_root_def)
  then have "chunk_ok X K R a ?d" using ok aX flags by (simp add: chunk_ok_def)
  moreover have "chunk_ok X K R b e" if "chunks h b = Some e" "b \<noteq> a" for b e
    using repD(5) [OF r that(1)] that(2) by (simp add: chunk_ok_def)
  moreover have "insert a (dom (chunks h)) = dom (chunks h)" using ca by auto
  moreover have "world_ok (h\<lparr>chunks := (chunks h)(a \<mapsto> ?d)\<rparr>)"
    using repD(3) [OF r] ca by (auto simp: world_ok_def)
  ultimately show ?thesis using r unfolding rep_def by auto
qed

definition attach :: "addr \<Rightarrow> addr \<Rightarrow> ('w tstate, unit) prog" where
  "attach p a = pthen (upd_chunk a (\<lambda>d. d\<lparr>tc_parent := Some p\<rparr>))
     (pbind (get_chunk p) (\<lambda>nc.
      pthen (upd_chunk_opt (tc_child nc) (\<lambda>d. d\<lparr>tc_parent := None\<rparr>)) (tlist_add_child p a)))"

lemma attach_run:
  assumes ca: "chunks h a = Some c" and cp: "chunks h p = Some cp" and pa: "p \<noteq> a"
  shows "tc_child cp = None \<Longrightarrow> attach p a h = Ok () (h\<lparr>chunks := (chunks h)
      (p \<mapsto> cp\<lparr>tc_child := Some a\<rparr>, a \<mapsto> c\<lparr>tc_parent := Some p, tc_next := None, tc_prev := None\<rparr>)\<rparr>)"
    and "tc_child cp = Some k \<Longrightarrow> chunks h k = Some ck \<Longrightarrow> k \<noteq> p \<Longrightarrow> k \<noteq> a \<Longrightarrow>
      attach p a h = Ok () (h\<lparr>chunks := (chunks h)
        (k \<mapsto> ck\<lparr>tc_parent := None, tc_prev := Some a\<rparr>, p \<mapsto> cp\<lparr>tc_child := Some a\<rparr>,
         a \<mapsto> c\<lparr>tc_parent := Some p, tc_next := Some k, tc_prev := None\<rparr>)\<rparr>)"
  using assms by (simp_all add: attach_def tlist_add_child_def run fun_upd_twist [of a p])

lemma attach_rep:
  assumes r: "rep (insert a X) h K R" and ca: "chunks h a = Some c" and flags: "tc_flags c = TALLOC_MAGIC"
    and aX: "a \<notin> X" and pd: "p \<in> dom (chunks h)" and nb: "p \<notin> below K a"
  obtains C where "attach p a h = Ok () (h\<lparr>chunks := C\<rparr>)"
    and "rep X (h\<lparr>chunks := C\<rparr>) (add_kid p a K) R" and "keeps (chunks h) C"
proof -
  obtain cp where cp: "chunks h p = Some cp" using pd by blast
  have pa: "p \<noteq> a" using nb by auto
  have root: "is_root K a" using repD(5) [OF r ca] by (simp add: chunk_ok_def)
  have np: "p \<notin> set (K p)" using acyclic_irrefl [OF forestD(2) [OF repD(1) [OF r]]] .
  have ch: "tc_child cp = hd_opt (K p)" using rep_child [OF r cp] .
  let ?d = "c\<lparr>tc_parent := Some p, tc_next := hd_opt (K p), tc_prev := None\<rparr>"
  define C where "C = (case K p of
        [] \<Rightarrow> (chunks h)(p \<mapsto> cp\<lparr>tc_child := Some a\<rparr>, a \<mapsto> ?d)
      | k # _ \<Rightarrow> (chunks h)(k \<mapsto> (the (chunks h k))\<lparr>tc_parent := None, tc_prev := Some a\<rparr>,
           p \<mapsto> cp\<lparr>tc_child := Some a\<rparr>, a \<mapsto> ?d))"
  have run: "attach p a h = Ok () (h\<lparr>chunks := C\<rparr>)"
  proof (cases "K p")
    case Nil
    then show ?thesis using attach_run(1) [OF ca cp pa] ch by (simp add: C_def)
  next
    case (Cons k ks)
    then obtain ck where ck: "chunks h k = Some ck" using rep_kid_chunk [OF r, of k p] by auto
    have k: "k \<noteq> p" "k \<noteq> a" using np Cons root by (auto simp: is_root_def dest: spec [of _ p])
    show ?thesis using attach_run(2) [OF ca cp pa _ ck k] Cons ch ck by (simp add: C_def)
  qed
  have others: "C b = map_option (paste (insert a X) K p a b) (chunks h b)" if "b \<noteq> a" for b
    by (rule paste_list [OF r cp pa _ C_def that]) (use ca in simp)
  have Ca: "C a = Some ?d" using pa by (auto simp: C_def split: list.split)
  have "rep (insert a X - {a}) (h\<lparr>chunks := C\<rparr>) (add_kid p a K) R"
    by (rule add_rep [OF r Ca root pd nb _ _ _ _ _ _ _ _ others])
      (use ca repD(5) [OF r ca] flags in \<open>auto simp: chunk_ok_def\<close>)
  moreover have "insert a X - {a} = X" using aX by auto
  moreover have "keeps (chunks h) C"
    unfolding keeps_def
  proof
    fix b
    show "case chunks h b of None \<Rightarrow> C b = None | Some c \<Rightarrow> \<exists>d. C b = Some d \<and> same_content d c"
      using others [of b] Ca ca paste_keeps [of "insert a X" K p a b]
      by (cases "b = a") (auto simp: same_content_def split: option.split)
  qed
  ultimately show thesis using that run by simp
qed

lemma add_drop_first:
  assumes ok: "lists_ok D K" and first: "hd_opt (K p) = Some a"
  shows "add_kid p a (drop_kid a K) = K"
proof
  fix q
  obtain xs where xs: "K p = a # xs" using first by (cases "K p") auto
  show "add_kid p a (drop_kid a K) q = K q"
  proof (cases "q = p")
    case True
    have "distinct (a # xs)" using lists_okD(1) [OF ok, of p] xs by simp
    then show ?thesis using True xs by (simp add: add_kid_def drop_kid_def)
  next
    case False
    then have "a \<notin> set (K q)" using lists_okD(4) [OF ok, of a p q] xs by auto
    then show ?thesis using False by (simp add: add_kid_def drop_kid_other)
  qed
qed

text \<open>\<open>__talloc_steal\<close>: the subtree at \<open>a\<close> becomes the first child of its new context.\<close>

lemma steal_spec:
  assumes r: "rep {} h K R" and ca: "chunks h a = Some c"
    and ctxt: "\<And>p. context_of h ctxt = Some p \<Longrightarrow> p \<in> dom (chunks h) \<and> p \<notin> below K a"
  obtains C where "talloc_steal_nolock ctxt (Some a) h = Ok (Some a) (h\<lparr>chunks := C\<rparr>)"
    and "rep {} (h\<lparr>chunks := C\<rparr>) (add_opt (context_of h ctxt) a (drop_kid a K)) R"
    and "keeps (chunks h) C"
proof -
  note flags = rep_flags [OF r ca]
  have magic: "magic_ok c" using rep_magic [OF r ca] .
  obtain C1 where det: "detach a h = Ok () (h\<lparr>chunks := C1\<rparr>)"
    and r1: "rep (insert a {}) (h\<lparr>chunks := C1\<rparr>) (drop_kid a K) R" and k1: "keeps (chunks h) C1"
    using detach_rep [OF r ca] by blast
  obtain c1 where c1: "C1 a = Some c1" and "same_content c1 c" using keepsD [OF k1 ca] by blast
  then have f1: "tc_flags c1 = TALLOC_MAGIC" using flags by (simp add: same_content_def)
  show thesis
  proof (cases "context_of h ctxt")
    case None
    then have nc: "ctxt = None" "null_context h = None" by (auto simp: context_of_def split: if_splits)
    define C where "C = C1(a \<mapsto> c1\<lparr>tc_parent := None, tc_next := None, tc_prev := None\<rparr>)"
    have "rep {} (h\<lparr>chunks := C\<rparr>) (drop_kid a K) R"
      using settle_rep [OF r1 _ f1] c1 by (simp add: C_def)
    moreover have "keeps C1 C"
      using c1 unfolding keeps_def C_def by (auto simp: same_content_def split: option.split)
    moreover have "talloc_steal_nolock ctxt (Some a) h = Ok (Some a) (h\<lparr>chunks := C\<rparr>)"
      using nc ca magic c1
      by (simp add: talloc_steal_nolock_def run run_step det C_def)
    ultimately show thesis using that None keeps_trans [OF k1] by simp
  next
    case (Some p)
    have pd: "p \<in> dom (chunks h)" and nb: "p \<notin> below K a" using ctxt [OF Some] by auto
    then obtain cp where cp: "chunks h p = Some cp" by blast
    have pa: "p \<noteq> a" using nb by auto
    have c': "(if ctxt = None then null_context h else ctxt) = Some p"
      using Some by (simp add: context_of_def)
    show thesis
    proof (cases "tc_parent c = Some p")
      case True
      then have "hd_opt (K p) = Some a"
        using rep_own [OF r ca] by (auto simp: own_ok_def is_root_def split: if_splits)
      then have "add_kid p a (drop_kid a K) = K" by (rule add_drop_first [OF repD(4) [OF r]])
      moreover have "talloc_steal_nolock ctxt (Some a) h = Ok (Some a) (h\<lparr>chunks := chunks h\<rparr>)"
        using c' ca magic cp rep_magic [OF r cp] True
        by (simp add: talloc_steal_nolock_def run Let_def)
      ultimately show thesis using that [of "chunks h"] Some r by simp
    next
      case False
      have "p \<notin> below (drop_kid a K) a" using nb below_drop by blast
      then obtain C where run2: "attach p a (h\<lparr>chunks := C1\<rparr>) = Ok () (h\<lparr>chunks := C\<rparr>)"
        and r2: "rep {} (h\<lparr>chunks := C\<rparr>) (add_kid p a (drop_kid a K)) R" and k2: "keeps C1 C"
        using attach_rep [OF r1 _ f1, of p] c1 pd keeps_dom [OF k1] by auto
      have "pthen (attach p a) (pret (Some a)) (h\<lparr>chunks := C1\<rparr>) = Ok (Some a) (h\<lparr>chunks := C\<rparr>)"
        using run2 by (simp add: run_step run)
      then have "talloc_steal_nolock ctxt (Some a) h = Ok (Some a) (h\<lparr>chunks := C\<rparr>)"
        using c' ca magic cp rep_magic [OF r cp] False pa
        by (simp add: talloc_steal_nolock_def run run_step det Let_def attach_def prog_assoc)
      then show thesis using that r2 Some keeps_trans [OF k1 k2] by simp
    qed
  qed
qed

end
