(* ===== verification/Talloc_Free.thy ===== *)
theory Talloc_Free
  imports Talloc_Alloc
begin

text \<open>
  Freeing: \<open>_talloc_free\<close> on the root of a subtree nobody refers to takes exactly that subtree out
  of the forest, after the destructors of its chunks have run, parents before their children.
\<close>

declare talloc_free_n.simps [simp del] free_children.simps [simp del]

section \<open>Subtrees\<close>

datatype tree = Node (root: addr) (subtrees: "tree list")

fun nodes :: "tree \<Rightarrow> addr list" where
  "nodes (Node a ts) = a # concat (map nodes ts)"

fun tree_ok :: "links \<Rightarrow> tree \<Rightarrow> bool" where
  "tree_ok K (Node a ts) \<longleftrightarrow> K a = map root ts \<and> (\<forall>t \<in> set ts. tree_ok K t)"

definition prune :: "addr set \<Rightarrow> links \<Rightarrow> links" where
  "prune S K = (\<lambda>a. if a \<in> S then [] else filter (\<lambda>b. b \<notin> S) (K a))"

lemma hd_nodes: "hd (nodes t) = root t"
  by (cases t) simp

lemma root_in_nodes [simp]: "root t \<in> set (nodes t)"
  by (cases t) simp

lemma prune_prune: "prune T (prune S K) = prune (S \<union> T) K"
  by (auto simp: prune_def fun_eq_iff)

lemma prune_drop: "set (K p) \<subseteq> S \<Longrightarrow> prune S (drop_kid p K) = prune (insert p S) K"
  by (auto simp: prune_def fun_eq_iff without_def drop_kid_def filter_empty_conv)

lemma tree_ok_cong: "(\<And>a. a \<in> set (nodes t) \<Longrightarrow> K a = L a) \<Longrightarrow> tree_ok K t = tree_ok L t"
  by (induction t) auto

lemma tree_kids_in: "tree_ok K t \<Longrightarrow> a \<in> set (nodes t) \<Longrightarrow> b \<in> set (K a) \<Longrightarrow> b \<in> set (nodes t)"
  by (induction t) fastforce+

lemma tree_ok_prune:
  assumes "tree_ok K t" and "set (nodes t) \<inter> S = {}"
  shows "tree_ok (prune S K) t"
proof -
  have "prune S K a = K a" if "a \<in> set (nodes t)" for a
  proof -
    have "a \<notin> S" using that assms(2) by blast
    moreover have "filter (\<lambda>b. b \<notin> S) (K a) = K a"
      using tree_kids_in [OF assms(1) that] assms(2) by (intro filter_True) blast
    ultimately show ?thesis by (simp add: prune_def)
  qed
  then show ?thesis using tree_ok_cong [of t "prune S K" K] assms(1) by simp
qed

section \<open>Destructors\<close>

text \<open>What the destructor of \<open>a\<close> does to the program's state.\<close>

definition destroy :: "'w tstate \<Rightarrow> addr \<Rightarrow> 'w \<Rightarrow> 'w" where
  "destroy h a w = (case chunks h a of None \<Rightarrow> w
     | Some c \<Rightarrow> (case tc_destructor c of D_user f \<Rightarrow> snd (user_destructor h f a w) | _ \<Rightarrow> w))"

text \<open>
  The destructor of a chunk does not refuse when it runs on the program's state \<open>w\<close>, whatever that
  state is, and the destructors of a list of chunks do not when they run one after the other.
\<close>

definition agrees_at :: "'w tstate \<Rightarrow> addr \<Rightarrow> 'w \<Rightarrow> bool" where
  "agrees_at h a w \<longleftrightarrow> (\<forall>c f. chunks h a = Some c \<longrightarrow> tc_destructor c = D_user f \<longrightarrow>
     fst (user_destructor h f a w) \<noteq> -1)"

fun all_agree :: "'w tstate \<Rightarrow> addr list \<Rightarrow> 'w \<Rightarrow> bool" where
  "all_agree h [] w \<longleftrightarrow> True"
| "all_agree h (a # S) w \<longleftrightarrow> agrees_at h a w \<and> all_agree h S (destroy h a w)"

definition agrees :: "'w tstate \<Rightarrow> addr \<Rightarrow> bool" where
  "agrees h a \<longleftrightarrow> (\<forall>c f w. chunks h a = Some c \<longrightarrow> tc_destructor c = D_user f \<longrightarrow>
     fst (user_destructor h f a w) \<noteq> -1)"

lemma agrees_agrees_at: "agrees h a \<Longrightarrow> agrees_at h a w"
  by (simp add: agrees_def agrees_at_def)

lemma agrees_all_agree: "(\<And>a. a \<in> set S \<Longrightarrow> agrees h a) \<Longrightarrow> all_agree h S w"
  by (induction S arbitrary: w) (auto intro: agrees_agrees_at)

lemma all_agree_append:
  "all_agree h (S @ T) w \<longleftrightarrow> all_agree h S w \<and> all_agree h T (fold (destroy h) S w)"
  by (induction S arbitrary: w) auto

lemma run_get_handle [run]: "handles h a = Some c \<Longrightarrow> pbind (get_handle a) f h = f c h"
  by (simp add: prog_defs get_handle_def)

lemma run_upd_handle [run]:
  "handles h a = Some c \<Longrightarrow>
     pbind (upd_handle a g) f h = f () (h\<lparr>handles := (handles h)(a \<mapsto> g c)\<rparr>)"
  by (simp add: prog_defs upd_handle_def)

lemma run_upd_handle_end [run]:
  "handles h a = Some c \<Longrightarrow> upd_handle a g h = Ok () (h\<lparr>handles := (handles h)(a \<mapsto> g c)\<rparr>)"
  by (simp add: prog_defs upd_handle_def)

lemma upd_handle_opt_simps [run]:
  "upd_handle_opt None g = pret ()" "upd_handle_opt (Some a) g = upd_handle a g"
  by (simp_all add: upd_handle_opt_def)

definition handle_in :: "addr list \<Rightarrow> addr \<Rightarrow> addr \<Rightarrow> talloc_reference_handle option \<Rightarrow> bool" where
  "handle_in xs q x r \<longleftrightarrow> r = Some \<lparr>h_next = succ_in xs x, h_prev = pred_in xs x, h_ptr = q\<rparr>"

lemma handle_in_ok: "(\<exists>r. H = Some r \<and> handle_ok R q g r) \<longleftrightarrow> handle_in (R q) q g H"
  by (auto simp: handle_in_def handle_ok_def intro: talloc_reference_handle.equality)

text \<open>\<open>_TLIST_REMOVE(tc->refs, handle)\<close>.\<close>

lemma remove_ref_run:
  assumes cq: "chunks h q = Some cq" and refs: "tc_refs cq = hd_opt xs" and dist: "distinct xs"
    and gin: "g \<in> set xs" and H: "\<And>x. x \<in> set xs \<Longrightarrow> handle_in xs q x (handles h x)"
  shows "\<exists>H'. tlist_remove_ref q g h = Ok ()
      (h\<lparr>chunks := (chunks h)(q \<mapsto> cq\<lparr>tc_refs := hd_opt (without g xs)\<rparr>), handles := H'\<rparr>) \<and>
    (\<forall>x \<in> set xs - {g}. handle_in (without g xs) q x (H' x)) \<and> (\<forall>x. x \<notin> set xs \<longrightarrow> H' x = handles h x)"
proof -
  let ?upd = "\<lambda>H'. h\<lparr>chunks := (chunks h)(q \<mapsto> cq\<lparr>tc_refs := hd_opt (without g xs)\<rparr>), handles := H'\<rparr>"
  let ?rec = "\<lambda>n p. \<lparr>h_next = n, h_prev = p, h_ptr = q\<rparr>"
  have hg: "handles h g = Some (?rec (succ_in xs g) (pred_in xs g))"
    using H [OF gin] by (simp add: handle_in_def)
  have hx: "handles h x = Some (?rec (succ_in xs x) (pred_in xs x))" if "x \<in> set xs" for x
    using H [OF that] by (simp add: handle_in_def)
  have new: "handle_in (without g xs) q x (Some (?rec
      (if pred_in xs g = Some x then succ_in xs g else succ_in xs x)
      (if succ_in xs g = Some x then pred_in xs g else pred_in xs x)))" if "x \<noteq> g" for x
    using that dist succ_pred_in [OF dist, of x g] succ_pred_in [OF dist, of g x]
    by (simp add: handle_in_def succ_in_without pred_from_without)
  have cq_id: "cq\<lparr>tc_refs := hd_opt xs\<rparr> = cq" using refs by (auto intro!: chunk_eqI simp: same_content_def)
  have sg: "y \<in> set xs \<and> y \<noteq> g" if "succ_in xs g = Some y \<or> pred_in xs g = Some y" for y
    using that dist by (auto simp: succ_in_irrefl pred_in_irrefl dest: succ_in_set pred_in_set)
  have fin: ?thesis if "tlist_remove_ref q g h = Ok () (?upd H')"
    "\<And>x. x \<in> set xs - {g} \<Longrightarrow> handle_in (without g xs) q x (H' x)"
    "\<And>x. x \<notin> set xs \<Longrightarrow> H' x = handles h x" for H'
    using that by blast
  show ?thesis
  proof (cases "hd_opt xs = Some g")
    case True
    then have pr: "pred_in xs g = None" and hd: "hd_opt (without g xs) = succ_in xs g"
      using pred_in_None [OF gin dist] dist by (simp_all add: hd_opt_without)
    show ?thesis
    proof (cases "succ_in xs g")
      case None
      have "tlist_remove_ref q g h = Ok () (?upd ((handles h)(g \<mapsto> ?rec None None)))"
        using cq refs True hg hd None pr by (simp add: tlist_remove_ref_def run)
      moreover have "handle_in (without g xs) q x (((handles h)(g \<mapsto> ?rec None None)) x)"
        if "x \<in> set xs - {g}" for x
        using that new [of x] None pr hx [of x] by simp
      ultimately show ?thesis by (rule fin) (use gin in auto)
    next
      case (Some y)
      let ?H = "(handles h)(y \<mapsto> ?rec (succ_in xs y) None, g \<mapsto> ?rec None None)"
      have "tlist_remove_ref q g h = Ok () (?upd ?H)"
        using cq refs True hg hd Some pr sg [of y] hx [of y]
        by (simp add: tlist_remove_ref_def run)
      moreover have "handle_in (without g xs) q x (?H x)" if "x \<in> set xs - {g}" for x
        using that new [of x] Some pr hx [of x] by (cases "x = y") auto
      ultimately show ?thesis by (rule fin) (use gin sg [of y] Some in auto)
    qed
  next
    case False
    then obtain p where pr: "pred_in xs g = Some p" using pred_in_None [OF gin dist] by auto
    have hd: "hd_opt (without g xs) = hd_opt xs" using False dist by (simp add: hd_opt_without)
    have p: "p \<in> set xs" "p \<noteq> g" using sg [of p] pr by auto
    have "(chunks h)(q \<mapsto> cq\<lparr>tc_refs := hd_opt (without g xs)\<rparr>) = chunks h"
      using cq cq_id hd fun_upd_triv [of "chunks h" q] by simp
    then have C: "h\<lparr>handles := H'\<rparr> = ?upd H'" for H' by simp
    show ?thesis
    proof (cases "succ_in xs g")
      case None
      let ?H = "(handles h)(p \<mapsto> ?rec None (pred_in xs p), g \<mapsto> ?rec None None)"
      have "tlist_remove_ref q g h = Ok () (h\<lparr>handles := ?H\<rparr>)"
        using cq refs False hg None pr p hx [OF p(1)] by (simp add: tlist_remove_ref_def run)
      then have "tlist_remove_ref q g h = Ok () (?upd ?H)" unfolding C .
      moreover have "handle_in (without g xs) q x (?H x)" if "x \<in> set xs - {g}" for x
        using that new [of x] None pr hx [of x] by (cases "x = p") auto
      ultimately show ?thesis by (rule fin) (use gin p in auto)
    next
      case (Some y)
      have y: "y \<in> set xs" "y \<noteq> g" using sg [of y] Some by auto
      have yp: "y \<noteq> p" using pred_ne_succ [OF dist Some] pr by auto
      let ?H = "(handles h)(p \<mapsto> ?rec (Some y) (pred_in xs p), y \<mapsto> ?rec (succ_in xs y) (Some p),
        g \<mapsto> ?rec None None)"
      have "tlist_remove_ref q g h = Ok () (h\<lparr>handles := ?H\<rparr>)"
        using cq refs False hg Some pr p y yp hx [OF p(1)] hx [OF y(1)]
        by (simp add: tlist_remove_ref_def run)
      then have "tlist_remove_ref q g h = Ok () (?upd ?H)" unfolding C .
      moreover have "handle_in (without g xs) q x (?H x)" if "x \<in> set xs - {g}" for x
        using that new [of x] Some pr hx [of x] yp by (cases "x = p"; cases "x = y") auto
      ultimately show ?thesis by (rule fin) (use gin p y in auto)
    qed
  qed
qed

text \<open>What a run of the operation leaves alone outside of \<open>S\<close>.\<close>

definition survives :: "addr set \<Rightarrow> 'w tstate \<Rightarrow> 'w tstate \<Rightarrow> bool" where
  "survives S h h' \<longleftrightarrow>
     (\<forall>b. b \<notin> S \<longrightarrow> payload h' b = payload h b \<and>
        (case chunks h b of None \<Rightarrow> chunks h' b = None
         | Some c \<Rightarrow> \<exists>d. chunks h' b = Some d \<and> same_content d c)) \<and>
     next_addr h' = next_addr h \<and> null_context h' = null_context h \<and>
     user_destructor h' = user_destructor h \<and> ticks h' = ticks h \<and> oom h' = oom h \<and> moves h' = moves h"

lemma survives_refl [simp]: "survives S h h"
  by (auto simp: survives_def split: option.split)

lemma survives_trans:
  assumes 1: "survives S h h1" and 2: "survives T h1 h2"
  shows "survives (S \<union> T) h h2"
proof -
  have "case chunks h b of None \<Rightarrow> chunks h2 b = None
      | Some c \<Rightarrow> \<exists>d. chunks h2 b = Some d \<and> same_content d c" if "b \<notin> S" "b \<notin> T" for b
    using 1 2 that by (cases "chunks h b") (auto simp: survives_def same_content_def dest!: spec [of _ b])
  then show ?thesis using 1 2 by (simp add: survives_def)
qed

lemma survivesD:
  "survives S h h' \<Longrightarrow> b \<notin> S \<Longrightarrow> chunks h b = Some c \<Longrightarrow> \<exists>d. chunks h' b = Some d \<and> same_content d c"
  "survives S h h' \<Longrightarrow> b \<notin> S \<Longrightarrow> chunks h b = None \<Longrightarrow> chunks h' b = None"
  by (auto simp: survives_def dest!: spec [of _ b])

lemma survives_keeps: "keeps (chunks h) C \<Longrightarrow> survives S h (h\<lparr>chunks := C\<rparr>)"
  using keepsD keeps_None by (fastforce simp: survives_def split: option.split)

lemma clear_destructor_rep:
  assumes r: "rep X h K R" and cp: "chunks h p = Some c" and root: "is_root R p"
  shows "rep X (h\<lparr>chunks := (chunks h)(p \<mapsto> c\<lparr>tc_destructor := D_null\<rparr>)\<rparr>) K R"
proof -
  have "own_ok K p (c\<lparr>tc_destructor := D_null\<rparr>) = own_ok K p c" by (simp add: own_ok_def)
  then have "chunk_ok X K R p (c\<lparr>tc_destructor := D_null\<rparr>)"
    using repD(5) [OF r cp] root by (auto simp: chunk_ok_def magic_ok_def)
  moreover have "insert p (dom (chunks h)) = dom (chunks h)" using cp by auto
  moreover have "world_ok (h\<lparr>chunks := (chunks h)(p \<mapsto> c\<lparr>tc_destructor := D_null\<rparr>)\<rparr>)"
    using repD(3) [OF r] cp by (auto simp: world_ok_def)
  ultimately show ?thesis using r unfolding rep_def by auto
qed

lemma drop_ref_rep:
  assumes r: "rep X h K R" and cp: "chunks h p = Some c" and pq: "p \<in> set (R q)" and ne: "q \<noteq> p"
    and cq: "chunks h q = Some cq"
    and H: "\<forall>x \<in> set (R q) - {p}. handle_in (without p (R q)) q x (H' x)"
    and H': "\<forall>x. x \<notin> set (R q) \<longrightarrow> H' x = handles h x"
  shows "rep X (h\<lparr>chunks := (chunks h)(q \<mapsto> cq\<lparr>tc_refs := hd_opt (without p (R q))\<rparr>,
      p \<mapsto> c\<lparr>tc_destructor := D_null\<rparr>), handles := H'\<rparr>) K (drop_kid p R)"
proof -
  note okR = repD(2) [OF r]
  have other: "p \<notin> set (R a)" if "a \<noteq> q" for a using lists_okD(4) [OF okR, of p a q] pq that by blast
  have "own_ok K p (c\<lparr>tc_destructor := D_null\<rparr>) = own_ok K p c" by (simp add: own_ok_def)
  then have okp: "chunk_ok X K (drop_kid p R) p (c\<lparr>tc_destructor := D_null\<rparr>)"
    using repD(5) [OF r cp] other [of p] ne by (auto simp: chunk_ok_def magic_ok_def drop_kid_other)
  have "own_ok K q (cq\<lparr>tc_refs := x\<rparr>) = own_ok K q cq" for x by (simp add: own_ok_def)
  then have okq: "chunk_ok X K (drop_kid p R) q (cq\<lparr>tc_refs := hd_opt (without p (R q))\<rparr>)"
    using repD(5) [OF r cq] is_root_drop [OF ne, of R]
    by (auto simp: chunk_ok_def magic_ok_def drop_kid_def)
  have oko: "chunk_ok X K (drop_kid p R) b e" if "chunks h b = Some e" "b \<noteq> p" "b \<noteq> q" for b e
    using repD(5) [OF r that(1)] is_root_drop [OF that(2), of R] other [OF that(3)]
    by (simp add: chunk_ok_def drop_kid_other)
  have "handle_in (drop_kid p R a) a g (H' g)" if g: "g \<in> set (drop_kid p R a)" for g a
  proof (cases "a = q")
    case True
    then show ?thesis using H g by (simp add: drop_kid_def)
  next
    case False
    then have "g \<notin> set (R q)" using g lists_okD(4) [OF okR, of g a q] by auto
    moreover have "handle_in (R a) a g (handles h g)"
      using repD(6) [OF r, of g a] g by (simp add: handle_in_ok)
    ultimately show ?thesis using H' other [OF False] by (simp add: drop_kid_other)
  qed
  moreover have "insert p (insert q (dom (chunks h))) = dom (chunks h)" using cp cq by auto
  moreover have "world_ok (h\<lparr>chunks := (chunks h)(q \<mapsto> cq\<lparr>tc_refs := hd_opt (without p (R q))\<rparr>,
      p \<mapsto> c\<lparr>tc_destructor := D_null\<rparr>), handles := H'\<rparr>)"
    using repD(3) [OF r] cp cq by (auto simp: world_ok_def)
  ultimately show ?thesis
    using repD(1,3) [OF r] lists_ok_drop [OF okR, of p] okp okq oko
    unfolding rep_def by (auto simp: handle_in_ok)
qed

lemma run_destructor_spec:
  assumes r: "rep X h K R" and cp: "chunks h p = Some c" and agr: "agrees_at h p (outside h)" and Rp: "R p = []"
  obtains h1 d where "run_destructor p h = Ok True h1" and "rep X h1 K (drop_kid p R)"
    and "chunks h1 p = Some d" and "tc_flags d = tc_flags c" and "tc_destructor d = D_null"
    and "survives {p} h h1"
    and "outside h1 = destroy h p (outside h)"
proof -
  have ok: "chunk_ok X K R p c" using repD(5) [OF r cp] .
  have chd: "survives {p} h (h\<lparr>chunks := (chunks h)(p \<mapsto> d)\<rparr>)" for d
    by (auto simp: survives_def split: option.split)
  show thesis
  proof (cases "tc_destructor c")
    case D_null
    then have "is_root R p" using ok by (simp add: chunk_ok_def)
    then show thesis using that [of h c] D_null cp r by (simp add: run_destructor_def run destroy_def)
  next
    case D_reference
    then obtain q where pq: "p \<in> set (R q)" using ok by (auto simp: chunk_ok_def is_root_def)
    have ne: "q \<noteq> p" using pq Rp by auto
    obtain cq where cq: "chunks h q = Some cq"
      using lists_okD(3) [OF repD(2) [OF r] pq] by auto
    let ?h = "h\<lparr>chunks := (chunks h)(p \<mapsto> c\<lparr>tc_destructor := D_minus_1\<rparr>)\<rparr>"
    have hp: "handle_in (R q) q x (handles h x)" if "x \<in> set (R q)" for x
      using repD(6) [OF r that] by (simp add: handle_in_ok)
    obtain H' where rm: "tlist_remove_ref q p ?h = Ok ()
        (?h\<lparr>chunks := (chunks ?h)(q \<mapsto> cq\<lparr>tc_refs := hd_opt (without p (R q))\<rparr>), handles := H'\<rparr>)"
      and H: "\<forall>x \<in> set (R q) - {p}. handle_in (without p (R q)) q x (H' x)"
        "\<forall>x. x \<notin> set (R q) \<longrightarrow> H' x = handles ?h x"
      using remove_ref_run [of ?h q cq "R q" p] cq ne rep_refs [OF r cq] pq hp
        lists_okD(1) [OF repD(2) [OF r], of q] by auto
    let ?h1 = "h\<lparr>chunks := (chunks h)(q \<mapsto> cq\<lparr>tc_refs := hd_opt (without p (R q))\<rparr>,
      p \<mapsto> c\<lparr>tc_destructor := D_null\<rparr>), handles := H'\<rparr>"
    have "run_destructor p h = Ok True ?h1"
      using D_reference cp hp [OF pq] rm ne cq rep_magic [OF r cq]
      by (simp add: run_destructor_def call_destructor_def talloc_reference_destructor_def
          handle_in_def run run_step fun_upd_twist [of p q])
    moreover have "rep X ?h1 K (drop_kid p R)"
      by (rule drop_ref_rep [OF r cp pq ne cq H(1)]) (use H(2) in simp)
    moreover have "survives {p} h ?h1"
      using cq by (auto simp: survives_def same_content_def split: option.split)
    ultimately show thesis using that [of ?h1] D_reference cp by (simp add: destroy_def)
  next
    case D_autofree
    then have root: "is_root R p" using ok by (simp add: chunk_ok_def)
    let ?h1 = "h\<lparr>chunks := (chunks h)(p \<mapsto> c\<lparr>tc_destructor := D_null\<rparr>), autofree_context := None\<rparr>"
    have "rep X ?h1 K R"
      using clear_destructor_rep [OF r cp root] by (simp add: rep_def world_ok_def)
    moreover have "run_destructor p h = Ok True ?h1"
      using D_autofree cp by (simp add: run_destructor_def call_destructor_def run)
    moreover have "survives {p} h ?h1" by (auto simp: survives_def split: option.split)
    ultimately show thesis using that [of ?h1] D_autofree cp root by (simp add: destroy_def)
  next
    case (D_user f)
    then have root: "is_root R p" using ok by (simp add: chunk_ok_def)
    obtain v w where vw: "user_destructor h f p (outside h) = (v, w)" by fastforce
    have v: "v \<noteq> -1" using agr cp D_user vw by (auto simp: agrees_at_def)
    let ?h1 = "h\<lparr>chunks := (chunks h)(p \<mapsto> c\<lparr>tc_destructor := D_null\<rparr>), outside := w\<rparr>"
    have "rep X ?h1 K R"
      using clear_destructor_rep [OF r cp root] by (simp add: rep_def world_ok_def)
    moreover have "run_destructor p h = Ok True ?h1"
      using D_user cp vw v
      by (simp add: run_destructor_def call_destructor_def run)
    moreover have "survives {p} h ?h1" by (auto simp: survives_def split: option.split)
    ultimately show thesis using that [of ?h1] D_user cp root vw by (simp add: destroy_def)
  next
    case D_minus_1
    then show thesis using ok by (simp add: chunk_ok_def)
  qed
qed

section \<open>Freeing a subtree\<close>

definition freed ::
    "addr set \<Rightarrow> 'w tstate \<Rightarrow> links \<Rightarrow> links \<Rightarrow> addr list \<Rightarrow> 'w tstate \<Rightarrow> bool" where
  "freed X h K R S h' \<longleftrightarrow> rep X h' (prune (set S) K) (prune (set S) R) \<and>
     survives (set S) h h' \<and> (\<forall>b \<in> set S. chunks h' b = None) \<and>
     outside h' = fold (destroy h) S (outside h)"

text \<open>What makes the nodes of a subtree ready to be freed.\<close>

definition ready :: "'w tstate \<Rightarrow> links \<Rightarrow> addr list \<Rightarrow> bool" where
  "ready h R S \<longleftrightarrow> (\<forall>a \<in> set S. R a = [] \<and> null_context h \<noteq> Some a) \<and>
     all_agree h S (outside h)"

lemma prune_empty [simp]: "prune {} K = K"
  by (rule ext) (simp add: prune_def)

lemma freed_nil [simp]: "rep X h K R \<Longrightarrow> freed X h K R [] h"
  by (simp add: freed_def)

lemma survives_frame:
  assumes "survives S h h'"
  shows "user_destructor h' = user_destructor h" and "null_context h' = null_context h"
    and "next_addr h' = next_addr h" and "ticks h' = ticks h" and "oom h' = oom h"
    and "b \<notin> S \<Longrightarrow> payload h' b = payload h b"
  using assms by (simp_all add: survives_def)

lemma survives_destructor:
  assumes "survives S h h'" and "b \<notin> S"
  shows "map_option tc_destructor (chunks h' b) = map_option tc_destructor (chunks h b)"
  using survivesD [OF assms] by (cases "chunks h b") (auto simp: same_content_def)

lemma survives_destroy: "survives S h h' \<Longrightarrow> b \<notin> S \<Longrightarrow> destroy h' b = destroy h b"
  using survives_destructor [of S h h' b] survives_frame(1) [of S h h']
  by (intro ext) (cases "chunks h b"; cases "chunks h' b"; simp add: destroy_def split: destructor.split)

lemma survives_agrees: "survives S h h' \<Longrightarrow> b \<notin> S \<Longrightarrow> agrees_at h' b = agrees_at h b"
  using survives_destructor [of S h h' b] survives_frame(1) [of S h h']
  by (intro ext) (cases "chunks h b"; cases "chunks h' b"; simp add: agrees_at_def)

lemma survives_all_agree:
  "survives S h h' \<Longrightarrow> set T \<inter> S = {} \<Longrightarrow> all_agree h' T w = all_agree h T w"
  by (induction T arbitrary: w) (simp_all add: survives_agrees survives_destroy)

lemma survives_ready:
  assumes s: "survives (set S) h h'" and disj: "set T \<inter> set S = {}" and rd: "ready h R (S @ T)"
    and out: "outside h' = fold (destroy h) S (outside h)"
  shows "ready h' (prune (set S) R) T"
proof -
  have "b \<notin> set S" if "b \<in> set T" for b using that disj by auto
  then show ?thesis
    using rd out survives_all_agree [OF s disj] survives_frame(2) [OF s]
    by (simp add: ready_def prune_def all_agree_append)
qed

lemma freed_append:
  assumes 1: "freed X h K R S h1" and 2: "freed X h1 (prune (set S) K) (prune (set S) R) T h2"
    and disj: "set S \<inter> set T = {}"
  shows "freed X h K R (S @ T) h2"
proof -
  have "destroy h1 b = destroy h b" if "b \<in> set T" for b
    by (rule survives_destroy [of "set S"]) (use 1 that disj in \<open>auto simp: freed_def\<close>)
  then have "fold (destroy h1) T w = fold (destroy h) T w" for w by (intro fold_cong) auto
  moreover have "chunks h2 b = None" if "b \<in> set S" for b
    using 1 2 that survivesD(2) [of "set T" h1 h2 b] disj by (auto simp: freed_def)
  ultimately show ?thesis
    using 1 2 survives_trans [of "set S" h h1 "set T" h2]
    by (auto simp: freed_def prune_prune)
qed

lemma lists_ok_remove:
  assumes ok: "lists_ok D K" and root: "is_root K p" and Kp: "K p = []"
  shows "lists_ok (D - {p}) K"
proof (rule lists_ok_sub [OF ok])
  fix a
  show "distinct (K a)" using lists_okD(1) [OF ok] .
  show "set (K a) \<subseteq> set (K a) \<inter> (D - {p})"
    using lists_okD(2) [OF ok] root by (auto simp: is_root_def)
  show "K a = []" if "a \<notin> D - {p}" using that lists_okD(5) [OF ok, of a] Kp by auto
qed

text \<open>The chunk itself goes last.\<close>

lemma release_rep:
  assumes r: "rep (insert p X) h K R" and cp: "chunks h p = Some c" and Kp: "K p = []" and Rp: "R p = []"
    and root: "is_root R p" and nc: "null_context h \<noteq> Some p" and pX: "p \<notin> X"
  shows "rep X (h\<lparr>chunks := (chunks h)(p := None), handles := (handles h)(p := None),
    payload := (payload h)(p := [])\<rparr>) K R"
proof -
  have rootK: "is_root K p" using repD(5) [OF r cp] by (simp add: chunk_ok_def)
  have nk: "p \<notin> set (K a)" "p \<notin> set (R a)" for a using rootK root by (auto simp: is_root_def)
  have dom: "dom ((chunks h)(p := None)) = dom (chunks h) - {p}" by auto
  have "forest (dom (chunks h) - {p}) K"
    using lists_ok_remove [OF repD(4) [OF r] rootK Kp] repD(1) [OF r] by (simp add: forest_def)
  moreover have "lists_ok (dom (chunks h) - {p}) R"
    using lists_ok_remove [OF repD(2) [OF r] root Rp] .
  moreover have "chunk_ok X K R b e" if "chunks h b = Some e" "b \<noteq> p" for b e
    using repD(5) [OF r that(1)] that(2) by (simp add: chunk_ok_def)
  moreover have "world_ok (h\<lparr>chunks := (chunks h)(p := None), handles := (handles h)(p := None),
      payload := (payload h)(p := [])\<rparr>)"
    using repD(3) [OF r] nc by (auto simp: world_ok_def)
  moreover have "g \<noteq> p" if "g \<in> set (R q)" for g q using that nk by auto
  ultimately show ?thesis using repD(6) [OF r] unfolding rep_def by (auto simp: dom)
qed

lemma length_nodes: "0 < length (nodes t)"
  by (cases t) simp

lemma rep_flag_LOOP:
  assumes r: "rep X h K R" and cp: "chunks h p = Some c" and pX: "p \<in> X" and m: "magic_ok (c\<lparr>tc_flags := f\<rparr>)"
  shows "rep X (h\<lparr>chunks := (chunks h)(p \<mapsto> c\<lparr>tc_flags := f\<rparr>)\<rparr>) K R"
proof -
  have "chunk_ok X K R p (c\<lparr>tc_flags := f\<rparr>)" using repD(5) [OF r cp] pX m by (simp add: chunk_ok_def)
  moreover have "insert p (dom (chunks h)) = dom (chunks h)" using cp by auto
  moreover have "world_ok (h\<lparr>chunks := (chunks h)(p \<mapsto> c\<lparr>tc_flags := f\<rparr>)\<rparr>)"
    using repD(3) [OF r] cp by (auto simp: world_ok_def)
  ultimately show ?thesis using r unfolding rep_def by auto
qed

lemma free_children_step:
  assumes free: "\<exists>h1. talloc_free_n n (Some (root t)) h = Ok 0 h1 \<and> freed X h K R (nodes t) h1"
    and rest: "\<And>h1. freed X h K R (nodes t) h1 \<Longrightarrow>
      \<exists>h2. free_children n p h1 = Ok () h2 \<and>
        freed X h1 (prune (set (nodes t)) K) (prune (set (nodes t)) R) (concat (map nodes ts)) h2"
    and r: "rep X h K R" and cp: "chunks h p = Some c" and Kp: "K p = map root (t # ts)"
    and Rt: "R (root t) = []"
    and disj: "set (nodes t) \<inter> set (concat (map nodes ts)) = {}"
  shows "\<exists>h2. free_children (Suc n) p h = Ok () h2 \<and> freed X h K R (concat (map nodes (t # ts))) h2"
proof -
  have "tc_child c = Some (root t)" using rep_child [OF r cp] Kp by simp
  moreover obtain k where k: "chunks h (root t) = Some k" using rep_kid_chunk [OF r, of "root t" p] Kp by auto
  moreover have "tc_refs k = None" using rep_refs [OF r k] Rt by simp
  moreover obtain h1 h2 where "talloc_free_n n (Some (root t)) h = Ok 0 h1"
    and f1: "freed X h K R (nodes t) h1" and "free_children n p h1 = Ok () h2"
    and f2: "freed X h1 (prune (set (nodes t)) K) (prune (set (nodes t)) R) (concat (map nodes ts)) h2"
    using free rest by blast
  ultimately have "free_children (Suc n) p h = Ok () h2" using cp
    by (simp add: run run_step free_children.simps)
  then show ?thesis using freed_append [OF f1 f2 disj] by simp
qed

lemma MAGIC_flags [simp]:
  "TALLOC_MAGIC AND TALLOC_FLAG_LOOP = 0" "TALLOC_MAGIC AND TALLOC_FLAG_EXT_ALLOC = 0"
  by (simp_all add: flag_defs)

lemma magic_LOOP: "tc_flags c = TALLOC_MAGIC \<Longrightarrow> magic_ok (c\<lparr>tc_flags := tc_flags c OR TALLOC_FLAG_LOOP\<rparr>)"
  by (simp add: magic_ok_def flag_defs)

lemma survives_upd: "survives {p} h (h\<lparr>chunks := (chunks h)(p \<mapsto> d)\<rparr>)"
  by (auto simp: survives_def split: option.split)

lemma free_node_step:
  assumes kids: "\<And>h3. rep (insert p X) h3 (drop_kid p K) (drop_kid p R) \<Longrightarrow> survives {p} h h3 \<Longrightarrow>
      p \<in> dom (chunks h3) \<Longrightarrow> outside h3 = destroy h p (outside h) \<Longrightarrow> \<exists>h4. free_children n p h3 = Ok () h4 \<and>
        freed (insert p X) h3 (drop_kid p K) (drop_kid p R) (concat (map nodes ts)) h4"
    and r: "rep X h K R" and pX: "p \<notin> X" and cp: "chunks h p = Some c"
    and Kp: "K p = map root ts" and rd: "ready h R [p]"
    and dist: "distinct (nodes (Node p ts))"
  shows "\<exists>h'. talloc_free_n (Suc n) (Some p) h = Ok 0 h' \<and> freed X h K R (nodes (Node p ts)) h'"
proof -
  let ?S = "concat (map nodes ts)"
  have pS: "p \<notin> set ?S" using dist by simp
  have Rp: "R p = []" and agr: "agrees_at h p (outside h)" and nc: "null_context h \<noteq> Some p"
    using rd by (simp_all add: ready_def)
  have flags: "tc_flags c = TALLOC_MAGIC" using rep_flags [OF r cp pX] .
  obtain h1 d where run1: "run_destructor p h = Ok True h1" and r1: "rep X h1 K (drop_kid p R)"
    and d: "chunks h1 p = Some d" "tc_flags d = tc_flags c"
    and s1: "survives {p} h h1" and o1: "outside h1 = destroy h p (outside h)"
    using run_destructor_spec [OF r cp agr Rp] by blast
  obtain C where run2: "detach p h1 = Ok () (h1\<lparr>chunks := C\<rparr>)"
    and r2: "rep (insert p X) (h1\<lparr>chunks := C\<rparr>) (drop_kid p K) (drop_kid p R)" and k2: "keeps (chunks h1) C"
    using detach_rep [OF r1 d(1) pX] by blast
  obtain e where e: "C p = Some e" "tc_flags e = TALLOC_MAGIC"
    using keepsD [OF k2 d(1)] d(2) flags by (auto simp: same_content_def)
  let ?e = "e\<lparr>tc_flags := tc_flags e OR TALLOC_FLAG_LOOP\<rparr>"
  let ?h3 = "h1\<lparr>chunks := C(p \<mapsto> ?e)\<rparr>"
  have r3: "rep (insert p X) ?h3 (drop_kid p K) (drop_kid p R)"
    using rep_flag_LOOP [OF r2 _ _ magic_LOOP [OF e(2)]] e by simp
  have s3: "survives {p} h ?h3"
    using survives_trans [OF survives_trans [OF s1 survives_keeps [OF k2, of "{}"]]
        survives_upd [of p "h1\<lparr>chunks := C\<rparr>" ?e]] by simp
  obtain h4 where run4: "free_children n p ?h3 = Ok () h4"
    and f4: "freed (insert p X) ?h3 (drop_kid p K) (drop_kid p R) ?S h4"
    using kids [OF r3 s3] o1 by auto
  have s4: "survives (set ?S) ?h3 h4" using f4 by (simp add: freed_def)
  obtain g where g: "chunks h4 p = Some g" using survivesD(1) [OF s4 pS] by auto
  let ?h' = "h4\<lparr>chunks := (chunks h4)(p := None), handles := (handles h4)(p := None),
    payload := (payload h4)(p := [])\<rparr>"
  have run: "talloc_free_n (Suc n) (Some p) h = Ok 0 ?h'"
    using cp rep_magic [OF r cp] rep_refs [OF r cp] Rp flags run1 run2 run4 e g
    by (simp add: run run_step free_chunk_def talloc_free_n.simps)
  have roots: "root ` set ts \<subseteq> set ?S" by auto
  have PK: "prune (set ?S) (drop_kid p K) = prune (insert p (set ?S)) K"
    by (rule prune_drop) (use Kp roots in auto)
  have PR: "prune (set ?S) (drop_kid p R) = prune (insert p (set ?S)) R"
    by (rule prune_drop) (simp add: Rp)
  have "rep X ?h' (prune (set ?S) (drop_kid p K)) (prune (set ?S) (drop_kid p R))"
  proof (rule release_rep [OF _ g _ _ _ _ pX])
    show "rep (insert p X) h4 (prune (set ?S) (drop_kid p K)) (prune (set ?S) (drop_kid p R))"
      using f4 by (simp add: freed_def)
    show "null_context h4 \<noteq> Some p" using survives_frame(2) [OF s4] survives_frame(2) [OF s3] nc by simp
    show "prune (set ?S) (drop_kid p K) p = []" "prune (set ?S) (drop_kid p R) p = []"
      unfolding PK PR by (simp_all add: prune_def)
    show "is_root (prune (set ?S) (drop_kid p R)) p"
      unfolding PR by (simp add: prune_def is_root_def)
  qed
  then have "rep X ?h' (prune (insert p (set ?S)) K) (prune (insert p (set ?S)) R)"
    unfolding PK PR .
  moreover have "survives (insert p (set ?S)) h ?h'"
  proof -
    have "survives {p} h4 ?h'" by (auto simp: survives_def split: option.split)
    from survives_trans [OF survives_trans [OF s3 s4] this] show ?thesis by simp
  qed
  moreover have "\<forall>b \<in> insert p (set ?S). chunks ?h' b = None" using f4 by (auto simp: freed_def)
  moreover have "outside ?h' = fold (destroy h) (p # ?S) (outside h)"
  proof -
    have "destroy ?h3 b = destroy h b" if "b \<in> set ?S" for b
      by (rule survives_destroy [OF s3]) (use that pS in auto)
    then have "fold (destroy ?h3) ?S w = fold (destroy h) ?S w" for w by (intro fold_cong) auto
    then show ?thesis using f4 o1 by (simp add: freed_def)
  qed
  ultimately show ?thesis
    using run unfolding freed_def nodes.simps list.set(2) by blast
qed

lemma ready_first: "ready h R (S @ T) \<Longrightarrow> ready h R S"
  by (simp add: ready_def all_agree_append)

lemma ready_drop:
  assumes s: "survives {p} h h'" and pT: "p \<notin> set T" and rd: "ready h R (p # T)"
    and out: "outside h' = destroy h p (outside h)"
  shows "ready h' (drop_kid p R) T"
proof -
  have "b \<notin> {p}" if "b \<in> set T" for b using that pT by auto
  then show ?thesis
    using rd out survives_all_agree [OF s, of T] survives_frame(2) [OF s] pT
    by (simp add: ready_def drop_kid_def)
qed

lemma subtree_free_spec:
  "(rep X h K R \<longrightarrow> tree_ok K t \<longrightarrow> distinct (nodes t) \<longrightarrow> root t \<in> dom (chunks h) - X \<longrightarrow>
     ready h R (nodes t) \<longrightarrow> 2 * length (nodes t) \<le> n \<longrightarrow>
     (\<exists>h'. talloc_free_n n (Some (root t)) h = Ok 0 h' \<and> freed X h K R (nodes t) h')) \<and>
   (rep X h K R \<longrightarrow> p \<in> dom (chunks h) \<longrightarrow> K p = map root ts \<longrightarrow> (\<forall>t \<in> set ts. tree_ok K t) \<longrightarrow>
     distinct (concat (map nodes ts)) \<longrightarrow> p \<notin> set (concat (map nodes ts)) \<longrightarrow>
     ready h R (concat (map nodes ts)) \<longrightarrow> 2 * length (concat (map nodes ts)) < n \<longrightarrow>
     (\<exists>h'. free_children n p h = Ok () h' \<and> freed X h K R (concat (map nodes ts)) h'))"
proof (induction n arbitrary: X h K R t p ts)
  case 0
  then show ?case using length_nodes [of t] by simp
next
  case (Suc n)
  have free: "\<exists>h'. talloc_free_n (Suc n) (Some (root t)) h = Ok 0 h' \<and> freed X h K R (nodes t) h'"
    if r: "rep X h K R" and ok: "tree_ok K t" and dist: "distinct (nodes t)"
      and rt: "root t \<in> dom (chunks h) - X" and rd: "ready h R (nodes t)"
      and n: "2 * length (nodes t) \<le> Suc n"
  proof -
    obtain p us where t: "t = Node p us" by (cases t)
    let ?S = "concat (map nodes us)"
    obtain c where cp: "chunks h p = Some c" using rt t by auto
    have "\<exists>h4. free_children n p h3 = Ok () h4 \<and>
        freed (insert p X) h3 (drop_kid p K) (drop_kid p R) ?S h4"
      if r3: "rep (insert p X) h3 (drop_kid p K) (drop_kid p R)" and s3: "survives {p} h h3"
        and pd: "p \<in> dom (chunks h3)" and out: "outside h3 = destroy h p (outside h)" for h3
    proof -
      have Kp: "drop_kid p K p = map root us"
        using acyclic_irrefl [OF forestD(2) [OF repD(1) [OF r]], of p] ok t by (simp add: drop_kid_other)
      have us: "\<forall>u \<in> set us. tree_ok (drop_kid p K) u"
      proof
        fix u assume u: "u \<in> set us"
        have "tree_ok K u" using ok t u by simp
        moreover have "drop_kid p K a = K a" if "a \<in> set (nodes u)" for a
          using tree_kids_in [OF \<open>tree_ok K u\<close> that, of p] dist t u by (auto intro: drop_kid_other)
        ultimately show "tree_ok (drop_kid p K) u" using tree_ok_cong [of u "drop_kid p K" K] by simp
      qed
      have "ready h3 (drop_kid p R) ?S"
        by (rule ready_drop [OF s3]) (use dist t rd out in auto)
      with Suc.IH [of "insert p X" h3 "drop_kid p K" "drop_kid p R" _ p us] r3 pd Kp us dist t n
      show ?thesis by simp
    qed
    note kids = this
    have "ready h R [p]" by (rule ready_first [of _ _ _ ?S]) (use rd t in simp)
    moreover have "p \<notin> X" "K p = map root us" using rt t ok by simp_all
    ultimately have "\<exists>h'. talloc_free_n (Suc n) (Some p) h = Ok 0 h' \<and> freed X h K R (nodes (Node p us)) h'"
      using free_node_step [OF kids r _ cp _ _ dist [unfolded t]] by blast
    then show ?thesis by (simp add: t)
  qed
  have kids: "\<exists>h'. free_children (Suc n) p h = Ok () h' \<and> freed X h K R (concat (map nodes ts)) h'"
    if r: "rep X h K R" and pd: "p \<in> dom (chunks h)" and Kp: "K p = map root ts"
      and ok: "\<forall>t \<in> set ts. tree_ok K t" and dist: "distinct (concat (map nodes ts))"
      and pS: "p \<notin> set (concat (map nodes ts))" and rd: "ready h R (concat (map nodes ts))"
      and n: "2 * length (concat (map nodes ts)) < Suc n"
  proof -
    obtain c where cp: "chunks h p = Some c" using pd by auto
    show ?thesis
    proof (cases ts)
      case Nil
      then have "tc_child c = None" using rep_child [OF r cp] Kp by simp
      then show ?thesis using Nil cp r by (simp add: free_children.simps run)
    next
      case (Cons t us)
      let ?S = "set (nodes t)" and ?T = "concat (map nodes us)"
      have tK: "root t \<in> set (K p)" using Kp Cons by simp
      have rt: "root t \<in> dom (chunks h) - X"
        using rep_kid_chunk [OF r tK] rep_kid_notin [OF r tK] by auto
      have disj: "?S \<inter> set ?T = {}" "distinct (nodes t)" "distinct ?T"
        using dist Cons by auto
      have rdt: "ready h R (nodes t)" using rd Cons by (auto intro: ready_first)
      have free: "\<exists>h1. talloc_free_n n (Some (root t)) h = Ok 0 h1 \<and> freed X h K R (nodes t) h1"
        using Suc.IH [of X h K R t] r ok Cons disj(2) rt rdt n by simp
      have rest: "\<exists>h2. free_children n p h1 = Ok () h2 \<and>
          freed X h1 (prune ?S K) (prune ?S R) ?T h2" if f1: "freed X h K R (nodes t) h1" for h1
      proof -
        have s1: "survives ?S h h1" and r1: "rep X h1 (prune ?S K) (prune ?S R)"
          using f1 by (simp_all add: freed_def)
        have pn: "p \<notin> ?S" using pS Cons by simp
        have roots: "root ` set us \<inter> ?S = {}" using disj(1) by fastforce
        have "prune ?S K p = map root us"
          using pn Kp Cons roots
          by (auto simp: prune_def intro!: filter_True)
        moreover have "\<forall>u \<in> set us. tree_ok (prune ?S K) u"
          using ok Cons disj(1) by (auto intro!: tree_ok_prune)
        moreover have "p \<in> dom (chunks h1)" using survivesD(1) [OF s1 pn cp] by auto
        moreover have "ready h1 (prune ?S R) ?T"
          using survives_ready [OF s1, of ?T R] disj(1) rd Cons f1 by (auto simp: freed_def)
        moreover have "2 * length ?T < n"
        proof -
          have "length (concat (map nodes ts)) = length (nodes t) + length ?T" by (simp add: Cons)
          then show ?thesis using n length_nodes [of t] by linarith
        qed
        ultimately show ?thesis
          using Suc.IH [of X h1 "prune ?S K" "prune ?S R" _ p us] r1 disj(3) pS Cons by simp
      qed
      have "R (root t) = []" using rdt by (simp add: ready_def)
      from free_children_step [OF free rest r cp _ this disj(1)] Kp Cons show ?thesis by simp
    qed
  qed
  show ?case using free kids by blast
qed

lemmas free_tree = subtree_free_spec [THEN conjunct1, rule_format]

section \<open>Every chunk is the root of a subtree\<close>

lemma kid_single_valued: "lists_ok D K \<Longrightarrow> single_valued (kid K)"
  by (auto simp: single_valued_def kid_def dest: lists_okD(4))

lemma kid_wf: "rep X h K R \<Longrightarrow> wf (kid K)"
proof -
  assume r: "rep X h K R"
  have "kid K \<subseteq> dom (chunks h) \<times> dom (chunks h)"
    using rep_kid_chunk [OF r] rep_parent_chunk [OF r] by (auto simp: kid_def)
  then have "finite (kid K)" using rep_finite [OF r] finite_subset by blast
  then show ?thesis using forestD(2) [OF repD(1) [OF r]] finite_acyclic_wf by blast
qed

lemma below_step: "below K a = insert a (\<Union>b \<in> set (K a). below K b)"
proof -
  have "(x, a) \<in> (kid K)\<^sup>* \<longleftrightarrow> x = a \<or> (\<exists>b. (x, b) \<in> (kid K)\<^sup>* \<and> b \<in> set (K a))" for x
    by (auto elim: rtranclE intro: rtrancl_into_rtrancl simp: kid_def)
  then show ?thesis by (auto simp: below_def)
qed

lemma below_siblings:
  assumes ok: "forest D K" and b: "b \<in> set (K a)" and c: "c \<in> set (K a)" and bc: "b \<noteq> c"
  shows "below K b \<inter> below K c = {}"
proof -
  note sv = kid_single_valued [OF forestD(1) [OF ok]]
  have up: False if xy: "(x, y) \<in> (kid K)\<^sup>*" "x \<noteq> y" and x: "x \<in> set (K a)" and y: "y \<in> set (K a)" for x y
  proof -
    obtain z where "(x, z) \<in> kid K" "(z, y) \<in> (kid K)\<^sup>*" using xy by (meson converse_rtranclE)
    moreover have "(x, a) \<in> kid K" using x by (simp add: kid_def)
    ultimately have "(a, y) \<in> (kid K)\<^sup>*" using sv by (metis single_valuedD)
    moreover have "(y, a) \<in> kid K" using y by (simp add: kid_def)
    ultimately have "(y, y) \<in> (kid K)\<^sup>+" by (rule rtrancl_into_trancl2 [rotated])
    then show False using forestD(2) [OF ok] by (auto simp: acyclic_def)
  qed
  show ?thesis
  proof (rule ccontr)
    assume "below K b \<inter> below K c \<noteq> {}"
    then obtain x where "(x, b) \<in> (kid K)\<^sup>*" "(x, c) \<in> (kid K)\<^sup>*" by (auto simp: below_def)
    then have "(b, c) \<in> (kid K)\<^sup>* \<or> (c, b) \<in> (kid K)\<^sup>*" by (rule single_valued_confluent [OF sv])
    then show False using up b c bc by auto
  qed
qed

lemma tree_exists:
  assumes r: "rep X h K R"
  shows "\<exists>t. root t = a \<and> tree_ok K t \<and> distinct (nodes t) \<and> set (nodes t) = below K a"
proof (induction a rule: wf_induct_rule [OF kid_wf [OF r]])
  case (1 a)
  note ok = repD(1) [OF r]
  have "\<forall>b \<in> set (K a). \<exists>t. root t = b \<and> tree_ok K t \<and> distinct (nodes t) \<and> set (nodes t) = below K b"
    using 1 by (auto simp: kid_def)
  then obtain f where f: "\<And>b. b \<in> set (K a) \<Longrightarrow> root (f b) = b \<and> tree_ok K (f b) \<and>
      distinct (nodes (f b)) \<and> set (nodes (f b)) = below K b"
    by metis
  let ?t = "Node a (map f (K a))"
  have "map (root \<circ> f) (K a) = K a" using f by (intro map_idI) simp
  then have "tree_ok K ?t" using f by simp
  moreover have set: "set (nodes ?t) = below K a" using f below_step [of K a] by auto
  moreover have "distinct (nodes ?t)"
  proof -
    have "a \<notin> below K b" if "b \<in> set (K a)" for b
      using kid_above [OF forestD(2) [OF ok] that] by (simp add: above_below)
    moreover have "distinct (concat (map (nodes \<circ> f) (K a)))"
    proof (rule distinct_concat)
      have "inj_on (nodes \<circ> f) (set (K a))"
      proof (rule inj_onI)
        fix x y assume xy: "x \<in> set (K a)" "y \<in> set (K a)" "(nodes \<circ> f) x = (nodes \<circ> f) y"
        then have "below K x = below K y" using f by (metis comp_def)
        then show "x = y" using below_siblings [OF ok xy(1,2)] below_refl [of x K] by auto
      qed
      then show "distinct (map (nodes \<circ> f) (K a))"
        using lists_okD(1) [OF forestD(1) [OF ok], of a] by (simp add: distinct_map)
    qed (use f below_siblings [OF ok, of _ a] in fastforce)+
    ultimately show ?thesis using f by auto
  qed
  ultimately show ?case by (intro exI [of _ ?t]) simp
qed

lemma below_dom: "rep X h K R \<Longrightarrow> a \<in> dom (chunks h) \<Longrightarrow> below K a \<subseteq> dom (chunks h)"
proof
  fix b assume r: "rep X h K R" and a: "a \<in> dom (chunks h)" and "b \<in> below K a"
  then have "(b, a) \<in> (kid K)\<^sup>*" by (simp add: below_def)
  then show "b \<in> dom (chunks h)"
    by (rule converse_rtranclE) (use a rep_kid_chunk [OF r] in \<open>auto simp: kid_def\<close>)
qed

lemma tree_size:
  assumes r: "rep X h K R" and a: "a \<in> dom (chunks h)" and t: "distinct (nodes t)" "set (nodes t) = below K a"
  shows "length (nodes t) \<le> next_addr h"
proof -
  have "card (below K a) \<le> card (dom (chunks h))"
    using below_dom [OF r a] rep_finite [OF r] by (intro card_mono) auto
  then show ?thesis using rep_finite [OF r] distinct_card [OF t(1)] t(2) by simp
qed

text \<open>\<open>talloc_free\<close> of a subtree no chunk of which is referred to.\<close>

theorem free_run:
  assumes r: "rep {} h K R" and a: "a \<in> dom (chunks h)"
    and refs: "\<And>b. b \<in> below K a \<Longrightarrow> R b = [] \<and> null_context h \<noteq> Some b"
    and agr: "\<And>S. distinct S \<Longrightarrow> set S = below K a \<Longrightarrow> hd S = a \<Longrightarrow> all_agree h S (outside h)"
  obtains t h' where "root t = a" and "tree_ok K t" and "distinct (nodes t)" and "set (nodes t) = below K a"
    and "talloc_free_nolock (Some a) h = Ok 0 h'" and "freed {} h K R (nodes t) h'"
proof -
  obtain t where t: "root t = a" "tree_ok K t" "distinct (nodes t)" "set (nodes t) = below K a"
    using tree_exists [OF r, of a] by blast
  have "2 * length (nodes t) \<le> free_fuel h" using tree_size [OF r a t(3,4)] by (simp add: free_fuel_def)
  then obtain h' where "talloc_free_n (free_fuel h) (Some a) h = Ok 0 h'" "freed {} h K R (nodes t) h'"
    using free_tree [OF r t(2,3), of "free_fuel h"] t a refs agr [OF t(3,4)] hd_nodes [of t]
    by (auto simp: ready_def)
  with that t show thesis by (simp add: talloc_free_nolock_def run)
qed

text \<open>The nodes of a subtree come parents first.\<close>

lemma tree_nodes_below: "tree_ok K t \<Longrightarrow> set (nodes t) = below K (root t)"
proof (induction t)
  case (Node a ts)
  then have "set (nodes t) = below K (root t)" if "t \<in> set ts" for t using that by simp
  then show ?case using Node.prems below_step [of K a] by simp
qed

lemma parents_first:
  assumes ok: "forest D K"
  shows "tree_ok K t \<Longrightarrow> sorted_wrt (\<lambda>x y. x \<notin> below K y) (nodes t)"
proof (induction t)
  case (Node a ts)
  have K: "K a = map root ts" and tok: "\<And>t. t \<in> set ts \<Longrightarrow> tree_ok K t" using Node.prems by auto
  have "a \<notin> below K y" if "t \<in> set ts" "y \<in> set (nodes t)" for t y
  proof
    assume "a \<in> below K y"
    moreover have "y \<in> below K (root t)" using tree_nodes_below [OF tok] that by simp
    ultimately have "a \<in> below K (root t)" by (auto simp: below_def)
    then show False
      using kid_above [OF forestD(2) [OF ok], of "root t" a] K that(1) by (simp add: above_below)
  qed
  moreover have "sorted_wrt (\<lambda>x y. x \<notin> below K y) (concat (map nodes us))" if "ts = vs @ us" for us vs
    using that
  proof (induction us arbitrary: vs)
    case (Cons u us)
    have "x \<notin> below K y" if x: "x \<in> set (nodes u)" and t: "t \<in> set us" and y: "y \<in> set (nodes t)" for x y t
    proof
      assume "x \<in> below K y"
      moreover have "y \<in> below K (root t)" "x \<in> below K (root u)"
        using tree_nodes_below [OF tok] x y t Cons.prems by auto
      ultimately have "x \<in> below K (root t) \<inter> below K (root u)" by (auto simp: below_def)
      moreover have "root u \<notin> root ` set us"
        using lists_okD(1) [OF forestD(1) [OF ok], of a] K Cons.prems by simp
      then have "root t \<noteq> root u" using t by (metis imageI)
      moreover have "root t \<in> set (K a)" "root u \<in> set (K a)" using K Cons.prems t by auto
      ultimately show False using below_siblings [OF ok, of "root t" a "root u"] by blast
    qed
    then show ?case
      using Cons.IH [of "vs @ [u]"] Node.IH [of u] tok Cons.prems by (auto simp: sorted_wrt_append)
  qed simp
  ultimately show ?case by auto
qed

text \<open>A destructor that refuses keeps its chunk, and what is below it, as it was.\<close>

lemma free_refused_n:
  assumes c: "chunks h a = Some c" "tc_flags c = TALLOC_MAGIC" "tc_refs c = None" "tc_destructor c = D_user f"
    and w: "user_destructor h f a (outside h) = (-1, w)"
  shows "talloc_free_n (Suc n) (Some a) h = Ok (-1) (h\<lparr>outside := w\<rparr>)"
proof -
  have "c\<lparr>tc_destructor := D_user f\<rparr> = c" using c(4) by (intro chunk_eqI) (simp_all add: same_content_def)
  then have "(chunks h)(a \<mapsto> c\<lparr>tc_destructor := D_user f\<rparr>) = chunks h"
    using fun_upd_triv [of "chunks h" a] c(1) by simp
  then show ?thesis
    using c w by (simp add: talloc_free_n.simps run_destructor_def call_destructor_def run)
qed

lemma free_refused:
  assumes r: "rep {} h K R" and c: "chunks h a = Some c" "tc_destructor c = D_user f" and Ra: "R a = []"
    and w: "user_destructor h f a (outside h) = (-1, w)"
  shows "talloc_free (Some a) h = Ok (-1) (h\<lparr>outside := w\<rparr>)"
proof -
  have "tc_flags c = TALLOC_MAGIC" "tc_refs c = None"
    using rep_flags [OF r c(1)] rep_refs [OF r c(1)] Ra by simp_all
  then have "talloc_free_n (free_fuel h) (Some a) h = Ok (-1) (h\<lparr>outside := w\<rparr>)"
    using free_refused_n [OF c(1) _ _ c(2) w, of "free_fuel h - 1"]
    by (simp add: free_fuel_def add.commute)
  then show ?thesis using rep_world(1,2) [OF r]
    by (simp add: talloc_free_def talloc_free_nolock_def run run_step unlock_id)
qed

end
