(* ===== verification/Talloc_Refs.thy ===== *)
theory Talloc_Refs
  imports Talloc_Free
begin

text \<open>
  References and totals: a reference adds a handle to its context and to the list of the chunk
  it refers to, freeing the handle takes both back, and the totals are sums over the subtree.
\<close>

section \<open>Referring\<close>

lemma kid_in_add: "b \<in> set (add_kid p a K q) \<longleftrightarrow> b \<in> set (K q) \<or> (q = p \<and> b = a)"
  by (auto simp: add_kid_def)

lemma is_root_add: "is_root (add_kid p a K) b \<longleftrightarrow> is_root K b \<and> b \<noteq> a"
  by (auto simp: is_root_def kid_in_add)

text \<open>\<open>_TLIST_ADD(tc->refs, handle)\<close> for a handle \<open>g\<close> that has just been made.\<close>

lemma add_ref_run:
  assumes cp: "chunks h p = Some cp" and refs: "tc_refs cp = hd_opt xs" and g: "g \<notin> set xs"
    and hg: "handles h g = Some \<lparr>h_next = None, h_prev = None, h_ptr = p\<rparr>"
    and dist: "distinct xs" and H: "\<And>x. x \<in> set xs \<Longrightarrow> handle_in xs p x (handles h x)"
  shows "\<exists>H'. tlist_add_ref p g h = Ok ()
      (h\<lparr>chunks := (chunks h)(p \<mapsto> cp\<lparr>tc_refs := Some g\<rparr>), handles := H'\<rparr>) \<and>
    (\<forall>x \<in> set (g # xs). handle_in (g # xs) p x (H' x)) \<and>
    (\<forall>x. x \<notin> set (g # xs) \<longrightarrow> H' x = handles h x)"
proof (cases xs)
  case Nil
  then show ?thesis using cp refs hg
    by (intro exI [of _ "(handles h)(g \<mapsto> \<lparr>h_next = None, h_prev = None, h_ptr = p\<rparr>)"])
      (simp add: tlist_add_ref_def run handle_in_def)
next
  case (Cons y ys)
  have hx: "handles h x = Some \<lparr>h_next = succ_in xs x, h_prev = pred_in xs x, h_ptr = p\<rparr>" if "x \<in> set xs" for x
    using H [OF that] by (simp add: handle_in_def)
  have yg: "y \<noteq> g" "y \<in> set xs" using g Cons by auto
  let ?H = "(handles h)(y \<mapsto> \<lparr>h_next = succ_in xs y, h_prev = Some g, h_ptr = p\<rparr>,
    g \<mapsto> \<lparr>h_next = Some y, h_prev = None, h_ptr = p\<rparr>)"
  have "tlist_add_ref p g h = Ok () (h\<lparr>chunks := (chunks h)(p \<mapsto> cp\<lparr>tc_refs := Some g\<rparr>), handles := ?H\<rparr>)"
    using cp refs hg hx [OF yg(2)] yg Cons by (simp add: tlist_add_ref_def run)
  moreover have "handle_in (g # xs) p x (?H x)" if "x \<in> set (g # xs)" for x
  proof (cases "x = g")
    case True
    then show ?thesis using yg Cons by (simp add: handle_in_def)
  next
    case False
    then show ?thesis
      using that hx [of x] Cons pred_in_Cons [OF dist False] succ_in_Cons [OF False, of xs]
      by (auto simp: handle_in_def simp del: pred_from.simps succ_in.simps)
  qed
  ultimately show ?thesis using yg by (intro exI [of _ ?H]) auto
qed

lemma add_ref_rep:
  assumes r: "rep {} h K R" and cp: "chunks h p = Some cp" and cg: "chunks h g = Some cg" and pg: "p \<noteq> g"
    and root: "is_root R g" and Rg: "R g = []"
    and H: "\<forall>x \<in> set (g # R p). handle_in (g # R p) p x (H' x)"
    and H': "\<forall>x. x \<notin> set (g # R p) \<longrightarrow> H' x = handles h x"
  shows "rep {} (h\<lparr>chunks := (chunks h)(g \<mapsto> cg\<lparr>tc_destructor := D_reference\<rparr>,
      p \<mapsto> cp\<lparr>tc_refs := Some g\<rparr>), handles := H'\<rparr>) K (add_kid p g R)"
proof -
  note okR = repD(2) [OF r]
  have own: "own_ok K g (cg\<lparr>tc_destructor := D_reference\<rparr>) = own_ok K g cg"
    "own_ok K p (cp\<lparr>tc_refs := Some g\<rparr>) = own_ok K p cp" by (simp_all add: own_ok_def)
  have okg: "chunk_ok {} K (add_kid p g R) g (cg\<lparr>tc_destructor := D_reference\<rparr>)"
    using repD(5) [OF r cg] own Rg pg by (simp add: chunk_ok_def is_root_add) (simp add: add_kid_def)
  have okp: "chunk_ok {} K (add_kid p g R) p (cp\<lparr>tc_refs := Some g\<rparr>)"
    using repD(5) [OF r cp] own pg by (simp add: chunk_ok_def is_root_add) (simp add: add_kid_def)
  have oko: "chunk_ok {} K (add_kid p g R) b e" if "chunks h b = Some e" "b \<noteq> p" "b \<noteq> g" for b e
    using repD(5) [OF r that(1)] that by (simp add: chunk_ok_def is_root_add) (simp add: add_kid_def)
  have "handle_in (add_kid p g R a) a x (H' x)" if x: "x \<in> set (add_kid p g R a)" for x a
  proof (cases "a = p")
    case True
    then show ?thesis using H x by (auto simp: add_kid_def)
  next
    case False
    then have xa: "x \<in> set (R a)" using x by (simp add: add_kid_def)
    then have "x \<notin> set (g # R p)" using False lists_okD(4) [OF okR, of x a p] root by (auto simp: is_root_def)
    then show ?thesis using repD(6) [OF r xa] H' False by (simp add: handle_in_ok add_kid_def)
  qed
  moreover have "insert p (insert g (dom (chunks h))) = dom (chunks h)" using cp cg by auto
  moreover have "lists_ok (dom (chunks h)) (add_kid p g R)"
    using lists_ok_add [OF okR root] cp cg by auto
  moreover have "world_ok (h\<lparr>chunks := (chunks h)(g \<mapsto> cg\<lparr>tc_destructor := D_reference\<rparr>,
      p \<mapsto> cp\<lparr>tc_refs := Some g\<rparr>), handles := H'\<rparr>)"
    using repD(3) [OF r] cp cg by (auto simp: world_ok_def)
  ultimately show ?thesis
    using repD(1) [OF r] okg okp oko unfolding rep_def by (auto simp: handle_in_ok insert_commute)
qed

text \<open>What an operation that allocates one chunk leaves alone.\<close>

definition grows :: "'w tstate \<Rightarrow> 'w tstate \<Rightarrow> bool" where
  "grows h h' \<longleftrightarrow> next_addr h' = Suc (next_addr h) \<and> null_context h' = null_context h \<and>
     user_destructor h' = user_destructor h \<and> outside h' = outside h \<and>
     (\<forall>b c. chunks h b = Some c \<longrightarrow> payload h' b = payload h b \<and>
        (\<exists>d. chunks h' b = Some d \<and> same_content d c)) \<and>
     dom (chunks h') = insert (next_addr h) (dom (chunks h))"

lemma grows_fresh:
  assumes r: "rep X h K R" and k: "keeps ((chunks h)(next_addr h \<mapsto> fresh name sz)) C"
  shows "grows h (with_fresh (fresh name sz) h\<lparr>chunks := C\<rparr>)"
proof -
  have "b \<noteq> next_addr h" if "chunks h b = Some c" for b c using rep_world(4) [OF r that] by simp
  then have "\<exists>d. C b = Some d \<and> same_content d c" "payload (with_fresh (fresh name sz) h) b = payload h b"
    if "chunks h b = Some c" for b c
    using that keepsD [OF k, of b c] by (auto simp: with_fresh_def Let_def)
  then show ?thesis
    using keeps_dom [OF k] by (auto simp: grows_def with_fresh_def Let_def)
qed

lemma reference_spec:
  assumes r: "rep {} h K R" and p: "p \<in> dom (chunks h)"
    and ctxt: "\<And>q. context_of h ctxt = Some q \<Longrightarrow> q \<in> dom (chunks h)"
    and mem: "\<not> oom h (ticks h)"
  obtains h' where "talloc_reference ctxt (Some p) h = Ok (Some p) h'"
    and "rep {} h' (add_opt (context_of h ctxt) (next_addr h) K) (add_kid p (next_addr h) R)"
    and "grows h h'"
proof -
  let ?g = "next_addr h" and ?K = "add_opt (context_of h ctxt) (next_addr h) K"
  let ?h = "with_fresh (fresh N_reference 24) h"
  obtain C where run1: "talloc_named_const_nolock ctxt 24 N_reference h = Ok (Some ?g) (?h\<lparr>chunks := C\<rparr>)"
    and r1: "rep {} (?h\<lparr>chunks := C\<rparr>) ?K R" and k1: "keeps ((chunks h)(?g \<mapsto> fresh N_reference 24)) C"
    using named_const_spec [OF r, of ctxt 24 N_reference] ctxt mem by (auto simp: MAX_TALLOC_SIZE_def)
  obtain cp0 where cp0: "chunks h p = Some cp0" using p by auto
  have pg: "p \<noteq> ?g" using rep_world(4) [OF r cp0] by simp
  obtain cp where cp: "C p = Some cp" using keepsD [OF k1, of p] pg cp0 by auto
  obtain cg where cg: "C ?g = Some cg" "same_content cg (fresh N_reference 24)"
    using keepsD [OF k1, of ?g] by auto
  note f = fresh_chunk [OF r]
  let ?h2 = "?h\<lparr>chunks := C(?g \<mapsto> cg\<lparr>tc_destructor := D_reference\<rparr>),
    handles := (handles ?h)(?g \<mapsto> \<lparr>h_next = None, h_prev = None, h_ptr = p\<rparr>)\<rparr>"
  have "handle_in (R p) p x (handles ?h2 x)" if x: "x \<in> set (R p)" for x
    using repD(6) [OF r x] f(4) x by (auto simp: handle_in_ok is_root_def)
  then obtain H' where run2: "tlist_add_ref p ?g ?h2 = Ok ()
      (?h2\<lparr>chunks := (chunks ?h2)(p \<mapsto> cp\<lparr>tc_refs := Some ?g\<rparr>), handles := H'\<rparr>)"
    and H: "\<forall>x \<in> set (?g # R p). handle_in (?g # R p) p x (H' x)"
      "\<forall>x. x \<notin> set (?g # R p) \<longrightarrow> H' x = handles ?h2 x"
    using add_ref_run [of ?h2 p cp "R p" ?g] cp pg rep_refs [OF r1, of p cp] f(4)
      lists_okD(1) [OF repD(2) [OF r], of p]
    by (auto simp: is_root_def)
  let ?h' = "?h\<lparr>chunks := C(?g \<mapsto> cg\<lparr>tc_destructor := D_reference\<rparr>, p \<mapsto> cp\<lparr>tc_refs := Some ?g\<rparr>),
    handles := H'\<rparr>"
  have flags: "tc_flags cg = TALLOC_MAGIC" using cg(2) by (simp add: same_content_def fresh_def)
  have "rep {} ?h' ?K (add_kid p ?g R)"
    using add_ref_rep [OF r1 _ _ pg f(4,5) H(1)] cp cg H(2) by simp
  moreover have "talloc_reference ctxt (Some p) h = Ok (Some p) ?h'"
    using rep_world(1,2) [OF r] cp0 rep_magic [OF r cp0] run1 run2 cg flags
    by (simp add: talloc_reference_def run run_step talloc_set_destructor_def unlock_id)
  moreover have "grows h ?h'"
  proof -
    have "\<exists>d. chunks ?h' b = Some d \<and> same_content d e" if be: "chunks h b = Some e" for b e
    proof -
      have "b \<noteq> ?g" using rep_world(4) [OF r be] by simp
      then obtain d where "C b = Some d" "same_content d e" using keepsD [OF k1, of b e] be by auto
      then show ?thesis using \<open>b \<noteq> ?g\<close> cp by (cases "b = p") (auto simp: same_content_def)
    qed
    moreover have "dom (chunks ?h') = insert ?g (dom (chunks h))" using keeps_dom [OF k1] cp p by auto
    ultimately show ?thesis
      using grows_fresh [OF r k1] by (simp add: grows_def)
  qed
  ultimately show thesis using that by blast
qed

section \<open>Counting and giving up references\<close>

lemma count_handles_run:
  assumes r: "rep X h K R" and R: "R p = pre @ xs" and n: "length xs < n"
  shows "count_handles n (hd_opt xs) h = Ok (length xs) h"
  using R n
proof (induction xs arbitrary: pre n)
  case Nil
  then show ?case by (cases n) (simp_all add: run)
next
  case (Cons x xs)
  have "x \<in> set (R p)" using Cons.prems(1) by simp
  then have hx: "handle_in (R p) p x (handles h x)" using repD(6) [OF r] by (simp add: handle_in_ok)
  have "distinct (pre @ x # xs)" using lists_okD(1) [OF repD(2) [OF r], of p] Cons.prems(1) by simp
  then have "succ_in (R p) x = hd_opt xs" unfolding Cons.prems(1) by (induction pre) auto
  moreover obtain m where "n = Suc m" "length xs < m" using Cons.prems(2) by (cases n) auto
  ultimately show ?case
    using Cons.IH [of "pre @ [x]" m] Cons.prems(1) hx by (simp add: handle_in_def run run_step)
qed

lemma refs_bound: "rep X h K R \<Longrightarrow> length (R p) \<le> next_addr h"
proof -
  assume r: "rep X h K R"
  have "set (R p) \<subseteq> {..<next_addr h}"
    using lists_okD(2) [OF repD(2) [OF r]] rep_world(4) [OF r] by blast
  then have "card (set (R p)) \<le> next_addr h" using card_mono [of "{..<next_addr h}"] by simp
  then show ?thesis using distinct_card [OF lists_okD(1) [OF repD(2) [OF r], of p]] by simp
qed

lemma reference_count_run:
  assumes r: "rep {} h K R" and p: "p \<in> dom (chunks h)"
  shows "talloc_reference_count p h = Ok (length (R p)) h"
proof -
  obtain c where c: "chunks h p = Some c" using p by auto
  have "count_handles (Suc (Suc (next_addr h))) (tc_refs c) h = Ok (length (R p)) h"
    using count_handles_run [OF r, of p "[]" "R p"] refs_bound [OF r, of p] rep_refs [OF r c]
    by (simp del: count_handles.simps)
  then show ?thesis
    using rep_world(1,2) [OF r] c rep_magic [OF r c]
    by (simp add: talloc_reference_count_def reference_count_nolock_def run run_step unlock_id del: count_handles.simps)
qed

text \<open>A handle nobody has allocated on is freed alone.\<close>

lemma free_handle:
  assumes r: "rep {} h K R" and g: "g \<in> set (R p)" and Kg: "K g = []" and Rg: "R g = []"
    and nc: "null_context h \<noteq> Some g" and n: "2 \<le> n"
  obtains h' where "talloc_free_n n (Some g) h = Ok 0 h'"
    and "rep {} h' (drop_kid g K) (drop_kid g R)" and "survives {g} h h'" and "chunks h' g = None"
    and "outside h' = outside h"
proof -
  obtain c where c: "chunks h g = Some c" using lists_okD(2) [OF repD(2) [OF r] g] by auto
  have "tc_destructor c = D_reference"
    using repD(5) [OF r c] g by (auto simp: chunk_ok_def is_root_def)
  then have rd: "ready h R (nodes (Node g []))" "destroy h g = (\<lambda>w. w)"
    using Rg nc c by (auto simp: ready_def agrees_at_def destroy_def)
  obtain h' where run: "talloc_free_n n (Some g) h = Ok 0 h'" and f: "freed {} h K R [g] h'"
    using free_tree [OF r, of "Node g []" n] Kg c rd n by auto
  have "prune {g} L = drop_kid g L" if "L g = []" for L
    using that by (auto simp: prune_def drop_kid_def without_def fun_eq_iff)
  then have "rep {} h' (drop_kid g K) (drop_kid g R)" using f Kg Rg by (simp add: freed_def)
  then show thesis using that run f rd by (auto simp: freed_def)
qed

lemma succ_in_append: "distinct (xs @ x # ys) \<Longrightarrow> succ_in (xs @ x # ys) x = hd_opt ys"
  by (induction xs) auto

text \<open>The search finds the first handle that is a child of the context.\<close>

lemma find_handle_run:
  assumes r: "rep {} h K R"
  shows "R p = pre @ xs @ g # post \<Longrightarrow> \<forall>x \<in> set xs. \<not> parent_is K x ctxt \<Longrightarrow> parent_is K g ctxt \<Longrightarrow>
    length xs < n \<Longrightarrow> find_handle n (hd_opt (xs @ g # post)) ctxt h = Ok (Some g) h"
proof (induction xs arbitrary: pre n)
  case Nil
  then have "g \<in> set (R p)" by simp
  then obtain c where c: "chunks h g = Some c" using lists_okD(2) [OF repD(2) [OF r]] by blast
  obtain q where "talloc_parent_chunk (Some g) h = Ok q h" "parent_is K g q"
    using talloc_parent_chunk_run [OF r c] by auto
  moreover have "q = ctxt" using parent_is_unique [OF repD(4) [OF r] calculation(2) Nil.prems(3)] .
  ultimately show ?case using Nil.prems(4) by (cases n) (simp_all add: run run_step)
next
  case (Cons x xs)
  have x: "x \<in> set (R p)" using Cons.prems(1) by simp
  then obtain c where c: "chunks h x = Some c" using lists_okD(2) [OF repD(2) [OF r]] by blast
  obtain q where q: "talloc_parent_chunk (Some x) h = Ok q h" "parent_is K x q"
    using talloc_parent_chunk_run [OF r c] by auto
  then have "q \<noteq> ctxt" using Cons.prems(2) by auto
  moreover have hx: "handle_in (R p) p x (handles h x)" using repD(6) [OF r x] by (simp add: handle_in_ok)
  have "distinct (pre @ x # xs @ g # post)" using lists_okD(1) [OF repD(2) [OF r], of p] Cons.prems(1) by simp
  then have "succ_in (R p) x = hd_opt (xs @ g # post)" unfolding Cons.prems(1) by (simp add: succ_in_append)
  moreover obtain m where "n = Suc m" "length xs < m" using Cons.prems(4) by (cases n) auto
  ultimately show ?case
    using Cons.IH [of "pre @ [x]" m] Cons.prems q hx by (simp add: handle_in_def run run_step)
qed

lemma find_handle_none:
  assumes r: "rep {} h K R"
  shows "R p = pre @ xs \<Longrightarrow> \<forall>x \<in> set xs. \<not> parent_is K x ctxt \<Longrightarrow> length xs < n \<Longrightarrow>
    find_handle n (hd_opt xs) ctxt h = Ok None h"
proof (induction xs arbitrary: pre n)
  case Nil
  then show ?case by (cases n) (simp_all add: run)
next
  case (Cons x xs)
  have x: "x \<in> set (R p)" using Cons.prems(1) by simp
  then obtain c where c: "chunks h x = Some c" using lists_okD(2) [OF repD(2) [OF r]] by blast
  obtain q where q: "talloc_parent_chunk (Some x) h = Ok q h" "parent_is K x q"
    using talloc_parent_chunk_run [OF r c] by auto
  then have "q \<noteq> ctxt" using Cons.prems(2) by auto
  moreover have hx: "handle_in (R p) p x (handles h x)" using repD(6) [OF r x] by (simp add: handle_in_ok)
  have "distinct (pre @ x # xs)" using lists_okD(1) [OF repD(2) [OF r], of p] Cons.prems(1) by simp
  then have "succ_in (R p) x = hd_opt xs" unfolding Cons.prems(1) by (simp add: succ_in_append)
  moreover obtain m where "n = Suc m" "length xs < m" using Cons.prems(3) by (cases n) auto
  ultimately show ?case
    using Cons.IH [of "pre @ [x]" m] Cons.prems q hx by (simp add: handle_in_def run run_step)
qed

lemma unlink_run:
  assumes r: "rep {} h K R" and p: "p \<in> dom (chunks h)" and R: "R p = pre @ g # post"
    and first: "\<forall>x \<in> set pre. \<not> parent_is K x (context_of h ctxt)" and Kg: "K g = []"
    and Rg: "R g = []" and par: "parent_is K g (context_of h ctxt)" and nc: "null_context h \<noteq> Some g"
  obtains h' where "talloc_unlink ctxt (Some p) h = Ok 0 h'"
    and "rep {} h' (drop_kid g K) (drop_kid g R)" and "survives {g} h h'" and "chunks h' g = None"
    and "outside h' = outside h"
proof -
  obtain c where c: "chunks h p = Some c" using p by auto
  have g: "g \<in> set (R p)" using R by simp
  obtain h' where free: "talloc_free_n (free_fuel h) (Some g) h = Ok 0 h'"
    and r': "rep {} h' (drop_kid g K) (drop_kid g R)"
    and s: "survives {g} h h'" "chunks h' g = None" "outside h' = outside h"
    using free_handle [OF r g Kg Rg nc, of "free_fuel h"] by (auto simp: free_fuel_def)
  have ctxt: "context_of h (context_of h ctxt) = context_of h ctxt" by (simp add: context_of_def)
  have "length pre < Suc (Suc (next_addr h))" using refs_bound [OF r, of p] R by simp
  then have "find_handle (Suc (Suc (next_addr h))) (hd_opt (R p)) (context_of h ctxt) h = Ok (Some g) h"
    using find_handle_run [OF r, of p "[]" pre g post "context_of h ctxt"] R first par
    by (simp del: find_handle.simps)
  then have "talloc_unreference (context_of h ctxt) p h = Ok 0 h'"
    using free ctxt c rep_magic [OF r c] rep_refs [OF r c]
    by (simp add: talloc_unreference_def talloc_free_nolock_def run run_step context_of_def
        del: find_handle.simps)
  then have "talloc_unlink ctxt (Some p) h = Ok 0 h'"
    using rep_world(1) [OF r] rep_world(2) [OF r']
    by (cases ctxt) (simp_all add: talloc_unlink_def Let_def run run_step unlock_id context_of_def)
  then show thesis using that r' s by blast
qed

lemmas unlink_first = unlink_run [where pre = "[]", simplified]

text \<open>A context that neither refers to the block nor is its parent cannot unlink it.\<close>

lemma unlink_stranger:
  assumes r: "rep {} h K R" and p: "p \<in> dom (chunks h)"
    and none: "\<forall>x \<in> set (R p). \<not> parent_is K x (context_of h ctxt)"
    and par: "\<not> parent_is K p (context_of h ctxt)"
    and ctxt: "\<And>q. context_of h ctxt = Some q \<Longrightarrow> q \<in> dom (chunks h)"
  shows "talloc_unlink ctxt (Some p) h = Ok (-1) h"
proof -
  let ?c = "context_of h ctxt"
  obtain c where c: "chunks h p = Some c" using p by auto
  have cc: "context_of h ?c = ?c" by (simp add: context_of_def)
  have "length (R p) < Suc (Suc (next_addr h))" using refs_bound [OF r, of p] by simp
  then have "find_handle (Suc (Suc (next_addr h))) (hd_opt (R p)) ?c h = Ok None h"
    using find_handle_none [OF r, of p "[]" "R p" ?c] none by (simp del: find_handle.simps)
  then have unref: "talloc_unreference ?c p h = Ok (-1) h"
    using cc c rep_magic [OF r c] rep_refs [OF r c]
    by (simp add: talloc_unreference_def run run_step context_of_def del: find_handle.simps)
  obtain q where q: "talloc_parent_chunk (Some p) h = Ok q h" "parent_is K p q"
    using talloc_parent_chunk_run [OF r c] by auto
  then have "q \<noteq> ?c" using par by auto
  moreover have "pbind (case ?c of None \<Rightarrow> pret () | Some d \<Rightarrow> pthen (talloc_chunk_from_ptr d) (pret ())) f h = f () h" for f :: "unit \<Rightarrow> ('a tstate, int) prog"
  proof (cases ?c)
    case (Some d)
    then obtain cd where cd: "chunks h d = Some cd" using ctxt [OF Some] by auto
    then show ?thesis using Some rep_magic [OF r cd] by (simp add: run)
  qed (simp add: run)
  ultimately show ?thesis
    using unref q rep_world(1,2) [OF r]
    by (cases ctxt) (simp_all add: talloc_unlink_def Let_def run run_step unlock_id context_of_def)
qed

section \<open>Totals\<close>

text \<open>The links the walk over a subtree reads.\<close>

fun chain :: "(addr \<Rightarrow> talloc_chunk option) \<Rightarrow> tree list \<Rightarrow> bool" where
  "chain C [] = True"
| "chain C (t # ts) =
     ((\<exists>c. C (root t) = Some c \<and> tc_next c = hd_opt (map root ts)) \<and> chain C ts)"

fun walkable :: "(addr \<Rightarrow> talloc_chunk option) \<Rightarrow> tree \<Rightarrow> bool" where
  "walkable C (Node a ts) =
     ((\<exists>c. C a = Some c \<and> tc_flags c = TALLOC_MAGIC \<and> tc_child c = hd_opt (map root ts)) \<and>
      chain C ts \<and> (\<forall>t \<in> set ts. walkable C t))"

lemma chain_cong: "(\<And>t. t \<in> set ts \<Longrightarrow> C (root t) = D (root t)) \<Longrightarrow> chain C ts = chain D ts"
  by (induction ts) auto

lemma walkable_cong: "(\<And>a. a \<in> set (nodes t) \<Longrightarrow> C a = D a) \<Longrightarrow> walkable C t = walkable D t"
proof (induction t)
  case (Node a ts)
  have "C (root t) = D (root t)" if "t \<in> set ts" for t
    by (rule Node.prems) (use that in \<open>auto intro: root_in_nodes\<close>)
  then have "chain C ts = chain D ts" by (rule chain_cong)
  moreover have "walkable C t = walkable D t" if "t \<in> set ts" for t
    using Node.IH [OF that] Node.prems that by auto
  ultimately show ?case using Node.prems [of a] by simp
qed

lemma rep_walkable:
  assumes r: "rep {} h K R"
  shows "tree_ok K t \<Longrightarrow> root t \<in> dom (chunks h) \<Longrightarrow> walkable (chunks h) t"
proof (induction t)
  case (Node a ts)
  obtain c where c: "chunks h a = Some c" using Node.prems(2) by auto
  have K: "K a = map root ts" using Node.prems(1) by simp
  have "chain (chunks h) us" if "ts = vs @ us" for us vs
    using that
  proof (induction us arbitrary: vs)
    case (Cons u us)
    have ua: "root u \<in> set (K a)" using K Cons.prems by simp
    obtain d where d: "chunks h (root u) = Some d" using rep_kid_chunk [OF r ua] by blast
    have "distinct (map root vs @ root u # map root us)"
      using lists_okD(1) [OF repD(4) [OF r], of a] K Cons.prems by simp
    moreover have "tc_next d = succ_in (K a) (root u)" using rep_own [OF r d] ua by (simp add: own_ok_def)
    ultimately have "tc_next d = hd_opt (map root us)"
      using K Cons.prems succ_in_append [of "map root vs" "root u" "map root us"] by simp
    then show ?case using d Cons.IH [of "vs @ [u]"] Cons.prems by simp
  qed simp
  moreover have "walkable (chunks h) t" if "t \<in> set ts" for t
    using Node.IH [OF that] Node.prems that rep_kid_chunk [OF r, of "root t" a] K by auto
  ultimately show ?case using c rep_flags [OF r c] rep_child [OF r c] K by auto
qed

definition total_of :: "(talloc_chunk \<Rightarrow> u64) \<Rightarrow> 'w tstate \<Rightarrow> addr list \<Rightarrow> u64" where
  "total_of f h S = sum_list (map (\<lambda>a. f (the (chunks h a))) S)"

lemma total_of_cong: "(\<And>a. a \<in> set S \<Longrightarrow> chunks h a = chunks h' a) \<Longrightarrow> total_of f h S = total_of f h' S"
  unfolding total_of_def by (intro arg_cong [where f = sum_list]) simp

declare total_n.simps [simp del] total_list.simps [simp del]

lemma total_node:
  fixes h :: "'w tstate"
  assumes kids: "\<And>h' :: 'w tstate. (\<And>b. b \<noteq> a \<Longrightarrow> chunks h' b = chunks h b) \<Longrightarrow>
      total_list n f (f c) (hd_opt (map root ts)) h' = Ok (f c + total_of f h' (concat (map nodes ts))) h'"
    and c: "chunks h a = Some c" "tc_flags c = TALLOC_MAGIC" "tc_child c = hd_opt (map root ts)"
    and dist: "distinct (nodes (Node a ts))"
  shows "total_n (Suc n) f a h = Ok (total_of f h (nodes (Node a ts))) h"
proof -
  let ?c = "c\<lparr>tc_flags := tc_flags c OR TALLOC_FLAG_LOOP\<rparr>"
  let ?h = "h\<lparr>chunks := (chunks h)(a \<mapsto> ?c)\<rparr>"
  have "total_list n f (f c) (hd_opt (map root ts)) ?h =
      Ok (f c + total_of f ?h (concat (map nodes ts))) ?h"
    by (rule kids) simp
  moreover have "total_of f ?h (concat (map nodes ts)) = total_of f h (concat (map nodes ts))"
    by (rule total_of_cong) (use dist in auto)
  moreover have "?c\<lparr>tc_flags := tc_flags ?c AND NOT TALLOC_FLAG_LOOP\<rparr> = c"
    using c(2) by (intro chunk_eqI) (simp_all add: same_content_def flag_defs)
  moreover have "(chunks h)(a \<mapsto> c) = chunks h" using fun_upd_triv [of "chunks h" a] c by simp
  ultimately show ?thesis
    using c by (simp add: total_n.simps run run_step total_of_def)
qed

lemma total_spec:
  "(walkable (chunks h) t \<longrightarrow> distinct (nodes t) \<longrightarrow> 2 * length (nodes t) \<le> n \<longrightarrow>
     total_n n f (root t) h = Ok (total_of f h (nodes t)) h) \<and>
   (chain (chunks h) ts \<longrightarrow> (\<forall>t \<in> set ts. walkable (chunks h) t) \<longrightarrow> distinct (concat (map nodes ts)) \<longrightarrow>
     2 * length (concat (map nodes ts)) < n \<longrightarrow>
     total_list n f acc (hd_opt (map root ts)) h = Ok (acc + total_of f h (concat (map nodes ts))) h)"
proof (induction n arbitrary: h t ts acc)
  case 0
  then show ?case using length_nodes [of t] by simp
next
  case (Suc n)
  have node: "total_n (Suc n) f (root t) h = Ok (total_of f h (nodes t)) h"
    if w: "walkable (chunks h) t" and dist: "distinct (nodes t)" and n: "2 * length (nodes t) \<le> Suc n"
  proof -
    obtain a us where t: "t = Node a us" by (cases t)
    obtain c where c: "chunks h a = Some c" "tc_flags c = TALLOC_MAGIC" "tc_child c = hd_opt (map root us)"
      using w t by auto
    have "total_list n f (f c) (hd_opt (map root us)) h' = Ok (f c + total_of f h' (concat (map nodes us))) h'"
      if same: "\<And>b. b \<noteq> a \<Longrightarrow> chunks h' b = chunks h b" for h' :: "'a tstate"
    proof -
      have na: "b \<noteq> a" if "u \<in> set us" "b \<in> set (nodes u)" for u b using dist t that by auto
      have "chain (chunks h') us = chain (chunks h) us"
        by (rule chain_cong) (use same na in \<open>auto simp: root_in_nodes\<close>)
      moreover have "walkable (chunks h') u = walkable (chunks h) u" if "u \<in> set us" for u
        by (rule walkable_cong) (use same na that in auto)
      ultimately show ?thesis using Suc.IH [of h' _ us "f c"] w t dist n by simp
    qed
    from total_node [OF this c] dist t show ?thesis by simp
  qed
  have list: "total_list (Suc n) f acc (hd_opt (map root ts)) h = Ok (acc + total_of f h (concat (map nodes ts))) h"
    if ch: "chain (chunks h) ts" and w: "\<forall>t \<in> set ts. walkable (chunks h) t"
      and dist: "distinct (concat (map nodes ts))" and n: "2 * length (concat (map nodes ts)) < Suc n"
  proof (cases ts)
    case Nil
    then show ?thesis by (simp add: total_list.simps run total_of_def)
  next
    case (Cons t us)
    obtain c where c: "chunks h (root t) = Some c" "tc_next c = hd_opt (map root us)" using ch Cons by auto
    have len: "length (concat (map nodes ts)) = length (nodes t) + length (concat (map nodes us))"
      by (simp add: Cons)
    have "total_n n f (root t) h = Ok (total_of f h (nodes t)) h"
      using Suc.IH [of h t] w dist n Cons len by simp
    moreover have "total_list n f (acc + total_of f h (nodes t)) (hd_opt (map root us)) h =
        Ok (acc + total_of f h (nodes t) + total_of f h (concat (map nodes us))) h"
      using Suc.IH [of h _ us "acc + total_of f h (nodes t)"] ch w dist n Cons len length_nodes [of t]
      by simp
    ultimately show ?thesis
      using Cons c by (simp add: total_list.simps run run_step total_of_def add.assoc)
  qed
  show ?case using node list by blast
qed

lemma total_run:
  assumes r: "rep {} h K R" and a: "a \<in> dom (chunks h)"
    and t: "root t = a" "tree_ok K t" "distinct (nodes t)" "set (nodes t) = below K a"
  shows "total_nolock f a h = Ok (total_of f h (nodes t)) h"
proof -
  have "walkable (chunks h) t" using rep_walkable [OF r t(2)] t(1) a by simp
  moreover have "2 * length (nodes t) \<le> 2 * next_addr h + 2" using tree_size [OF r a t(3,4)] by simp
  ultimately show ?thesis
    using total_spec [of h t "2 * next_addr h + 2" f] t by (simp add: total_nolock_def run)
qed

end
