(* ===== verification/Talloc_Pool.thy ===== *)
theory Talloc_Pool
  imports Talloc_Refs
begin

text \<open>
  What a client of talloc relies on, as an interface: allocating in a pool and freeing a pool with
  everything below it. The interface is interpreted on the model of talloc, for states nobody holds
  references in; the end of the theory has the small heap the instances of the theorems use.
\<close>

section \<open>The interface\<close>

lemma below_add_self:
  assumes leaf: "K a = []"
  shows "below (add_kid p a K) p = insert a (below K p)"
proof (intro set_eqI iffI)
  fix x
  assume "x \<in> below (add_kid p a K) p"
  then have "(x, p) \<in> (insert (a, p) (kid K))\<^sup>*" by (simp add: below_def kid_add)
  then show "x \<in> insert a (below K p)"
  proof (induction rule: converse_rtrancl_induct)
    case (step y z)
    then show ?case using leaf
      by (auto simp: below_def kid_def intro: converse_rtrancl_into_rtrancl)
  qed simp
next
  fix x
  assume "x \<in> insert a (below K p)"
  moreover have "below K p \<subseteq> below (add_kid p a K) p" by (rule below_mono) (auto simp: add_kid_def)
  moreover have "(a, p) \<in> (kid (add_kid p a K))\<^sup>*" by (auto simp: kid_add)
  ultimately show "x \<in> below (add_kid p a K) p" by (auto simp: below_def)
qed

text \<open>
  \<open>good s K\<close>: the state is consistent and its blocks form the forest \<open>K\<close>; \<open>live s a\<close>: the block
  \<open>a\<close> is allocated; \<open>willing s a\<close>: no destructor will refuse that \<open>a\<close> is freed.
\<close>

locale pool =
  fixes good :: "'s \<Rightarrow> links \<Rightarrow> bool"
    and live :: "'s \<Rightarrow> addr \<Rightarrow> bool"
    and willing :: "'s \<Rightarrow> addr \<Rightarrow> bool"
    and alloc :: "addr \<Rightarrow> ('s, addr option) prog"
    and free :: "addr \<Rightarrow> ('s, int) prog"
  assumes alloc_total: "good s K \<Longrightarrow> live s p \<Longrightarrow> \<exists>r s'. alloc p s = Ok r s'"
    and alloc_none: "good s K \<Longrightarrow> live s p \<Longrightarrow> alloc p s = Ok None s' \<Longrightarrow>
      good s' K \<and> live s' = live s \<and> willing s' = willing s"
    and alloc_some: "good s K \<Longrightarrow> live s p \<Longrightarrow> alloc p s = Ok (Some a) s' \<Longrightarrow>
      good s' (add_kid p a K) \<and> \<not> live s a \<and> live s' = (\<lambda>b. live s b \<or> b = a) \<and>
      willing s' = (\<lambda>b. willing s b \<or> b = a)"
    and free_below: "good s K \<Longrightarrow> live s a \<Longrightarrow> (\<And>b. b \<in> below K a \<Longrightarrow> willing s b) \<Longrightarrow>
      \<exists>s'. free a s = Ok 0 s' \<and> good s' (prune (below K a) K) \<and>
        live s' = (\<lambda>b. live s b \<and> b \<notin> below K a)"
    and good_forest: "good s K \<Longrightarrow> forest {a. live s a} K"
begin

lemma fresh_is_leaf: "good s K \<Longrightarrow> \<not> live s a \<Longrightarrow> is_root K a \<and> K a = []"
  using lists_okD(2,5) [OF forestD(1) [OF good_forest]] by (fastforce simp: is_root_def)

lemma prune_fresh:
  assumes "is_root K a" and "K a = []"
  shows "prune {a} (add_kid p a K) = K"
  using assms by (auto simp: prune_def add_kid_def is_root_def fun_eq_iff intro!: filter_True)

lemma below_fresh: "good s K \<Longrightarrow> \<not> live s a \<Longrightarrow> live s p \<Longrightarrow> below (add_kid p a K) a = {a}"
  using fresh_is_leaf [of s K a] by (intro below_root_kids) (auto simp: add_kid_def)

lemma alloc_free:
  assumes g: "good s K" and p: "live s p" and al: "alloc p s = Ok (Some a) s1"
  shows "\<exists>s2. free a s1 = Ok 0 s2 \<and> good s2 K \<and> live s2 = live s"
proof -
  note al' = alloc_some [OF g p al]
  then have g1: "good s1 (add_kid p a K)" and na: "\<not> live s a" by simp_all
  have "below (add_kid p a K) a = {a}" using below_fresh [OF g na p] .
  moreover have "prune {a} (add_kid p a K) = K" using fresh_is_leaf [OF g na] prune_fresh by blast
  ultimately obtain s2 where "free a s1 = Ok 0 s2" "good s2 K" "live s2 = (\<lambda>b. live s1 b \<and> b \<notin> {a})"
    using free_below [OF g1, of a] al' by auto
  moreover have "(\<lambda>b. live s1 b \<and> b \<notin> {a}) = live s" using al' na by (auto simp: fun_eq_iff)
  ultimately show ?thesis by auto
qed

lemma free_pool:
  assumes g: "good s K" and p: "live s p" and al: "alloc p s = Ok (Some a) s1"
    and ok: "\<And>b. b \<in> below K p \<Longrightarrow> willing s b"
  shows "\<exists>s2. free p s1 = Ok 0 s2 \<and> good s2 (prune (insert a (below K p)) (add_kid p a K)) \<and>
    live s2 = (\<lambda>b. live s b \<and> b \<notin> below K p)"
proof -
  note al' = alloc_some [OF g p al]
  then have g1: "good s1 (add_kid p a K)" and na: "\<not> live s a" by simp_all
  have leaf: "K a = []" using fresh_is_leaf [OF g na] by simp
  have eq: "below (add_kid p a K) p = insert a (below K p)" using below_add_self [of K a p, OF leaf] .
  then obtain s2 where "free p s1 = Ok 0 s2" "good s2 (prune (insert a (below K p)) (add_kid p a K))"
    "live s2 = (\<lambda>b. live s1 b \<and> b \<notin> insert a (below K p))"
    using free_below [OF g1, of p] al' ok p by auto
  moreover have "(\<lambda>b. live s1 b \<and> b \<notin> insert a (below K p)) = (\<lambda>b. live s b \<and> b \<notin> below K p)"
    using al' na by (auto simp: fun_eq_iff)
  ultimately show ?thesis by auto
qed

end

section \<open>talloc provides it\<close>

definition holds_no_references :: "'w tstate \<Rightarrow> links \<Rightarrow> bool" where
  "holds_no_references h K \<longleftrightarrow> rep {} h K (\<lambda>_. [])"

definition allocated :: "'w tstate \<Rightarrow> addr \<Rightarrow> bool" where
  "allocated h a \<longleftrightarrow> chunks h a \<noteq> None"

definition lets_go :: "'w tstate \<Rightarrow> addr \<Rightarrow> bool" where
  "lets_go h a \<longleftrightarrow> agrees h a \<and> null_context h \<noteq> Some a"

lemma named_const_fails:
  "MAX_TALLOC_SIZE \<le> sz \<Longrightarrow> talloc_named_const_nolock ctxt sz name h = Ok None h"
  "sz < MAX_TALLOC_SIZE \<Longrightarrow> oom h (ticks h) \<Longrightarrow>
     (\<And>p. context_of h ctxt = Some p \<Longrightarrow> \<exists>c. chunks h p = Some c \<and> magic_ok c \<and>
        tc_flags c AND TALLOC_FLAG_EXT_ALLOC = 0) \<Longrightarrow>
     talloc_named_const_nolock ctxt sz name h = Ok None (h\<lparr>ticks := Suc (ticks h)\<rparr>)"
  by (cases "context_of h ctxt";
      auto simp: talloc_named_const_nolock_def talloc_alloc_def run Let_def context_of_def
        malloc_chunk_def init_talloc_def not_le split: if_splits)+

lemma rep_ticks: "rep X (h\<lparr>ticks := n\<rparr>) K R = rep X h K R"
  by (simp add: rep_def world_ok_def)

lemma named_const_locked:
  assumes "\<not> tc_lock h" and "talloc_named_const_nolock ctxt sz name h = Ok r h'" and "\<not> locked h'"
  shows "talloc_named_const ctxt sz name h = Ok r h'"
  using assms by (simp add: talloc_named_const_def run run_step unlock_id)

text \<open>Every outcome of allocating.\<close>

lemma alloc_cases:
  assumes r: "rep {} h K R" and ctxt: "\<And>p. context_of h ctxt = Some p \<Longrightarrow> p \<in> dom (chunks h)"
  obtains (too_big) "MAX_TALLOC_SIZE \<le> sz" "talloc_named_const ctxt sz name h = Ok None h"
  | (no_memory) "sz < MAX_TALLOC_SIZE" "oom h (ticks h)"
      "talloc_named_const ctxt sz name h = Ok None (h\<lparr>ticks := Suc (ticks h)\<rparr>)"
  | (ok) C where "sz < MAX_TALLOC_SIZE" "\<not> oom h (ticks h)"
      "talloc_named_const ctxt sz name h = Ok (Some (next_addr h)) (with_fresh (fresh name sz) h\<lparr>chunks := C\<rparr>)"
      "rep {} (with_fresh (fresh name sz) h\<lparr>chunks := C\<rparr>) (add_opt (context_of h ctxt) (next_addr h) K) R"
      "keeps ((chunks h)(next_addr h \<mapsto> fresh name sz)) C"
proof -
  note w = rep_world [OF r]
  consider "MAX_TALLOC_SIZE \<le> sz" | "sz < MAX_TALLOC_SIZE" "oom h (ticks h)"
    | "sz < MAX_TALLOC_SIZE" "\<not> oom h (ticks h)" by fastforce
  then show thesis
  proof cases
    case 1
    then show thesis using too_big named_const_locked [OF w(1) named_const_fails(1) w(2)] by blast
  next
    case 2
    have "\<exists>c. chunks h p = Some c \<and> magic_ok c \<and> tc_flags c AND TALLOC_FLAG_EXT_ALLOC = 0"
      if "context_of h ctxt = Some p" for p
      using ctxt [OF that] rep_magic [OF r] rep_flags [OF r] by fastforce
    with 2 have "talloc_named_const_nolock ctxt sz name h = Ok None (h\<lparr>ticks := Suc (ticks h)\<rparr>)"
      by (intro named_const_fails(2)) auto
    then show thesis using no_memory [OF 2] named_const_locked [OF w(1)] w(2) by fastforce
  next
    case 3
    obtain C where C: "talloc_named_const_nolock ctxt sz name h =
        Ok (Some (next_addr h)) (with_fresh (fresh name sz) h\<lparr>chunks := C\<rparr>)"
      "rep {} (with_fresh (fresh name sz) h\<lparr>chunks := C\<rparr>) (add_opt (context_of h ctxt) (next_addr h) K) R"
      "keeps ((chunks h)(next_addr h \<mapsto> fresh name sz)) C"
      using named_const_spec [OF r, of ctxt sz name] ctxt 3 by blast
    show thesis
      using ok [OF 3 _ C(2,3)] named_const_locked [OF w(1) C(1)] w(2) by simp
  qed
qed

lemma keeps_new:
  assumes k: "keeps ((chunks h)(a \<mapsto> c)) C" and new: "chunks h a = None"
  shows "C b = None \<longleftrightarrow> chunks h b = None \<and> b \<noteq> a"
    and "b \<noteq> a \<Longrightarrow> map_option tc_destructor (C b) = map_option tc_destructor (chunks h b)"
    and "map_option tc_destructor (C a) = Some (tc_destructor c)"
  using keeps_None [OF k, of b] keepsD [OF k, of b] keepsD [OF k, of a]
  by (cases "chunks h b"; auto simp: same_content_def)+

lemma agrees_destructor:
  "map_option tc_destructor (chunks h' b) = map_option tc_destructor (chunks h b) \<Longrightarrow>
   user_destructor h' = user_destructor h \<Longrightarrow> agrees h' b = agrees h b"
  by (cases "chunks h b"; cases "chunks h' b") (auto simp: agrees_def)

lemma free_locked:
  assumes r: "rep {} h K R" and f: "talloc_free_nolock (Some a) h = Ok x h'" and r': "rep {} h' K' R'"
  shows "talloc_free (Some a) h = Ok x h'"
  using rep_world(1,2) [OF r] rep_world(2) [OF r'] f by (simp add: talloc_free_def run run_step unlock_id)

lemma free_subtree_run:
  assumes "rep {} h K R" and "a \<in> dom (chunks h)"
    and "\<And>b. b \<in> below K a \<Longrightarrow> R b = [] \<and> null_context h \<noteq> Some b"
    and "\<And>S. distinct S \<Longrightarrow> set S = below K a \<Longrightarrow> hd S = a \<Longrightarrow> all_agree h S (outside h)"
  shows "\<exists>h' S. talloc_free (Some a) h = Ok 0 h' \<and> set S = below K a \<and> distinct S \<and>
    sorted_wrt (\<lambda>x y. x \<notin> below K y) S \<and> outside h' = fold (destroy h) S (outside h) \<and>
    rep {} h' (prune (below K a) K) (prune (below K a) R) \<and> survives (below K a) h h' \<and>
    dom (chunks h') = dom (chunks h) - below K a"
proof (rule free_run [OF assms])
  fix t h'
  assume t: "tree_ok K t" "distinct (nodes t)" "set (nodes t) = below K a"
    and run: "talloc_free_nolock (Some a) h = Ok 0 h'" and f: "freed {} h K R (nodes t) h'"
  have f': "rep {} h' (prune (below K a) K) (prune (below K a) R)" "survives (below K a) h h'"
    "\<forall>b \<in> below K a. chunks h' b = None" "outside h' = fold (destroy h) (nodes t) (outside h)"
    using f t(3) by (simp_all add: freed_def)
  have "b \<in> dom (chunks h') \<longleftrightarrow> b \<in> dom (chunks h) - below K a" for b
    using survivesD [OF f'(2), of b] f'(3) by (cases "b \<in> below K a"; cases "chunks h b") auto
  then show ?thesis
    using f' t free_locked [OF assms(1) run f'(1)] parents_first [OF repD(1) [OF assms(1)] t(1)]
    by (intro exI [of _ h'] exI [of _ "nodes t"]) blast
qed

lemma alloc_None:
  assumes r: "rep {} h K R" and p: "p \<in> dom (chunks h)"
    and al: "talloc_named_const (Some p) sz name h = Ok None h'"
  shows "rep {} h' K R \<and> chunks h' = chunks h \<and> user_destructor h' = user_destructor h \<and>
    null_context h' = null_context h"
  by (rule alloc_cases [OF r, of "Some p" sz name])
    (use p al r in \<open>auto simp: context_of_def rep_ticks\<close>)

lemma alloc_Some:
  assumes r: "rep {} h K R" and p: "p \<in> dom (chunks h)"
    and al: "talloc_named_const (Some p) sz name h = Ok (Some a) h'"
  shows "a = next_addr h \<and> rep {} h' (add_kid p a K) R \<and> grows h h' \<and>
    map_option tc_destructor (chunks h' a) = Some D_null"
proof -
  obtain C where a: "a = next_addr h" "h' = with_fresh (fresh name sz) h\<lparr>chunks := C\<rparr>"
    and r': "rep {} h' (add_kid p a K) R" and k: "keeps ((chunks h)(next_addr h \<mapsto> fresh name sz)) C"
    by (rule alloc_cases [OF r, of "Some p" sz name]) (use p al in \<open>auto simp: context_of_def\<close>)
  have "map_option tc_destructor (C a) = Some D_null"
    using keeps_new(3) [OF k fresh_chunk(1) [OF r]] a by (simp add: fresh_def)
  then show ?thesis using a r' grows_fresh [OF r k] by simp
qed

lemma grows_agrees: "grows h h' \<Longrightarrow> chunks h b = Some c \<Longrightarrow> agrees h' b = agrees h b"
  by (rule agrees_destructor) (auto simp: grows_def same_content_def dest!: spec [of _ b])

lemma free_below_run:
  assumes r: "rep {} h K (\<lambda>_. [])" and a: "a \<in> dom (chunks h)"
    and ok: "\<And>b. b \<in> below K a \<Longrightarrow> lets_go h b"
  shows "\<exists>h'. talloc_free (Some a) h = Ok 0 h' \<and> rep {} h' (prune (below K a) K) (\<lambda>_. []) \<and>
    survives (below K a) h h' \<and> (\<forall>b \<in> below K a. chunks h' b = None)"
proof -
  have refs: "(\<lambda>_. []) b = ([] :: addr list) \<and> null_context h \<noteq> Some b" if "b \<in> below K a" for b
    using ok [OF that] by (simp add: lets_go_def)
  have agr: "all_agree h S (outside h)" if "set S = below K a" for S
    using ok that by (intro agrees_all_agree) (simp add: lets_go_def)
  show ?thesis
  proof (rule free_run [OF r a refs agr])
    fix t h'
    assume t: "set (nodes t) = below K a" and run: "talloc_free_nolock (Some a) h = Ok 0 h'"
      and f: "freed {} h K (\<lambda>_. []) (nodes t) h'"
    have "prune S (\<lambda>_. []) = (\<lambda>_. [])" for S by (simp add: prune_def fun_eq_iff)
    then have "rep {} h' (prune (below K a) K) (\<lambda>_. [])" "survives (below K a) h h'"
      "\<forall>b \<in> below K a. chunks h' b = None" using f t by (simp_all add: freed_def)
    then show ?thesis using free_locked [OF r run] by blast
  qed
qed

interpretation talloc_pool: pool holds_no_references allocated lets_go
    "\<lambda>p. talloc_named_const (Some p) sz name" "\<lambda>a. talloc_free (Some a)" for sz name
proof (unfold_locales, goal_cases)
  case (1 h K p)
  then have r: "rep {} h K (\<lambda>_. [])" and p: "p \<in> dom (chunks h)"
    by (auto simp: holds_no_references_def allocated_def)
  show ?case by (rule alloc_cases [OF r, of "Some p" sz name]) (use p in \<open>auto simp: context_of_def\<close>)
next
  case (2 h K p h')
  then have "rep {} h K (\<lambda>_. [])" "p \<in> dom (chunks h)"
    by (auto simp: holds_no_references_def allocated_def)
  from alloc_None [OF this 2(3)] show ?case
    by (auto simp: holds_no_references_def allocated_def lets_go_def agrees_def fun_eq_iff)
next
  case (3 h K p a h')
  then have r: "rep {} h K (\<lambda>_. [])" and p: "p \<in> dom (chunks h)"
    by (auto simp: holds_no_references_def allocated_def)
  note al = alloc_Some [OF r p 3(3)]
  have new: "chunks h a = None" using fresh_chunk(1) [OF r] al by simp
  have "agrees h' b = (agrees h b \<or> b = a)" for b
  proof (cases "chunks h b")
    case None
    then have "agrees h b" by (simp add: agrees_def)
    moreover have "agrees h' b"
      using None al by (cases "b = a") (auto simp: agrees_def grows_def)
    ultimately show ?thesis by simp
  next
    case (Some c)
    then have "b \<noteq> a" using new by auto
    then show ?thesis using grows_agrees [OF _ Some] al by simp
  qed
  moreover have "null_context h' = null_context h" using al by (simp add: grows_def)
  moreover have "null_context h \<noteq> Some a" using rep_world(3) [OF r] new by force
  moreover have "chunks h' b = None \<longleftrightarrow> chunks h b = None \<and> b \<noteq> a" for b
    using al by (auto simp: grows_def)
  ultimately show ?case
    using al new by (auto simp: holds_no_references_def allocated_def lets_go_def fun_eq_iff)
next
  case (4 h K a)
  then have r: "rep {} h K (\<lambda>_. [])" and a: "a \<in> dom (chunks h)"
    by (auto simp: holds_no_references_def allocated_def)
  obtain h' where h': "talloc_free (Some a) h = Ok 0 h'" "rep {} h' (prune (below K a) K) (\<lambda>_. [])"
    "survives (below K a) h h'" "\<forall>b \<in> below K a. chunks h' b = None"
    using free_below_run [OF r a 4(3)] by blast
  have "chunks h' b \<noteq> None \<longleftrightarrow> chunks h b \<noteq> None \<and> b \<notin> below K a" for b
    using survivesD [OF h'(3), of b] h'(4) by (cases "chunks h b") auto
  then show ?case using h' by (auto simp: holds_no_references_def allocated_def fun_eq_iff)
next
  case (5 h K)
  have "{a. allocated h a} = dom (chunks h)" by (auto simp: allocated_def)
  then show ?case using 5 repD(1) by (simp add: holds_no_references_def)
qed

text \<open>The destructor and the name of a block are its own affair.\<close>

lemma chunk_update:
  assumes r: "rep {} h K R" and c: "chunks h a = Some c" and d: "tc_destructor d = D_reference \<longleftrightarrow> \<not> is_root R a"
    "tc_destructor d \<noteq> D_minus_1" and same: "tc_next d = tc_next c" "tc_prev d = tc_prev c" "tc_parent d = tc_parent c"
    "tc_child d = tc_child c" "tc_refs d = tc_refs c" "tc_flags d = tc_flags c"
  shows "rep {} (h\<lparr>chunks := (chunks h)(a \<mapsto> d)\<rparr>) K R"
proof -
  have "chunk_ok {} K R a d" using repD(5) [OF r c] d same by (simp add: chunk_ok_def own_ok_def)
  then show ?thesis using r c unfolding rep_def by (simp add: world_ok_def insert_absorb domI)
qed

end
