(* ===== verification/Talloc_Realloc.thy ===== *)
theory Talloc_Realloc
  imports Talloc_Pool
begin

text \<open>
  \<open>talloc_realloc\<close>: the block may move, and then its address changes in the links of its parent, of its
  first child and of its two neighbours. The forest is the one before with the new address in
  place of the old one.
\<close>

section \<open>A forest with one address for another\<close>

text \<open>The new address is not in use, so that exchanging the two replaces the old one.\<close>

definition moved :: "addr \<Rightarrow> addr \<Rightarrow> addr \<Rightarrow> addr" where
  "moved p a x = (if x = p then a else if x = a then p else x)"

definition move_links :: "addr \<Rightarrow> addr \<Rightarrow> links \<Rightarrow> links" where
  "move_links p a K = (\<lambda>q. map (moved p a) (K (moved p a q)))"

lemma moved_moved [simp]: "moved p a (moved p a x) = x"
  by (simp add: moved_def)

lemma moved_eq [simp]: "moved p a x = moved p a y \<longleftrightarrow> x = y"
  by (auto simp: moved_def split: if_splits)

lemma moved_simps [simp]: "moved p a p = a" "moved p a a = p" "x \<noteq> p \<Longrightarrow> x \<noteq> a \<Longrightarrow> moved p a x = x"
  by (simp_all add: moved_def)

lemma moved_inj: "inj (moved p a)"
  by (rule injI) simp

lemma in_move_links [simp]: "b \<in> set (move_links p a K q) \<longleftrightarrow> moved p a b \<in> set (K (moved p a q))"
  by (auto simp: move_links_def image_iff intro: bexI [of _ "moved p a b"])

lemma lists_ok_move: "lists_ok D K \<Longrightarrow> lists_ok (moved p a ` D) (move_links p a K)"
proof -
  assume ok: "lists_ok D K"
  have mem: "moved p a x \<in> D \<longleftrightarrow> x \<in> moved p a ` D" for x
    by (auto simp: image_iff intro: bexI [of _ "moved p a x"])
  have "distinct (move_links p a K q)" for q
    by (simp add: move_links_def distinct_map lists_okD(1) [OF ok] inj_on_subset [OF moved_inj])
  moreover have "set (move_links p a K q) \<subseteq> moved p a ` D" for q
    using lists_okD(2) [OF ok] by (auto simp: mem [symmetric])
  moreover have "move_links p a K q = []" if "q \<notin> moved p a ` D" for q
    using that lists_okD(5) [OF ok, of "moved p a q"] by (simp add: move_links_def mem)
  moreover have "x = y" if "b \<in> set (move_links p a K x)" "b \<in> set (move_links p a K y)" for b x y
    using that lists_okD(4) [OF ok] by fastforce
  ultimately show ?thesis unfolding lists_ok_def by blast
qed

lemma forest_move: "forest D K \<Longrightarrow> forest (moved p a ` D) (move_links p a K)"
proof -
  assume f: "forest D K"
  have "(moved p a x, moved p a y) \<in> (kid K)\<^sup>+" if "(x, y) \<in> (kid (move_links p a K))\<^sup>+" for x y
    using that
  proof (induction rule: trancl_induct)
    case (base y)
    then show ?case by (auto simp: kid_def)
  next
    case (step y z)
    then have "(moved p a y, moved p a z) \<in> kid K" by (simp add: kid_def)
    with step.IH show ?case by (rule trancl_into_trancl)
  qed
  then have "acyclic (kid (move_links p a K))"
    using forestD(2) [OF f] unfolding acyclic_def by blast
  then show ?thesis using lists_ok_move [OF forestD(1) [OF f]] by (simp add: forest_def)
qed

lemma succ_in_map: "inj f \<Longrightarrow> succ_in (map f xs) (f x) = map_option f (succ_in xs x)"
  by (induction xs) (auto simp: inj_eq hd_opt_def split: list.split)

lemma pred_from_map: "inj f \<Longrightarrow> pred_from (map_option f u) (map f xs) (f x) = map_option f (pred_from u xs x)"
proof (induction xs arbitrary: u)
  case (Cons y ys)
  then show ?case using Cons.IH [of "Some y"] by (auto simp: inj_eq)
qed simp

lemma hd_opt_map: "hd_opt (map f xs) = map_option f (hd_opt xs)"
  by (cases xs) simp_all

lemma hd_move: "hd_opt (move_links p a K (moved p a q)) = map_option (moved p a) (hd_opt (K q))"
  by (simp add: move_links_def hd_opt_map)

lemma is_root_move: "is_root (move_links p a K) (moved p a q) \<longleftrightarrow> is_root K q"
proof
  assume "is_root K q"
  then show "is_root (move_links p a K) (moved p a q)" by (simp add: is_root_def)
next
  assume r: "is_root (move_links p a K) (moved p a q)"
  show "is_root K q"
    unfolding is_root_def using r [unfolded is_root_def, rule_format, of "moved p a x" for x] by simp
qed

section \<open>A heap with one address for another\<close>

definition moved_chunk :: "addr \<Rightarrow> addr \<Rightarrow> talloc_chunk \<Rightarrow> talloc_chunk" where
  "moved_chunk p a c = c\<lparr>tc_next := map_option (moved p a) (tc_next c), tc_prev := map_option (moved p a) (tc_prev c),
     tc_parent := map_option (moved p a) (tc_parent c), tc_child := map_option (moved p a) (tc_child c),
     tc_refs := map_option (moved p a) (tc_refs c)\<rparr>"

lemma own_ok_move: "own_ok K q c \<Longrightarrow> own_ok (move_links p a K) (moved p a q) (moved_chunk p a c)"
  unfolding own_ok_def
proof (intro conjI allI impI)
  assume ok: "(\<forall>p. q \<in> set (K p) \<longrightarrow> tc_next c = succ_in (K p) q \<and> tc_prev c = pred_in (K p) q \<and>
         tc_parent c = (if hd_opt (K p) = Some q then Some p else None)) \<and>
      (is_root K q \<longrightarrow> tc_next c = None \<and> tc_prev c = None \<and> tc_parent c = None)"
  fix x assume "moved p a q \<in> set (move_links p a K x)"
  then have q: "q \<in> set (K (moved p a x))" by simp
  show "tc_next (moved_chunk p a c) = succ_in (move_links p a K x) (moved p a q)"
    using ok q by (simp add: moved_chunk_def move_links_def succ_in_map [OF moved_inj])
  show "tc_prev (moved_chunk p a c) = pred_in (move_links p a K x) (moved p a q)"
    using ok q pred_from_map [OF moved_inj, of p a None] by (simp add: moved_chunk_def move_links_def)
  show "tc_parent (moved_chunk p a c) = (if hd_opt (move_links p a K x) = Some (moved p a q) then Some x else None)"
    using ok q by (cases "hd_opt (K (moved p a x))") (auto simp: moved_chunk_def move_links_def hd_opt_map)
next
  assume ok: "(\<forall>p. q \<in> set (K p) \<longrightarrow> tc_next c = succ_in (K p) q \<and> tc_prev c = pred_in (K p) q \<and>
         tc_parent c = (if hd_opt (K p) = Some q then Some p else None)) \<and>
      (is_root K q \<longrightarrow> tc_next c = None \<and> tc_prev c = None \<and> tc_parent c = None)"
    and "is_root (move_links p a K) (moved p a q)"
  then show "tc_next (moved_chunk p a c) = None" "tc_prev (moved_chunk p a c) = None"
    "tc_parent (moved_chunk p a c) = None" by (simp_all add: is_root_move moved_chunk_def)
qed

lemma chunk_ok_move:
  "chunk_ok {} K R q c \<Longrightarrow> chunk_ok {} (move_links p a K) (move_links p a R) (moved p a q) (moved_chunk p a c)"
  using own_ok_move [of K q c p a]
  by (auto simp: chunk_ok_def is_root_move moved_chunk_def hd_move)

text \<open>
  The links that lead to the block are those its own links lead to: the block is the first child of the parent it
  knows, the parent of its first child, and the neighbour of its neighbours.
\<close>

lemma links_meet:
  assumes r: "rep {} h K R" and c: "chunks h p = Some c" and d: "chunks h q = Some d"
  shows "tc_child d = Some p \<longleftrightarrow> tc_parent c = Some q" and "tc_next d = Some p \<longleftrightarrow> tc_prev c = Some q"
proof -
  note ok = rep_own [OF r c, simplified, unfolded own_ok_def] rep_own [OF r d, simplified, unfolded own_ok_def]
  note dist = lists_okD(1) [OF repD(4) [OF r]] and one = lists_okD(4) [OF repD(4) [OF r]]
  show "tc_child d = Some p \<longleftrightarrow> tc_parent c = Some q"
  proof
    assume "tc_child d = Some p"
    then have hd: "hd_opt (K q) = Some p" using rep_child [OF r d] by simp
    then show "tc_parent c = Some q" using ok(1) hd_opt_in [OF hd] by auto
  next
    assume par: "tc_parent c = Some q"
    then obtain x where "p \<in> set (K x)" using ok(1) by (auto simp: is_root_def)
    then have "x = q \<and> hd_opt (K q) = Some p" using ok(1) par by (auto split: if_splits)
    then show "tc_child d = Some p" using rep_child [OF r d] by simp
  qed
  have nb: "succ_in (K x) q = Some p \<longleftrightarrow> pred_in (K x) p = Some q" for x by (rule succ_pred_in [OF dist])
  show "tc_next d = Some p \<longleftrightarrow> tc_prev c = Some q"
  proof
    assume n: "tc_next d = Some p"
    then obtain x where q: "q \<in> set (K x)" using ok(2) by (auto simp: is_root_def)
    then have su: "succ_in (K x) q = Some p" using ok(2) n by simp
    then have "p \<in> set (K x)" "pred_in (K x) p = Some q" using nb [of x] succ_in_set [OF su] by simp_all
    then show "tc_prev c = Some q" using ok(1) by simp
  next
    assume n: "tc_prev c = Some q"
    then obtain x where p: "p \<in> set (K x)" using ok(1) by (auto simp: is_root_def)
    then have pr: "pred_in (K x) p = Some q" using ok(1) n by simp
    then have "q \<in> set (K x)" "succ_in (K x) q = Some p" using nb [of x] pred_in_set [OF pr] by simp_all
    then show "tc_next d = Some p" using ok(2) by simp
  qed
qed

lemma links_known:
  assumes r: "rep {} h K R" and c: "chunks h q = Some c" and x: "Some x \<in> {tc_next c, tc_prev c, tc_parent c, tc_child c}"
  shows "x \<in> dom (chunks h)" and "x \<noteq> q"
proof -
  note own = rep_own [OF r c, simplified, unfolded own_ok_def]
  note L = lists_okD [OF repD(4) [OF r]]
  have "x \<in> dom (chunks h) \<and> x \<noteq> q"
  proof (cases "is_root K q")
    case True
    then have "hd_opt (K q) = Some x" using x own rep_child [OF r c] by auto
    then have "x \<in> set (K q)" by (rule hd_opt_in)
    then show ?thesis using L(2) acyclic_irrefl [OF forestD(2) [OF repD(1) [OF r]]] by auto
  next
    case False
    then obtain y where q: "q \<in> set (K y)" by (auto simp: is_root_def)
    have "x = y \<or> succ_in (K y) q = Some x \<or> pred_in (K y) q = Some x \<or> hd_opt (K q) = Some x"
      using x own q rep_child [OF r c] by (auto split: if_splits)
    moreover have "y \<in> dom (chunks h)" "y \<noteq> q"
      using L(3) [OF q] q acyclic_irrefl [OF forestD(2) [OF repD(1) [OF r]]] by auto
    moreover have "succ_in (K y) q \<noteq> Some q" "pred_in (K y) q \<noteq> Some q" "hd_opt (K q) \<noteq> Some q"
      using succ_in_irrefl [OF L(1)] pred_in_irrefl [OF L(1)] acyclic_irrefl [OF forestD(2) [OF repD(1) [OF r]]]
      by (auto dest: hd_opt_in)
    ultimately have "x \<noteq> q" and "x = y \<and> y \<in> dom (chunks h) \<or> (\<exists>z. x \<in> set (K z))"
      by (auto dest: succ_in_set pred_in_set hd_opt_in)
    then show ?thesis using L(2) by blast
  qed
  then show "x \<in> dom (chunks h)" and "x \<noteq> q" by simp_all
qed

section \<open>Writing the new address\<close>

definition upd_at :: "addr option \<Rightarrow> (talloc_chunk \<Rightarrow> talloc_chunk) \<Rightarrow> (addr \<Rightarrow> talloc_chunk option) \<Rightarrow> addr \<Rightarrow> talloc_chunk option" where
  "upd_at x f C = (\<lambda>q. if x = Some q then map_option f (C q) else C q)"

definition relink :: "addr \<Rightarrow> talloc_chunk \<Rightarrow> (addr \<Rightarrow> talloc_chunk option) \<Rightarrow> addr \<Rightarrow> talloc_chunk option" where
  "relink a c C = upd_at (tc_next c) (\<lambda>k. k\<lparr>tc_prev := Some a\<rparr>) (upd_at (tc_prev c) (\<lambda>k. k\<lparr>tc_next := Some a\<rparr>)
     (upd_at (tc_child c) (\<lambda>k. k\<lparr>tc_parent := Some a\<rparr>) (upd_at (tc_parent c) (\<lambda>q. q\<lparr>tc_child := Some a\<rparr>) C)))"

lemma upd_at_None: "upd_at x f C q = None \<longleftrightarrow> C q = None"
  by (simp add: upd_at_def)

lemma run_upd_opt:
  "(\<And>q. x = Some q \<Longrightarrow> chunks h q \<noteq> None) \<Longrightarrow>
   pbind (upd_chunk_opt x f) k h = k () (h\<lparr>chunks := upd_at x f (chunks h)\<rparr>)"
proof (cases x)
  case None
  then show ?thesis by (simp add: upd_at_def run)
next
  case (Some q)
  assume "\<And>q. x = Some q \<Longrightarrow> chunks h q \<noteq> None"
  then obtain c where c: "chunks h q = Some c" using Some by auto
  then have "upd_at x f (chunks h) = (chunks h)(q \<mapsto> f c)" using Some by (auto simp: upd_at_def)
  then show ?thesis using Some c by (simp add: run)
qed

lemma run_relink:
  assumes "\<And>q. Some q \<in> {tc_next c, tc_prev c, tc_parent c, tc_child c} \<Longrightarrow> chunks h q \<noteq> None"
  shows "pthen (upd_chunk_opt (tc_parent c) (\<lambda>q. q\<lparr>tc_child := Some a\<rparr>))
    (pthen (upd_chunk_opt (tc_child c) (\<lambda>k. k\<lparr>tc_parent := Some a\<rparr>))
    (pthen (upd_chunk_opt (tc_prev c) (\<lambda>k. k\<lparr>tc_next := Some a\<rparr>))
    (pthen (upd_chunk_opt (tc_next c) (\<lambda>k. k\<lparr>tc_prev := Some a\<rparr>)) m))) h = m (h\<lparr>chunks := relink a c (chunks h)\<rparr>)"
  using assms by (simp add: run_upd_opt upd_at_None relink_def)

lemma moved_link:
  assumes "a = p \<or> chunks h a = None" and "\<And>y. x = Some y \<Longrightarrow> y \<in> dom (chunks h)"
  shows "map_option (moved p a) x = (if x = Some p then Some a else x)"
  using assms by (cases x) (auto simp: moved_def)

lemma moved_chunk_links:
  assumes r: "rep {} h K R" and d: "chunks h q = Some d" and root: "is_root R p" and a: "a = p \<or> chunks h a = None"
  shows "moved_chunk p a d = d\<lparr>tc_next := (if tc_next d = Some p then Some a else tc_next d),
    tc_prev := (if tc_prev d = Some p then Some a else tc_prev d),
    tc_parent := (if tc_parent d = Some p then Some a else tc_parent d),
    tc_child := (if tc_child d = Some p then Some a else tc_child d)\<rparr>"
proof -
  have refs: "map_option (moved p a) (tc_refs d) = tc_refs d"
  proof (cases "R q")
    case (Cons g gs)
    then have "g \<in> dom (chunks h)" using lists_okD(2) [OF repD(2) [OF r], of g q] by simp
    moreover have "g \<noteq> p" using root Cons by (auto simp: is_root_def dest: spec [of _ q])
    ultimately show ?thesis using a rep_refs [OF r d] Cons by (auto simp: moved_def)
  qed (use rep_refs [OF r d] in simp)
  note known = links_known(1) [OF r d]
  show ?thesis
    unfolding moved_chunk_def refs by (simp add: moved_link [OF a] known)
qed

lemma relink_moved:
  assumes r: "rep {} h K R" and c: "chunks h p = Some c" and root: "is_root R p"
    and a: "a = p \<or> chunks h a = None"
  shows "relink a c ((chunks h)(p := None, a \<mapsto> c)) = (\<lambda>q. map_option (moved_chunk p a) (chunks h (moved p a q)))"
proof
  fix q
  consider (new) "q = a" | (old) "q = p" "q \<noteq> a" | (other) "q \<noteq> p" "q \<noteq> a" by blast
  then show "relink a c ((chunks h)(p := None, a \<mapsto> c)) q = map_option (moved_chunk p a) (chunks h (moved p a q))"
  proof cases
    case new
    have not: "Some x \<in> {tc_next c, tc_prev c, tc_parent c, tc_child c} \<Longrightarrow> x \<noteq> p \<and> x \<noteq> a" for x
      using links_known [OF r c, of x] a by auto
    have "moved_chunk p a c = c"
      unfolding moved_chunk_links [OF r c root a] using not [of p] by (cases c) auto
    moreover have "relink a c ((chunks h)(p := None, a \<mapsto> c)) a = Some c"
      using not [of a] by (auto simp: relink_def upd_at_def)
    ultimately show ?thesis using new c by simp
  next
    case old
    then show ?thesis using a by (auto simp: relink_def upd_at_def)
  next
    case other
    show ?thesis
    proof (cases "chunks h q")
      case None
      then show ?thesis using other by (simp add: relink_def upd_at_def)
    next
      case (Some d)
      note meet = links_meet [OF r c Some] links_meet [OF r Some c]
      show ?thesis
        using other Some unfolding relink_def upd_at_def
        by (simp add: moved_chunk_links [OF r Some root a] meet(1,2) meet(3,4) [symmetric])
    qed
  qed
qed

lemma move_links_same:
  assumes "lists_ok D R" and "is_root R p" and "R p = []" and "a = p \<or> a \<notin> D"
  shows "move_links p a R = R"
proof
  fix q
  have fix_list: "map (moved p a) (R q) = R q" for q
  proof (rule map_idI)
    fix x assume "x \<in> set (R q)"
    then have "x \<noteq> p" "a = p \<or> x \<noteq> a" using assms(2,4) lists_okD(2) [OF assms(1)] by (auto simp: is_root_def)
    then show "moved p a x = x" by (auto simp: moved_def)
  qed
  have "R (moved p a q) = R q" using assms(3,4) lists_okD(5) [OF assms(1), of a] by (auto simp: moved_def)
  then show "move_links p a R q = R q" by (simp add: move_links_def fix_list)
qed

lemma rep_moved:
  assumes r: "rep {} h K R" and c: "chunks h p = Some c" and root: "is_root R p" "R p = []"
    and a: "a = p \<or> chunks h a = None" and null: "null_context h \<noteq> Some p"
    and C: "chunks h' = (\<lambda>q. map_option (moved_chunk p a) (chunks h (moved p a q)))"
    and H: "\<And>g. g \<noteq> p \<Longrightarrow> g \<noteq> a \<Longrightarrow> handles h' g = handles h g"
    and rest: "null_context h' = null_context h" "tc_lock h' = tc_lock h" "\<not> locked h'" "next_addr h \<le> next_addr h'" "a < next_addr h'"
  shows "rep {} h' (move_links p a K) R"
proof -
  note L = repD(2) [OF r]
  have dom: "dom (chunks h') = moved p a ` dom (chunks h)"
    by (force simp: C dom_def image_iff intro: exI [of _ "moved p a x" for x])
  have Rm: "move_links p a R = R" by (rule move_links_same [OF L root]) (use a in auto)
  have "lists_ok (dom (chunks h')) R" unfolding dom using lists_ok_move [OF L, of p a] by (simp add: Rm)
  moreover have "chunk_ok {} (move_links p a K) R q d" if d: "chunks h' q = Some d" for q d
  proof -
    obtain b where b: "chunks h (moved p a q) = Some b" "d = moved_chunk p a b" using d by (auto simp: C)
    show ?thesis using chunk_ok_move [OF repD(5) [OF r b(1)], of p a] b(2) by (simp add: Rm)
  qed
  moreover have "\<exists>d. handles h' g = Some d \<and> handle_ok R q g d" if g: "g \<in> set (R q)" for q g
  proof -
    have "g \<noteq> p" "g \<in> dom (chunks h)" using root(1) g lists_okD(2) [OF L g] by (auto simp: is_root_def)
    then have "handles h' g = handles h g" using a by (intro H) auto
    then show ?thesis using repD(6) [OF r g] by simp
  qed
  moreover have "world_ok h'"
  proof -
    have w: "world_ok h" by (rule repD(3) [OF r])
    have "chunks h' x \<noteq> None" if "null_context h' = Some x" for x
    proof -
      have "x \<noteq> p" "chunks h x \<noteq> None" using that null rest(1) w by (auto simp: world_ok_def)
      then have "moved p a x = x" using a by (auto simp: moved_def)
      then show ?thesis using \<open>chunks h x \<noteq> None\<close> by (simp add: C)
    qed
    moreover have "x < next_addr h'" if "chunks h' x \<noteq> None" for x
    proof -
      have "moved p a x < next_addr h" using that w by (auto simp: C world_ok_def)
      moreover have "p < next_addr h" using w c by (auto simp: world_ok_def)
      ultimately show ?thesis using rest(4,5) by (auto simp: moved_def split: if_splits)
    qed
    ultimately show ?thesis using w rest(2,3) by (simp add: world_ok_def)
  qed
  ultimately show ?thesis using forest_move [OF repD(1) [OF r], of p a] unfolding rep_def dom by blast
qed

section \<open>The call of realloc\<close>

lemma realloc_chunk_run:
  assumes c: "chunks h p = Some c" and mem: "\<not> oom h (ticks h)"
  obtains a h' where "realloc_chunk p n h = Ok (Some a) h'" and "a = p \<and> \<not> moves h (ticks h) \<or> a = next_addr h \<and> moves h (ticks h)"
    and "chunks h' = (chunks h)(p := None, a \<mapsto> c)" and "length (payload h' a) = n"
    and "take (min n (length (payload h p))) (payload h' a) = take n (payload h p)"
    and "\<And>g. g \<noteq> p \<Longrightarrow> g \<noteq> a \<Longrightarrow> handles h' g = handles h g \<and> payload h' g = payload h g"
    and "null_context h' = null_context h" "tc_lock h' = tc_lock h" "locked h' = locked h"
      "next_addr h \<le> next_addr h'" "p < next_addr h \<Longrightarrow> a < next_addr h'"
proof -
  let ?bs = "take n (payload h p) @ map (\<lambda>i. junk h (Suc (ticks h) + i)) [length (payload h p)..<n]"
  have len: "length ?bs = n" by simp
  have pre: "take (min n (length (payload h p))) ?bs = take n (payload h p)" by (auto simp: min_def)
  show thesis
  proof (cases "moves h (ticks h)")
    case False
    have "realloc_chunk p n h = Ok (Some p) (h\<lparr>ticks := Suc (ticks h), payload := (payload h)(p := ?bs)\<rparr>)"
      using c mem False by (simp add: realloc_chunk_def put_payload_def run) 
    then show thesis by (rule that) (use c len pre False in auto)
  next
    case True
    let ?a = "next_addr h"
    have "realloc_chunk p n h = Ok (Some ?a) (h\<lparr>ticks := Suc (ticks h), chunks := (chunks h)(p := None, ?a \<mapsto> c),
        handles := (handles h)(p := None, ?a := handles h p), payload := (payload h)(p := [], ?a := ?bs), next_addr := Suc ?a\<rparr>)"
      using c mem True by (simp add: realloc_chunk_def run)
    then show thesis by (rule that) (use len pre True in auto)
  qed
qed

lemma flags_restored: "(TALLOC_MAGIC OR TALLOC_FLAG_FREE) AND NOT TALLOC_FLAG_FREE = TALLOC_MAGIC"
  "TALLOC_MAGIC AND TALLOC_FLAG_EXT_ALLOC = 0"
  by (simp_all add: flag_defs)

lemma talloc_realloc_moves_run:
  assumes r: "rep {} h K R" and c: "chunks h p = Some c" and root: "is_root R p" "R p = []"
    and null: "null_context h \<noteq> Some p" and sz: "0 < sz" "sz < MAX_TALLOC_SIZE" and mem: "\<not> oom h (ticks h)"
  obtains a h' where "talloc_realloc ctxt (Some p) sz name h = Ok (Some a) h'"
    and "a = (if moves h (ticks h) then next_addr h else p)" and "a = p \<or> chunks h a = None"
    and "null_context h' = null_context h"
    and "rep {} h' (move_links p a K) R" and "a \<noteq> p \<Longrightarrow> chunks h' p = None"
    and "\<exists>d. chunks h' a = Some d \<and> tc_size d = sz \<and> tc_name d = name \<and> tc_destructor d = tc_destructor c"
    and "length (payload h' a) = unat sz"
    and "take (min (unat sz) (length (payload h p))) (payload h' a) = take (unat sz) (payload h p)"
    and "\<And>g. g \<noteq> p \<Longrightarrow> g \<noteq> a \<Longrightarrow> payload h' g = payload h g"
proof -
  note w = rep_world [OF r] and flags = rep_flags [OF r c, simplified]
  let ?h1 = "h\<lparr>chunks := (chunks h)(p \<mapsto> c\<lparr>tc_flags := TALLOC_MAGIC OR TALLOC_FLAG_FREE\<rparr>)\<rparr>"
  obtain a g where g: "realloc_chunk p (unat sz) ?h1 = Ok (Some a) g" "a = p \<and> \<not> moves h (ticks h) \<or> a = next_addr h \<and> moves h (ticks h)"
    "chunks g = (chunks h)(p := None, a \<mapsto> c\<lparr>tc_flags := TALLOC_MAGIC OR TALLOC_FLAG_FREE\<rparr>)" "length (payload g a) = unat sz"
    "take (min (unat sz) (length (payload h p))) (payload g a) = take (unat sz) (payload h p)"
    "\<And>q. q \<noteq> p \<Longrightarrow> q \<noteq> a \<Longrightarrow> handles g q = handles h q \<and> payload g q = payload h q"
    "null_context g = null_context h" "tc_lock g = tc_lock h" "locked g = locked h" "next_addr h \<le> next_addr g" "a < next_addr g"
    by (rule realloc_chunk_run [of ?h1 p _ "unat sz"]) (use mem w(4) [OF c] in auto)
  have a: "a = p \<or> chunks h a = None" using g(2) fresh_chunk(1) [OF r] by auto
  let ?C = "(chunks h)(p := None, a \<mapsto> c)"
  let ?h2 = "g\<lparr>chunks := relink a c ?C\<rparr>"
  have ren: "relink a c ?C = (\<lambda>q. map_option (moved_chunk p a) (chunks h (moved p a q)))"
    by (rule relink_moved [OF r c root(1) a])
  have r2: "rep {} ?h2 (move_links p a K) R"
    by (rule rep_moved [OF r c root a null]) (use g w a in \<open>auto simp: ren\<close>)
  obtain d where d: "relink a c ?C a = Some d" "tc_destructor d = tc_destructor c"
    unfolding ren using c by (simp add: moved_chunk_def)
  let ?d = "d\<lparr>tc_size := sz, tc_name := name\<rparr>"
  let ?h3 = "g\<lparr>chunks := (relink a c ?C)(a \<mapsto> ?d)\<rparr>"
  have da: "chunks ?h2 a = Some d" using d by simp
  have "rep {} (?h2\<lparr>chunks := (chunks ?h2)(a \<mapsto> ?d)\<rparr>) (move_links p a K) R"
    by (rule chunk_update [OF r2 da]) (use repD(5) [OF r2 da] in \<open>auto simp: chunk_ok_def\<close>)
  then have "rep {} ?h3 (move_links p a K) R" by simp
  moreover have "talloc_realloc ctxt (Some p) sz name h = Ok (Some a) ?h3"
  proof -
    let ?rest = "pthen (upd_chunk a (\<lambda>k. k\<lparr>tc_size := sz\<rparr>)) (pthen (talloc_set_name_const a name) (pthen unlock (pret (Some a))))"
    have same: "c\<lparr>tc_flags := TALLOC_MAGIC\<rparr> = c" using flags by (cases c) simp
    have magic: "magic_ok c" "magic_ok d" using rep_magic [OF r c] rep_magic [OF r2 da] .
    have "talloc_realloc ctxt (Some p) sz name h =
      pthen (upd_chunk_opt (tc_parent c) (\<lambda>q. q\<lparr>tc_child := Some a\<rparr>))
     (pthen (upd_chunk_opt (tc_child c) (\<lambda>k. k\<lparr>tc_parent := Some a\<rparr>))
     (pthen (upd_chunk_opt (tc_prev c) (\<lambda>k. k\<lparr>tc_next := Some a\<rparr>))
     (pthen (upd_chunk_opt (tc_next c) (\<lambda>k. k\<lparr>tc_prev := Some a\<rparr>)) ?rest)))
       (g\<lparr>chunks := (chunks h)(p := None, a \<mapsto> c\<lparr>tc_flags := TALLOC_MAGIC\<rparr>)\<rparr>)"
      using sz c root(2) rep_refs [OF r c] w(1,2) flags magic(1) g(1,3)
      by (simp add: talloc_realloc_def not_le [symmetric] run flags_restored run_step)
    also have "\<dots> = ?rest ?h2"
      unfolding same by (subst run_relink) (use links_known [OF r c] in auto)
    also have "\<dots> = Ok (Some a) ?h3"
      using d magic(2) w(2) g(9) by (simp add: run talloc_set_name_const_def magic_ok_def)
    finally show ?thesis .
  qed
  moreover have "a \<noteq> p \<Longrightarrow> chunks ?h3 p = None" using a by (auto simp: ren)
  ultimately show thesis using that [of a ?h3] a d g(4,5,6,7) g(2) by auto
qed

lemma talloc_realloc_fails_run:
  assumes r: "rep {} h K R" and c: "chunks h p = Some c" and sz: "0 < sz" "sz < MAX_TALLOC_SIZE"
  shows "R p \<noteq> [] \<Longrightarrow> talloc_realloc ctxt (Some p) sz name h = Ok None h"
    and "R p = [] \<Longrightarrow> oom h (ticks h) \<Longrightarrow>
      talloc_realloc ctxt (Some p) sz name h = Ok None (h\<lparr>ticks := Suc (ticks h)\<rparr>)"
proof -
  have magic: "magic_ok c" by (rule rep_magic [OF r c])
  show "R p \<noteq> [] \<Longrightarrow> talloc_realloc ctxt (Some p) sz name h = Ok None h"
    using sz c rep_refs [OF r c] magic
    by (cases "R p") (simp_all add: talloc_realloc_def not_le [symmetric] run)
  have flags: "tc_flags c = TALLOC_MAGIC" using rep_flags [OF r c] by simp
  then have "c\<lparr>tc_flags := TALLOC_MAGIC\<rparr> = c" by (cases c) simp
  then have same: "(chunks h)(p \<mapsto> c\<lparr>tc_flags := TALLOC_MAGIC\<rparr>) = chunks h" using c by auto
  assume "R p = []" "oom h (ticks h)"
  then have "talloc_realloc ctxt (Some p) sz name h = Ok None
      (h\<lparr>ticks := Suc (ticks h), chunks := (chunks h)(p \<mapsto> c\<lparr>tc_flags := TALLOC_MAGIC\<rparr>)\<rparr>)"
    using sz c rep_refs [OF r c] magic rep_world(1,2) [OF r] flags
    by (simp add: talloc_realloc_def realloc_chunk_def not_le [symmetric] run flags_restored)
  then show "talloc_realloc ctxt (Some p) sz name h = Ok None (h\<lparr>ticks := Suc (ticks h)\<rparr>)"
    unfolding same by simp
qed

end
