(* ===== verification/Talloc_Machine.thy ===== *)
theory Talloc_Machine
  imports Talloc_Realloc
begin

text \<open>
  A program that uses ccan/talloc as a state machine: the calls it makes one after the other, the
  rules of talloc.h it has to keep to, and what each call does to the forest of blocks and to the
  lists of references. The heap represents them after every sequence of calls.
\<close>

section \<open>Single calls\<close>

lemma steal_run:
  assumes "rep {} h K R" and "a \<in> dom (chunks h)"
    and "\<And>p. context_of h ctxt = Some p \<Longrightarrow> p \<in> dom (chunks h) \<and> p \<notin> below K a"
  shows "\<exists>h'. talloc_steal ctxt (Some a) h = Ok (Some a) h' \<and>
    rep {} h' (add_opt (context_of h ctxt) a (drop_kid a K)) R \<and> survives {} h h' \<and> outside h' = outside h"
proof -
  obtain c where c: "chunks h a = Some c" using assms(2) by auto
  obtain C where C: "talloc_steal_nolock ctxt (Some a) h = Ok (Some a) (h\<lparr>chunks := C\<rparr>)"
    "rep {} (h\<lparr>chunks := C\<rparr>) (add_opt (context_of h ctxt) a (drop_kid a K)) R" "keeps (chunks h) C"
    using steal_spec [OF assms(1) c, of ctxt] assms(3) by blast
  then have "talloc_steal ctxt (Some a) h = Ok (Some a) (h\<lparr>chunks := C\<rparr>)"
    using rep_world(1,2) [OF assms(1)] by (simp add: talloc_steal_def run run_step unlock_id)
  then show ?thesis using C survives_keeps [OF C(3)] by auto
qed

lemma free_referenced_run:
  assumes "rep {} h K R" and "R a = g # gs" and "K g = []" and "R g = []" and "g \<notin> below K a"
    and "null_context h \<noteq> Some g"
  shows "\<exists>h'. talloc_free (Some a) h = Ok (-1) h' \<and> rep {} h' (drop_kid g K) (drop_kid g R) \<and>
    drop_kid g R a = gs \<and> survives {g} h h' \<and> outside h' = outside h \<and>
    dom (chunks h') = dom (chunks h) - {g}"
proof -
  note r = assms(1)
  have g: "g \<in> set (R a)" using assms(2) by simp
  obtain c where c: "chunks h a = Some c" using lists_okD(3) [OF repD(2) [OF r] g] by auto
  obtain cg where cg: "chunks h g = Some cg" using lists_okD(2) [OF repD(2) [OF r] g] by auto
  define m where "m = 4 * next_addr h + 3"
  obtain h' where free: "talloc_free_n m (Some g) h = Ok 0 h'"
    and r': "rep {} h' (drop_kid g K) (drop_kid g R)" and s: "survives {g} h h'"
    and gone: "chunks h' g = None" and out: "outside h' = outside h"
    using free_handle [OF r g assms(3,4,6), of m] by (auto simp: m_def)
  have fuel: "free_fuel h = Suc m" by (simp add: free_fuel_def m_def)
  have "talloc_free_nolock (Some a) h = Ok (-1) h'"
    using c rep_magic [OF r c] rep_refs [OF r c] assms(2,5) free
      talloc_is_parent_nolock_run [OF r cg, of a]
    by (simp add: talloc_free_nolock_def run run_step fuel talloc_free_n.simps)
  then have "talloc_free (Some a) h = Ok (-1) h'" by (rule free_locked [OF r _ r'])
  moreover have "drop_kid g R a = gs"
    using lists_okD(1) [OF repD(2) [OF r], of a] assms(2) by (simp add: drop_kid_def)
  moreover have "dom (chunks h') = dom (chunks h) - {g}"
  proof (rule set_eqI)
    fix b
    show "b \<in> dom (chunks h') \<longleftrightarrow> b \<in> dom (chunks h) - {g}"
      using gone survivesD [OF s, of b] by (cases "b = g"; cases "chunks h b") auto
  qed
  ultimately show ?thesis using r' s out by blast
qed

lemma reference_no_memory:
  assumes r: "rep {} h K R" and p: "p \<in> dom (chunks h)"
    and ctxt: "\<And>q. context_of h ctxt = Some q \<Longrightarrow> q \<in> dom (chunks h)" and mem: "oom h (ticks h)"
  shows "talloc_reference ctxt (Some p) h = Ok None (h\<lparr>ticks := Suc (ticks h)\<rparr>)"
proof -
  obtain c where c: "chunks h p = Some c" using p by auto
  have "\<exists>c. chunks h q = Some c \<and> magic_ok c \<and> tc_flags c AND TALLOC_FLAG_EXT_ALLOC = 0"
    if "context_of h ctxt = Some q" for q
    using ctxt [OF that] rep_magic [OF r] rep_flags [OF r] by fastforce
  then have "talloc_named_const_nolock ctxt 24 N_reference h = Ok None (h\<lparr>ticks := Suc (ticks h)\<rparr>)"
    using mem by (intro named_const_fails(2)) (auto simp: MAX_TALLOC_SIZE_def)
  then show ?thesis
    using rep_world(1,2) [OF r] c rep_magic [OF r c]
    by (simp add: talloc_reference_def run run_step unlock_id)
qed

section \<open>The calls and their rules\<close>

datatype api_call =
    Alloc "addr option" u64 tname
  | Steal "addr option" addr
  | Reference "addr option" addr
  | Unlink "addr option" addr
  | Free addr
  | Set_destructor addr nat
  | Set_name addr tname
  | Realloc addr u64 tname
  | Enable_null_tracking

text \<open>One call, with its result dropped.\<close>

fun issue :: "api_call \<Rightarrow> ('w tstate, unit) prog" where
  "issue (Alloc ctxt sz name) = pthen (talloc_named_const ctxt sz name) (pret ())"
| "issue (Steal ctxt a) = pthen (talloc_steal ctxt (Some a)) (pret ())"
| "issue (Reference ctxt a) = pthen (talloc_reference ctxt (Some a)) (pret ())"
| "issue (Unlink ctxt a) = pthen (talloc_unlink ctxt (Some a)) (pret ())"
| "issue (Free a) = pthen (talloc_free (Some a)) (pret ())"
| "issue (Set_destructor a f) = talloc_set_destructor a (D_user f)"
| "issue (Set_name a name) = talloc_set_name_const a name"
| "issue (Realloc a sz name) = pthen (talloc_realloc None (Some a) sz name) (pret ())"
| "issue Enable_null_tracking = talloc_enable_null_tracking"

text \<open>Blocks the program knows: allocated, and not the handle of a reference.\<close>

definition known :: "'w tstate \<Rightarrow> links \<Rightarrow> addr \<Rightarrow> bool" where
  "known h R a \<longleftrightarrow> a \<in> dom (chunks h) \<and> is_root R a"

definition known_context :: "'w tstate \<Rightarrow> links \<Rightarrow> addr option \<Rightarrow> bool" where
  "known_context h R ctxt \<longleftrightarrow> (\<forall>p. context_of h ctxt = Some p \<longrightarrow> known h R p)"

text \<open>
  \<open>allowed c h K R K' R'\<close>: with the forest \<open>K\<close> and the references \<open>R\<close> the call \<open>c\<close> keeps to the rules,
  and it has to lead to the forest \<open>K'\<close> and the references \<open>R'\<close>. A block is freed when none below it is
  referred to and no destructor refuses; a destructor that refuses keeps everything; a block that
  is referred to loses its newest reference.
\<close>

inductive allowed :: "api_call \<Rightarrow> 'w tstate \<Rightarrow> links \<Rightarrow> links \<Rightarrow> links \<Rightarrow> links \<Rightarrow> bool" where
  may_alloc: "known_context h R ctxt \<Longrightarrow> sz < MAX_TALLOC_SIZE \<Longrightarrow> \<not> oom h (ticks h) \<Longrightarrow>
    allowed (Alloc ctxt sz name) h K R (add_opt (context_of h ctxt) (next_addr h) K) R"
| may_alloc_fails: "known_context h R ctxt \<Longrightarrow> MAX_TALLOC_SIZE \<le> sz \<or> oom h (ticks h) \<Longrightarrow>
    allowed (Alloc ctxt sz name) h K R K R"
| may_steal: "known h R a \<Longrightarrow> known_context h R ctxt \<Longrightarrow> (\<And>p. context_of h ctxt = Some p \<Longrightarrow> p \<notin> below K a) \<Longrightarrow>
    allowed (Steal ctxt a) h K R (add_opt (context_of h ctxt) a (drop_kid a K)) R"
| may_reference: "known h R a \<Longrightarrow> known_context h R ctxt \<Longrightarrow> \<not> oom h (ticks h) \<Longrightarrow>
    allowed (Reference ctxt a) h K R (add_opt (context_of h ctxt) (next_addr h) K) (add_kid a (next_addr h) R)"
| may_reference_fails: "known h R a \<Longrightarrow> known_context h R ctxt \<Longrightarrow> oom h (ticks h) \<Longrightarrow>
    allowed (Reference ctxt a) h K R K R"
| may_unlink: "known h R a \<Longrightarrow> R a = pre @ g # post \<Longrightarrow> parent_is K g (context_of h ctxt) \<Longrightarrow>
    (\<And>x. x \<in> set pre \<Longrightarrow> \<not> parent_is K x (context_of h ctxt)) \<Longrightarrow>
    allowed (Unlink ctxt a) h K R (drop_kid g K) (drop_kid g R)"
| may_unlink_fails: "known h R a \<Longrightarrow> known_context h R ctxt \<Longrightarrow> \<not> parent_is K a (context_of h ctxt) \<Longrightarrow>
    (\<And>x. x \<in> set (R a) \<Longrightarrow> \<not> parent_is K x (context_of h ctxt)) \<Longrightarrow>
    allowed (Unlink ctxt a) h K R K R"
| may_free: "known h R a \<Longrightarrow> (\<And>b. b \<in> below K a \<Longrightarrow> R b = [] \<and> null_context h \<noteq> Some b \<and> agrees h b) \<Longrightarrow>
    allowed (Free a) h K R (prune (below K a) K) (prune (below K a) R)"
| may_free_refused: "known h R a \<Longrightarrow> R a = [] \<Longrightarrow> chunks h a = Some c \<Longrightarrow> tc_destructor c = D_user f \<Longrightarrow>
    fst (user_destructor h f a (outside h)) = -1 \<Longrightarrow> allowed (Free a) h K R K R"
| may_free_referenced: "known h R a \<Longrightarrow> R a = g # gs \<Longrightarrow> g \<notin> below K a \<Longrightarrow>
    allowed (Free a) h K R (drop_kid g K) (drop_kid g R)"
| may_set_destructor: "known h R a \<Longrightarrow> allowed (Set_destructor a f) h K R K R"
| may_set_name: "known h R a \<Longrightarrow> allowed (Set_name a name) h K R K R"
| may_realloc: "known h R a \<Longrightarrow> R a = [] \<Longrightarrow> null_context h \<noteq> Some a \<Longrightarrow> 0 < sz \<Longrightarrow> sz < MAX_TALLOC_SIZE \<Longrightarrow>
    \<not> oom h (ticks h) \<Longrightarrow> b = (if moves h (ticks h) then next_addr h else a) \<Longrightarrow>
    allowed (Realloc a sz name) h K R (move_links a b K) R"
| may_realloc_fails: "known h R a \<Longrightarrow> 0 < sz \<Longrightarrow> MAX_TALLOC_SIZE \<le> sz \<or> R a \<noteq> [] \<or> oom h (ticks h) \<Longrightarrow>
    allowed (Realloc a sz name) h K R K R"
| may_enable: "allowed Enable_null_tracking h K R K R"

text \<open>
  The invariant: the heap represents the forest and the references, nothing lies below a handle
  and nothing refers to one.
\<close>

definition tidy :: "'w tstate \<Rightarrow> links \<Rightarrow> links \<Rightarrow> bool" where
  "tidy h K R \<longleftrightarrow> rep {} h K R \<and>
     (\<forall>p. \<forall>g \<in> set (R p). K g = [] \<and> R g = [] \<and> null_context h \<noteq> Some g)"

lemma tidyD:
  assumes "tidy h K R"
  shows "rep {} h K R" and "g \<in> set (R p) \<Longrightarrow> K g = []" and "g \<in> set (R p) \<Longrightarrow> R g = []"
    and "g \<in> set (R p) \<Longrightarrow> null_context h \<noteq> Some g"
  using assms by (auto simp: tidy_def)

lemma known_handle: "known h R a \<Longrightarrow> g \<in> set (R p) \<Longrightarrow> g \<noteq> a"
  by (auto simp: known_def is_root_def)

section \<open>Every allowed call succeeds and keeps the invariant\<close>

lemma tidyI:
  assumes "rep {} h' K' R'" and "null_context h' = null_context h"
    and "\<And>p g. g \<in> set (R' p) \<Longrightarrow> K' g = [] \<and> R' g = [] \<and> null_context h \<noteq> Some g"
  shows "tidy h' K' R'"
  using assms by (simp add: tidy_def)

lemma context_in_dom:
  "known_context h R ctxt \<Longrightarrow> context_of h ctxt = Some p \<Longrightarrow> p \<in> dom (chunks h) \<and> is_root R p"
  by (simp add: known_context_def known_def)

lemma add_opt_handle:
  "known_context h R ctxt \<Longrightarrow> g \<in> set (R p) \<Longrightarrow> add_opt (context_of h ctxt) a K g = K g"
  using context_in_dom [of h R ctxt] by (cases "context_of h ctxt") (auto simp: add_kid_def is_root_def)

lemma alloc_ok:
  assumes t: "tidy h K R" and ctxt: "known_context h R ctxt"
  shows "sz < MAX_TALLOC_SIZE \<and> \<not> oom h (ticks h) \<Longrightarrow> \<exists>h'. issue (Alloc ctxt sz name) h = Ok () h' \<and>
      tidy h' (add_opt (context_of h ctxt) (next_addr h) K) R"
    and "MAX_TALLOC_SIZE \<le> sz \<or> oom h (ticks h) \<Longrightarrow> \<exists>h'. issue (Alloc ctxt sz name) h = Ok () h' \<and> tidy h' K R"
proof -
  note r = tidyD(1) [OF t]
  show "\<exists>h'. issue (Alloc ctxt sz name) h = Ok () h' \<and> tidy h' (add_opt (context_of h ctxt) (next_addr h) K) R"
    if "sz < MAX_TALLOC_SIZE \<and> \<not> oom h (ticks h)"
  proof (rule alloc_cases [OF r, of ctxt sz name])
    fix C
    assume exec: "talloc_named_const ctxt sz name h = Ok (Some (next_addr h)) (with_fresh (fresh name sz) h\<lparr>chunks := C\<rparr>)"
      and r': "rep {} (with_fresh (fresh name sz) h\<lparr>chunks := C\<rparr>) (add_opt (context_of h ctxt) (next_addr h) K) R"
    have "tidy (with_fresh (fresh name sz) h\<lparr>chunks := C\<rparr>) (add_opt (context_of h ctxt) (next_addr h) K) R"
      using tidyD(2-4) [OF t] add_opt_handle [OF ctxt]
      by (intro tidyI [OF r', of h]) (auto simp: with_fresh_def Let_def)
    then show ?thesis using exec by (simp add: run run_step)
  qed (use that context_in_dom [OF ctxt] in auto)
  show "\<exists>h'. issue (Alloc ctxt sz name) h = Ok () h' \<and> tidy h' K R"
    if "MAX_TALLOC_SIZE \<le> sz \<or> oom h (ticks h)"
    by (rule alloc_cases [OF r, of ctxt sz name])
      (use that t context_in_dom [OF ctxt] in \<open>auto simp: run run_step tidy_def rep_ticks\<close>)
qed

lemma steal_ok:
  assumes t: "tidy h K R" and a: "known h R a" and ctxt: "known_context h R ctxt"
    and below: "\<And>p. context_of h ctxt = Some p \<Longrightarrow> p \<notin> below K a"
  shows "\<exists>h'. issue (Steal ctxt a) h = Ok () h' \<and> tidy h' (add_opt (context_of h ctxt) a (drop_kid a K)) R"
proof -
  obtain h' where exec: "talloc_steal ctxt (Some a) h = Ok (Some a) h'"
    and r': "rep {} h' (add_opt (context_of h ctxt) a (drop_kid a K)) R" and s: "survives {} h h'"
    using steal_run [OF tidyD(1) [OF t], of a ctxt] a below context_in_dom [OF ctxt] by (auto simp: known_def)
  have "tidy h' (add_opt (context_of h ctxt) a (drop_kid a K)) R"
    using tidyD(2-4) [OF t] add_opt_handle [OF ctxt] s
    by (intro tidyI [OF r', of h]) (auto simp: survives_def drop_kid_def)
  then show ?thesis using exec by (auto simp: run_step run)
qed

lemma reference_ok:
  assumes t: "tidy h K R" and a: "known h R a" and ctxt: "known_context h R ctxt" and mem: "\<not> oom h (ticks h)"
  shows "\<exists>h'. issue (Reference ctxt a) h = Ok () h' \<and>
    tidy h' (add_opt (context_of h ctxt) (next_addr h) K) (add_kid a (next_addr h) R)"
proof -
  note r = tidyD(1) [OF t]
  let ?g = "next_addr h" and ?K = "add_opt (context_of h ctxt) (next_addr h) K"
  note f = fresh_chunk [OF r]
  obtain h' where exec: "talloc_reference ctxt (Some a) h = Ok (Some a) h'"
    and r': "rep {} h' ?K (add_kid a ?g R)" and gr: "grows h h'"
    using reference_spec [OF r, of a ctxt] a mem context_in_dom [OF ctxt] by (auto simp: known_def)
  have ag: "a \<noteq> ?g" using a f(1) by (auto simp: known_def)
  have ng: "?K ?g = []"
    using context_in_dom [OF ctxt] f by (cases "context_of h ctxt") (auto simp: add_kid_def)
  have "tidy h' ?K (add_kid a ?g R)"
  proof (rule tidyI [OF r', of h])
    show "null_context h' = null_context h" using gr by (simp add: grows_def)
    fix p g assume "g \<in> set (add_kid a ?g R p)"
    then consider "g = ?g" | "g \<in> set (R p)" by (auto simp: kid_in_add)
    then show "?K g = [] \<and> add_kid a ?g R g = [] \<and> null_context h \<noteq> Some g"
    proof cases
      case 1
      then show ?thesis using ng f ag rep_world(3) [OF r] by (auto simp: add_kid_def)
    next
      case 2
      then have "g \<noteq> a" by (rule known_handle [OF a])
      then show ?thesis using 2 tidyD(2-4) [OF t 2] add_opt_handle [OF ctxt 2] by (simp add: add_kid_def)
    qed
  qed
  then show ?thesis using exec by (auto simp: run_step run)
qed

text \<open>What calls that remove a handle or a subtree have in common.\<close>

lemma tidy_drop:
  assumes t: "tidy h K R" and r': "rep {} h' (drop_kid g K) (drop_kid g R)" and s: "survives {g} h h'"
  shows "tidy h' (drop_kid g K) (drop_kid g R)"
  using s by (intro tidyI [OF r', of h]) (auto simp: drop_kid_def survives_def dest: tidyD(2-4) [OF t])

lemma unlink_ok:
  assumes t: "tidy h K R" and a: "known h R a" and R: "R a = pre @ g # post"
    and par: "parent_is K g (context_of h ctxt)"
    and first: "\<And>x. x \<in> set pre \<Longrightarrow> \<not> parent_is K x (context_of h ctxt)"
  shows "\<exists>h'. issue (Unlink ctxt a) h = Ok () h' \<and> tidy h' (drop_kid g K) (drop_kid g R)"
proof -
  have g: "g \<in> set (R a)" using R by simp
  have ad: "a \<in> dom (chunks h)" and fst: "\<forall>x \<in> set pre. \<not> parent_is K x (context_of h ctxt)"
    using a first by (simp_all add: known_def)
  obtain h' where "talloc_unlink ctxt (Some a) h = Ok 0 h'" "rep {} h' (drop_kid g K) (drop_kid g R)" "survives {g} h h'"
    using unlink_run [OF tidyD(1) [OF t] ad R fst tidyD(2,3) [OF t g] par tidyD(4) [OF t g]] by blast
  then show ?thesis using tidy_drop [OF t] by (auto simp: run_step run)
qed

lemma free_ok:
  assumes t: "tidy h K R" and a: "known h R a"
    and ok: "\<And>b. b \<in> below K a \<Longrightarrow> R b = [] \<and> null_context h \<noteq> Some b \<and> agrees h b"
  shows "\<exists>h'. issue (Free a) h = Ok () h' \<and> tidy h' (prune (below K a) K) (prune (below K a) R)"
proof -
  obtain h' where exec: "talloc_free (Some a) h = Ok 0 h'"
    and r': "rep {} h' (prune (below K a) K) (prune (below K a) R)" and s: "survives (below K a) h h'"
    using free_subtree_run [OF tidyD(1) [OF t], of a] a ok agrees_all_agree [of _ h] by (fastforce simp: known_def)
  have "tidy h' (prune (below K a) K) (prune (below K a) R)"
    using s
    by (intro tidyI [OF r', of h]) (auto simp: prune_def survives_def dest: tidyD(2-4) [OF t] split: if_splits)
  then show ?thesis using exec by (auto simp: run_step run)
qed

lemma update_ok:
  assumes t: "tidy h K R" and a: "known h R a"
  shows "\<exists>h'. issue (Set_destructor a f) h = Ok () h' \<and> tidy h' K R"
    and "\<exists>h'. issue (Set_name a name) h = Ok () h' \<and> tidy h' K R"
proof -
  note r = tidyD(1) [OF t]
  obtain c where c: "chunks h a = Some c" using a by (auto simp: known_def)
  have ok: "chunk_ok {} K R a c" and root: "is_root R a" using repD(5) [OF r c] a by (simp_all add: known_def)
  have "rep {} (h\<lparr>chunks := (chunks h)(a \<mapsto> c\<lparr>tc_destructor := D_user f\<rparr>)\<rparr>) K R"
    by (rule chunk_update [OF r c]) (simp_all add: root)
  then show "\<exists>h'. issue (Set_destructor a f) h = Ok () h' \<and> tidy h' K R"
    using tidyD(2-4) [OF t] c rep_magic [OF r c] by (auto simp: talloc_set_destructor_def run tidy_def)
  have "rep {} (h\<lparr>chunks := (chunks h)(a \<mapsto> c\<lparr>tc_name := name\<rparr>)\<rparr>) K R"
    by (rule chunk_update [OF r c]) (use ok root in \<open>auto simp: chunk_ok_def\<close>)
  then show "\<exists>h'. issue (Set_name a name) h = Ok () h' \<and> tidy h' K R"
    using tidyD(2-4) [OF t] c rep_magic [OF r c] by (auto simp: talloc_set_name_const_def run tidy_def)
qed

text \<open>A handle stays where it is, and what it is, when another block moves.\<close>

lemma realloc_ok:
  assumes t: "tidy h K R" and a: "known h R a" and sz: "0 < sz"
  shows "R a = [] \<Longrightarrow> null_context h \<noteq> Some a \<Longrightarrow> sz < MAX_TALLOC_SIZE \<Longrightarrow> \<not> oom h (ticks h) \<Longrightarrow>
      \<exists>h'. issue (Realloc a sz name) h = Ok () h' \<and> tidy h' (move_links a (if moves h (ticks h) then next_addr h else a) K) R"
    and "MAX_TALLOC_SIZE \<le> sz \<or> R a \<noteq> [] \<or> oom h (ticks h) \<Longrightarrow> \<exists>h'. issue (Realloc a sz name) h = Ok () h' \<and> tidy h' K R"
proof -
  note r = tidyD(1) [OF t]
  obtain c where c: "chunks h a = Some c" using a by (auto simp: known_def)
  have root: "is_root R a" using a by (simp add: known_def)
  show "\<exists>h'. issue (Realloc a sz name) h = Ok () h' \<and> tidy h' (move_links a (if moves h (ticks h) then next_addr h else a) K) R"
    if Ra: "R a = []" and null: "null_context h \<noteq> Some a" and ok: "sz < MAX_TALLOC_SIZE" "\<not> oom h (ticks h)"
  proof -
    let ?b = "if moves h (ticks h) then next_addr h else a"
    obtain h' where h': "talloc_realloc None (Some a) sz name h = Ok (Some ?b) h'" "null_context h' = null_context h"
      "rep {} h' (move_links a ?b K) R" "?b = a \<or> chunks h ?b = None"
      by (rule talloc_realloc_moves_run [OF r c root Ra null sz ok, of None name]) auto
    have "move_links a ?b K g = []" if "g \<in> set (R p)" for p g
    proof -
      have "g \<in> dom (chunks h)" using lists_okD(2) [OF repD(2) [OF r], of g p] that by blast
      then have "moved a ?b g = g" using known_handle [OF a that] h'(4) by (auto simp: moved_def)
      then show ?thesis using tidyD(2) [OF t that] by (simp add: move_links_def)
    qed
    then have "tidy h' (move_links a ?b K) R" using tidyD(3,4) [OF t] by (intro tidyI [OF h'(3,2)]) auto
    then show ?thesis using h'(1) by (simp add: run_step run)
  qed
  show "\<exists>h'. issue (Realloc a sz name) h = Ok () h' \<and> tidy h' K R"
    if why: "MAX_TALLOC_SIZE \<le> sz \<or> R a \<noteq> [] \<or> oom h (ticks h)"
  proof -
    consider "MAX_TALLOC_SIZE \<le> sz" | "sz < MAX_TALLOC_SIZE" "R a \<noteq> []" | "sz < MAX_TALLOC_SIZE" "R a = []" "oom h (ticks h)"
      using why by fastforce
    then obtain n where "talloc_realloc None (Some a) sz name h = Ok None (h\<lparr>ticks := n\<rparr>)"
    proof cases
      case 1
      moreover have "sz \<noteq> 0" using sz by auto
      ultimately show thesis by (intro that [of "ticks h"]) (simp add: talloc_realloc_def run)
    next
      case 2
      then show thesis using talloc_realloc_fails_run(1) [OF r c sz] by (intro that [of "ticks h"]) simp
    next
      case 3
      then show thesis using talloc_realloc_fails_run(2) [OF r c sz] by (intro that [of "Suc (ticks h)"]) simp
    qed
    then show ?thesis using t by (simp add: run_step run tidy_def rep_ticks)
  qed
qed

lemma enable_ok:
  assumes t: "tidy h K R"
  shows "\<exists>h'. issue Enable_null_tracking h = Ok () h' \<and> tidy h' K R"
proof (cases "null_context h")
  case (Some n)
  then show ?thesis using t by (simp add: talloc_enable_null_tracking_def run)
next
  case None
  note r = tidyD(1) [OF t]
  have ctxt: "context_of h None = None" by (simp add: context_of_def None)
  let ?a = "next_addr h"
  show ?thesis
  proof (cases "oom h (ticks h)")
    case True
    then have "talloc_named_const_nolock None 0 (N_const ''null_context'') h = Ok None (h\<lparr>ticks := Suc (ticks h)\<rparr>)"
      by (intro named_const_fails(2)) (simp_all add: MAX_TALLOC_SIZE_def ctxt)
    then show ?thesis
      using None t by (simp add: talloc_enable_null_tracking_def run run_step tidy_def rep_def world_ok_def)
  next
    case False
    obtain C where C: "talloc_named_const_nolock None 0 (N_const ''null_context'') h =
        Ok (Some ?a) (with_fresh (fresh (N_const ''null_context'') 0) h\<lparr>chunks := C\<rparr>)"
      "rep {} (with_fresh (fresh (N_const ''null_context'') 0) h\<lparr>chunks := C\<rparr>) (add_opt (context_of h None) ?a K) R"
      "keeps ((chunks h)(?a \<mapsto> fresh (N_const ''null_context'') 0)) C"
      by (rule named_const_spec [OF r _ _ _ False, of None 0 "N_const ''null_context''"]) (auto simp: ctxt MAX_TALLOC_SIZE_def)
    let ?h = "with_fresh (fresh (N_const ''null_context'') 0) h\<lparr>chunks := C\<rparr>"
    have "C ?a \<noteq> None" using keeps_None [OF C(3), of ?a] by simp
    then have "rep {} (?h\<lparr>null_context := Some ?a\<rparr>) K R" using C(2) by (simp add: ctxt rep_def world_ok_def)
    moreover have "g \<noteq> ?a" if "g \<in> set (R p)" for g p
      using lists_okD(2) [OF repD(2) [OF r], of g p] that fresh_chunk(1) [OF r] by auto
    ultimately have "tidy (?h\<lparr>null_context := Some ?a\<rparr>) K R" using tidyD(2,3) [OF t] by (auto simp: tidy_def)
    then show ?thesis using None C(1) by (simp add: talloc_enable_null_tracking_def run run_step)
  qed
qed

theorem allowed_ok:
  assumes "allowed c h K R K' R'" and t: "tidy h K R"
  shows "\<exists>h'. issue c h = Ok () h' \<and> tidy h' K' R'"
  using assms(1)
proof cases
  case (may_alloc ctxt sz name)
  then show ?thesis using alloc_ok(1) [OF t] by simp
next
  case (may_alloc_fails ctxt sz name)
  then show ?thesis using alloc_ok(2) [OF t] by simp
next
  case (may_steal a ctxt)
  then show ?thesis using steal_ok [OF t] by simp
next
  case (may_reference a ctxt)
  then show ?thesis using reference_ok [OF t] by simp
next
  case (may_reference_fails a ctxt)
  then have "talloc_reference ctxt (Some a) h = Ok None (h\<lparr>ticks := Suc (ticks h)\<rparr>)"
    using reference_no_memory [OF tidyD(1) [OF t]] context_in_dom by (fastforce simp: known_def)
  then show ?thesis using may_reference_fails t by (simp add: run run_step tidy_def rep_ticks)
next
  case (may_unlink a pre g post ctxt)
  then show ?thesis using unlink_ok [OF t] by simp
next
  case (may_unlink_fails a ctxt)
  then have "talloc_unlink ctxt (Some a) h = Ok (-1) h"
    by (intro unlink_stranger [OF tidyD(1) [OF t]]) (auto simp: known_def dest: context_in_dom)
  then show ?thesis using may_unlink_fails t by (simp add: run run_step)
next
  case (may_free a)
  then show ?thesis using free_ok [OF t] by simp
next
  case (may_free_refused a d f)
  obtain w where w: "user_destructor h f a (outside h) = (-1, w)"
    using may_free_refused(8) by (cases "user_destructor h f a (outside h)") auto
  have "talloc_free (Some a) h = Ok (-1) (h\<lparr>outside := w\<rparr>)"
    by (rule Talloc_Free.free_refused [OF tidyD(1) [OF t] may_free_refused(6,7,5) w])
  then show ?thesis using may_free_refused t by (simp add: run run_step tidy_def rep_def world_ok_def)
next
  case (may_free_referenced a g gs)
  have g: "g \<in> set (R a)" using may_free_referenced by simp
  obtain h' where "talloc_free (Some a) h = Ok (-1) h'" "rep {} h' (drop_kid g K) (drop_kid g R)" "survives {g} h h'"
    using free_referenced_run [OF tidyD(1) [OF t] may_free_referenced(5) tidyD(2,3) [OF t g] may_free_referenced(6) tidyD(4) [OF t g]]
    by blast
  then show ?thesis using may_free_referenced tidy_drop [OF t] by (auto simp: run run_step)
next
  case (may_set_destructor a f)
  then show ?thesis using update_ok(1) [OF t] by simp
next
  case (may_set_name a name)
  then show ?thesis using update_ok(2) [OF t] by simp
next
  case (may_realloc a sz b name)
  then show ?thesis using realloc_ok(1) [OF t] by simp
next
  case (may_realloc_fails a sz name)
  then show ?thesis using realloc_ok(2) [OF t] by simp
next
  case may_enable
  then show ?thesis using enable_ok [OF t] by simp
qed

section \<open>Sequences of calls\<close>

text \<open>A heap before the first call.\<close>

definition unused :: "'w tstate \<Rightarrow> bool" where
  "unused h \<longleftrightarrow> chunks h = Map.empty \<and> null_context h = None \<and> \<not> tc_lock h \<and> \<not> locked h"

inductive reached :: "'w tstate \<Rightarrow> links \<Rightarrow> links \<Rightarrow> bool" where
  at_start: "unused h \<Longrightarrow> reached h (\<lambda>_. []) (\<lambda>_. [])"
| after_call: "reached h K R \<Longrightarrow> allowed c h K R K' R' \<Longrightarrow> issue c h = Ok () h' \<Longrightarrow> reached h' K' R'"

lemma unused_tidy: "unused h \<Longrightarrow> tidy h (\<lambda>_. []) (\<lambda>_. [])"
  by (simp add: unused_def tidy_def rep_def world_ok_def forest_def lists_ok_def kid_def acyclic_def)

lemma reached_tidy: "reached h K R \<Longrightarrow> tidy h K R"
proof (induction rule: reached.induct)
  case (at_start h)
  then show ?case by (rule unused_tidy)
next
  case (after_call h K R c K' R' h')
  then show ?case using allowed_ok [OF after_call.hyps(2) after_call.IH] by auto
qed

end
