(* ===== verification/Talloc_Strings.thy ===== *)
theory Talloc_Strings
  imports Talloc_Machine
begin

text \<open>
  Strings in blocks of a pool: what a reader sees behind a pointer after \<open>talloc_strdup\<close>,
  \<open>talloc_append_string\<close> and \<open>talloc_vasprintf_append\<close>. A block may be larger than its string.
\<close>

section \<open>Strings as bytes\<close>

definition no_NUL :: "string \<Rightarrow> bool" where
  "no_NUL s \<longleftrightarrow> CHR 0x00 \<notin> set s"

lemma byte_of_char [simp]: "unat (of_char c :: u8) = of_char c" "char_of (unat (of_char c :: u8)) = c"
proof -
  have "(of_char c :: nat) < 256" by simp
  then have "unat (of_nat (of_char c) :: u8) = of_char c" by (subst unat_of_nat) simp
  then show "unat (of_char c :: u8) = of_char c" by (simp only: of_nat_of_char)
  then show "char_of (unat (of_char c :: u8)) = c" by simp
qed

lemma byte_of_char_0 [simp]: "(of_char c :: u8) = 0 \<longleftrightarrow> c = CHR 0x00"
proof
  assume "(of_char c :: u8) = 0"
  then have "(of_char c :: nat) = 0" using byte_of_char(1) [of c] by simp
  moreover have "char_of (0 :: nat) = CHR 0x00" by (simp add: char_of_def)
  ultimately show "c = CHR 0x00" using char_of_char [of c, where ?'a = nat] by argo
qed simp

lemma length_bytes [simp]: "length (bytes_of_string s) = length s"
  by (simp add: bytes_of_string_def)

lemma bytes_no_NUL: "no_NUL s \<Longrightarrow> 0 \<notin> set (bytes_of_string s)"
  by (auto simp: no_NUL_def bytes_of_string_def)

lemma string_of_bytes_prefix:
  "0 \<notin> set xs \<Longrightarrow> string_of_bytes (xs @ ys) = map (\<lambda>b. char_of (unat b)) xs @ string_of_bytes ys"
  by (induction xs) (auto simp: string_of_bytes_def)

lemma string_of_bytes_string: "no_NUL s \<Longrightarrow> string_of_bytes (bytes_of_string s @ ys) = s @ string_of_bytes ys"
  by (simp add: string_of_bytes_prefix bytes_no_NUL) (simp add: bytes_of_string_def comp_def)

lemma string_of_bytes_NUL [simp]: "string_of_bytes (0 # ys) = []"
  by (simp add: string_of_bytes_def)

lemma string_of_bytes_stops: "0 \<in> set xs \<Longrightarrow> string_of_bytes (xs @ ys) = string_of_bytes xs"
  by (induction xs) (auto simp: string_of_bytes_def)

text \<open>A string that can be read: its bytes, a NUL, and whatever else the block has.\<close>

lemma read_cstr_payload:
  assumes "read_cstr p h = Ok s h'"
  obtains xs ys where "payload h p = xs @ 0 # ys" "0 \<notin> set xs" "s = map (\<lambda>b. char_of (unat b)) xs" "h' = h"
proof -
  have z: "0 \<in> set (payload h p)" "s = string_of_bytes (payload h p)" "h' = h"
    using assms by (auto simp: read_cstr_def prog_defs split: if_splits)
  obtain xs ys where "payload h p = xs @ 0 # ys" "0 \<notin> set xs" using split_list_first [OF z(1)] by blast
  then show thesis using that z by (simp add: string_of_bytes_prefix)
qed

lemma read_cstr_eq: "0 \<in> set (payload h p) \<Longrightarrow> read_cstr p h = Ok (string_of_bytes (payload h p)) h"
  by (simp add: read_cstr_def prog_defs)

section \<open>Growing a block and writing at its end\<close>

text \<open>The block of \<open>p\<close> has grown to \<open>bs\<close>, at the address \<open>a\<close>, with its own contents as its name.\<close>

definition grown :: "'w tstate \<Rightarrow> addr \<Rightarrow> links \<Rightarrow> links \<Rightarrow> 'w tstate \<Rightarrow> addr \<Rightarrow> u8 list \<Rightarrow> bool" where
  "grown h p K R h' a bs \<longleftrightarrow> (a = p \<or> chunks h a = None \<and> chunks h' p = None) \<and> rep {} h' (move_links p a K) R \<and>
     payload h' a = bs \<and> (\<exists>d. chunks h' a = Some d \<and> unat (tc_size d) = length bs \<and> tc_name d = N_chunk a) \<and>
     (\<forall>b. b = p \<or> b = a \<or> payload h' b = payload h b)"

lemma write_bytes_run:
  "off + length bs \<le> length (payload h a) \<Longrightarrow> pbind (write_bytes a off bs) f h =
     f () (h\<lparr>payload := (payload h)(a := take off (payload h a) @ bs @ drop (off + length bs) (payload h a))\<rparr>)"
  by (simp add: write_bytes_def put_payload_def run)

lemma append_run:
  assumes r: "rep {} h K R" and c: "chunks h p = Some c" and root: "is_root R p" "R p = []"
    and null: "null_context h \<noteq> Some p" and mem: "\<not> oom h (ticks h)"
    and off: "off \<le> length (payload h p)" and n: "n = off + length bs" "0 < n" "n < unat MAX_TALLOC_SIZE"
  obtains a h' where "pbind (talloc_realloc_array None (Some p) 1 (of_nat n) (N_const ''char''))
      (\<lambda>ret. case ret of None \<Rightarrow> pret None
        | Some a \<Rightarrow> pthen (write_bytes a off bs) (pthen (talloc_set_name_const a (N_chunk a)) (pret ret))) h = Ok (Some a) h'"
    and "grown h p K R h' a (take off (payload h p) @ bs)"
proof -
  let ?k = "\<lambda>ret. case ret of None \<Rightarrow> pret None
        | Some a \<Rightarrow> pthen (write_bytes a off bs) (pthen (talloc_set_name_const a (N_chunk a)) (pret ret))"
  let ?sz = "ucast (of_nat n :: u32) :: u64"
  have small: "n < 2 ^ 28" using n(3) by (simp add: MAX_TALLOC_SIZE_def)
  then have u: "unat ?sz = n" by (simp add: unsigned_ucast_eq unsigned_of_nat take_bit_nat_eq_self)
  have sz: "0 < ?sz" "?sz < MAX_TALLOC_SIZE" using n(2,3) u by (simp_all add: word_less_nat_alt)
  obtain a g d where g: "talloc_realloc None (Some p) ?sz (N_const ''char'') h = Ok (Some a) g"
    "a = p \<or> chunks h a = None" "rep {} g (move_links p a K) R" "a \<noteq> p \<Longrightarrow> chunks g p = None"
    "chunks g a = Some d" "tc_size d = ?sz" "length (payload g a) = n"
    "take (min n (length (payload h p))) (payload g a) = take n (payload h p)"
    "\<And>q. q \<noteq> p \<Longrightarrow> q \<noteq> a \<Longrightarrow> payload g q = payload h q"
    by (rule talloc_realloc_moves_run [OF r c root null sz mem, of None "N_const ''char''"]) (use u in auto)
  let ?bs = "take off (payload h p) @ bs"
  let ?h' = "g\<lparr>payload := (payload g)(a := ?bs), chunks := (chunks g)(a \<mapsto> d\<lparr>tc_name := N_chunk a\<rparr>)\<rparr>"
  have "take off (payload g a) = take off (take (min n (length (payload h p))) (payload g a))"
    using off n by (simp add: min_def)
  also have "\<dots> = take off (payload h p)" unfolding g(8) using n by (simp add: min_def)
  finally have pre: "take off (payload g a) = take off (payload h p)" .
  have "rep {} (g\<lparr>chunks := (chunks g)(a \<mapsto> d\<lparr>tc_name := N_chunk a\<rparr>)\<rparr>) (move_links p a K) R"
    by (rule chunk_update [OF g(3,5)]) (use repD(5) [OF g(3,5)] in \<open>auto simp: chunk_ok_def\<close>)
  then have "rep {} ?h' (move_links p a K) R" by (simp add: rep_def world_ok_def)
  then have "grown h p K R ?h' a ?bs"
    using g u n off by (auto simp: grown_def)
  moreover have "pbind (talloc_realloc_array None (Some p) 1 (of_nat n) (N_const ''char'')) ?k h = Ok (Some a) ?h'"
  proof -
    have "talloc_realloc_array None (Some p) 1 (of_nat n) (N_const ''char'') h = Ok (Some a) g"
      using sz(2) g(1) by (simp add: talloc_realloc_array_def array_too_big_def not_le [symmetric] run)
    then have "pbind (talloc_realloc_array None (Some p) 1 (of_nat n) (N_const ''char'')) ?k h =
        pthen (write_bytes a off bs) (pthen (talloc_set_name_const a (N_chunk a)) (pret (Some a))) g"
      by (simp add: prog_defs)
    also have "\<dots> = pthen (talloc_set_name_const a (N_chunk a)) (pret (Some a)) (g\<lparr>payload := (payload g)(a := ?bs)\<rparr>)"
      using g(7) n(1) by (simp add: write_bytes_run pre)
    also have "\<dots> = Ok (Some a) ?h'"
      using g(5) rep_magic [OF g(3,5)] by (simp add: talloc_set_name_const_def run)
    finally show ?thesis .
  qed
  ultimately show thesis using that by blast
qed

section \<open>Appending\<close>

lemma append_string_run:
  assumes r: "rep {} h K R" and c: "chunks h p = Some c" and root: "is_root R p" "R p = []"
    and null: "null_context h \<noteq> Some p" and mem: "\<not> oom h (ticks h)"
    and s: "payload h p = xs @ 0 # ys" "0 \<notin> set xs" and n: "length xs + length t + 1 < unat MAX_TALLOC_SIZE"
  obtains a h' where "talloc_append_string p (Some t) h = Ok (Some a) h'"
    and "grown h p K R h' a (xs @ bytes_of_string t @ [0])"
proof -
  let ?bs = "bytes_of_string t @ [0]"
  have "read_cstr p h = Ok (map (\<lambda>b. char_of (unat b)) xs) h"
    using s by (simp add: read_cstr_eq string_of_bytes_prefix)
  then have read: "pbind (read_cstr p) f h = f (map (\<lambda>b. char_of (unat b)) xs) h" for f :: "_ \<Rightarrow> ('a tstate, addr option) prog"
    by (rule run_step)
  have eq: "talloc_append_string p (Some t) h =
    pbind (talloc_realloc_array None (Some p) 1 (of_nat (length xs + (length t + 1))) (N_const ''char''))
      (\<lambda>ret. case ret of None \<Rightarrow> pret None
        | Some a \<Rightarrow> pthen (write_bytes a (length xs) ?bs) (pthen (talloc_set_name_const a (N_chunk a)) (pret ret))) h"
    by (simp only: talloc_append_string_def read option.case Let_def length_map)
  show thesis
    by (rule append_run [OF r c root null mem, of "length xs" "length xs + (length t + 1)" ?bs])
      (use s n that [unfolded eq] in auto)
qed

lemma sint_small: "m < 2 ^ 31 \<Longrightarrow> sint (of_nat m :: u32) = int m \<and> unat (of_nat m :: u32) = m"
  by (simp add: signed_of_nat signed_take_bit_eq_if_positive unsigned_of_nat take_bit_nat_eq_self
      bit_iff_odd_drop_bit drop_bit_eq_div take_bit_int_eq_self)

lemma vasprintf_append_run:
  assumes r: "rep {} h K R" and c: "chunks h p = Some c" and root: "is_root R p" "R p = []"
    and null: "null_context h \<noteq> Some p" and mem: "\<not> oom h (ticks h)" and t: "t \<noteq> []"
    and len: "unat (tc_size c) = length (payload h p)" "payload h p \<noteq> []"
    and n: "length (payload h p) + length t < unat MAX_TALLOC_SIZE"
  obtains a h' where "talloc_vasprintf_append (Some p) (Some t) h = Ok (Some a) h'"
    and "grown h p K R h' a (butlast (payload h p) @ bytes_of_string t @ [0])"
proof -
  let ?bs = "bytes_of_string t @ [0]"
  obtain m where m: "length (payload h p) = Suc m" using len(2) by (cases "payload h p") auto
  have "tc_size c = of_nat (unat (tc_size c))" by simp
  then have "tc_size c = of_nat (Suc m)" unfolding len(1) m .
  moreover have "ucast (of_nat m :: u64) = (of_nat m :: u32)" by (rule bit_word_eqI) (simp add: bit_simps)
  ultimately have s_len: "ucast (tc_size c - 1) = (of_nat m :: u32)" by simp
  have small: "m < 2 ^ 31" using n m by (simp add: MAX_TALLOC_SIZE_def)
  have chunk: "pbind (talloc_chunk_from_ptr p) f h = f c h" for f :: "_ \<Rightarrow> ('a tstate, addr option) prog"
    by (rule run_from_ptr [OF c rep_magic [OF r c]])
  have nat: "(sint (of_nat m :: u32) < 0) = False" "unat (of_nat m :: u32) = m" "(t = []) = False"
    using sint_small [OF small] t by simp_all
  have sum: "(of_nat m + of_nat (length t) + 1 :: u32) = of_nat (m + (length t + 1))" by (simp add: ac_simps)
  have eq: "talloc_vasprintf_append (Some p) (Some t) h =
    pbind (talloc_realloc_array None (Some p) 1 (of_nat (m + (length t + 1))) (N_const ''char''))
      (\<lambda>ret. case ret of None \<Rightarrow> pret None
        | Some a \<Rightarrow> pthen (write_bytes a m ?bs) (pthen (talloc_set_name_const a (N_chunk a)) (pret ret))) h"
    by (simp only: talloc_vasprintf_append_def chunk option.case Let_def s_len nat sum if_False)
  show thesis
    by (rule append_run [OF r c root null mem, of m "m + (length t + 1)" ?bs])
      (use m n that [unfolded eq] in \<open>auto simp: butlast_conv_take\<close>)
qed

end
