(* ===== verification/Talloc_Reports.thy ===== *)
theory Talloc_Reports
  imports Talloc_Refs
begin

text \<open>
  The reports of ccan/talloc: while \<open>_talloc_report_depth_cb\<close> is on its way the chunks above the one
  it visits carry the loop flag; what it prints is the listing of a tree of the forest, in the order
  of the children, down to the greatest depth.
\<close>

section \<open>Marked chunks\<close>

text \<open>A heap in which the chunks of a set carry the loop flag.\<close>

definition marks :: "addr set \<Rightarrow> 'w tstate \<Rightarrow> 'w tstate" where
  "marks A h = h\<lparr>chunks := (\<lambda>a. if a \<in> A
     then map_option (\<lambda>c. c\<lparr>tc_flags := tc_flags c OR TALLOC_FLAG_LOOP\<rparr>) (chunks h a) else chunks h a)\<rparr>"

lemma marks_simps [simp]:
  "a \<notin> A \<Longrightarrow> chunks (marks A h) a = chunks h a"
  "a \<in> A \<Longrightarrow> chunks (marks A h) a =
     map_option (\<lambda>c. c\<lparr>tc_flags := tc_flags c OR TALLOC_FLAG_LOOP\<rparr>) (chunks h a)"
  "handles (marks A h) = handles h" "payload (marks A h) = payload h" "next_addr (marks A h) = next_addr h"
  by (simp_all add: marks_def)

lemma marks_none [simp]: "marks {} h = h"
  by (simp add: marks_def)

lemma mark_run:
  assumes "chunks h a = Some c" and "a \<notin> A"
  shows "upd_chunk a (\<lambda>c. c\<lparr>tc_flags := tc_flags c OR TALLOC_FLAG_LOOP\<rparr>) (marks A h) =
    Ok () (marks (insert a A) h)"
proof -
  have "(chunks (marks A h))(a \<mapsto> c\<lparr>tc_flags := tc_flags c OR TALLOC_FLAG_LOOP\<rparr>) = chunks (marks (insert a A) h)"
    using assms by (auto simp: fun_eq_iff marks_def)
  then show ?thesis using assms by (simp add: upd_chunk_def) (simp add: marks_def)
qed

lemma unmark_run:
  assumes c: "chunks h a = Some c" "tc_flags c = TALLOC_MAGIC" and a: "a \<notin> A"
  shows "upd_chunk a (\<lambda>c. c\<lparr>tc_flags := tc_flags c AND NOT TALLOC_FLAG_LOOP\<rparr>) (marks (insert a A) h) =
    Ok () (marks A h)"
proof -
  let ?c = "c\<lparr>tc_flags := tc_flags c OR TALLOC_FLAG_LOOP\<rparr>"
  have "?c\<lparr>tc_flags := tc_flags ?c AND NOT TALLOC_FLAG_LOOP\<rparr> = c"
    using c(2) by (intro chunk_eqI) (simp_all add: same_content_def flag_defs)
  then have "(chunks (marks (insert a A) h))(a \<mapsto> ?c\<lparr>tc_flags := tc_flags ?c AND NOT TALLOC_FLAG_LOOP\<rparr>) =
      chunks (marks A h)"
    using c a by (auto simp: fun_eq_iff marks_def)
  then show ?thesis using c by (simp add: upd_chunk_def) (simp add: marks_def)
qed

lemma marks_magic:
  assumes "chunks h a = Some c" and "tc_flags c = TALLOC_MAGIC"
  obtains d where "chunks (marks A h) a = Some d" and "magic_ok d" and "tc_name d = tc_name c"
    and "tc_next d = tc_next c" and "tc_refs d = tc_refs c"
  using assms magic_MAGIC magic_LOOP by (cases "a \<in> A") auto

section \<open>What the callback reads\<close>

lemma name_marked:
  assumes r: "rep {} h K R" and nm: "talloc_get_name a h = Ok s h"
  shows "talloc_get_name a (marks A h) = Ok s (marks A h)"
proof -
  obtain c where c: "chunks h a = Some c"
    using nm by (cases "chunks h a") (auto simp: talloc_get_name_def talloc_chunk_from_ptr_def get_chunk_def prog_defs)
  obtain d where d: "chunks (marks A h) a = Some d" "magic_ok d" "tc_name d = tc_name c"
    by (rule marks_magic [OF c rep_flags [OF r c]]) auto
  show ?thesis
  proof (cases "tc_name c")
    case (N_chunk b)
    then have "read_cstr b h = Ok s h" using nm c rep_magic [OF r c] by (simp add: talloc_get_name_def run)
    then have "read_cstr b (marks A h) = Ok s (marks A h)"
      by (auto simp: read_cstr_def prog_defs split: if_splits)
    then show ?thesis using N_chunk d by (simp add: talloc_get_name_def run)
  qed (use nm c d rep_magic [OF r c] in \<open>simp_all add: talloc_get_name_def run\<close>)
qed

lemma count_handles_cong:
  "handles h' = handles h \<Longrightarrow> count_handles n g h = Ok k h \<Longrightarrow> count_handles n g h' = Ok k h'"
proof (induction n arbitrary: g k)
  case (Suc n)
  show ?case
  proof (cases g)
    case None
    then show ?thesis using Suc.prems by (simp add: prog_defs)
  next
    case (Some x)
    show ?thesis using Suc Some
      by (auto simp: prog_defs get_handle_def split: option.splits outcome.splits)
  qed
qed (simp add: prog_defs)

lemma count_marked:
  assumes r: "rep {} h K R" and a: "a \<in> dom (chunks h)"
  shows "reference_count_nolock a (marks A h) = Ok (length (R a)) (marks A h)"
proof -
  obtain c where c: "chunks h a = Some c" using a by auto
  obtain d where d: "chunks (marks A h) a = Some d" "magic_ok d" "tc_refs d = tc_refs c"
    by (rule marks_magic [OF c rep_flags [OF r c]]) auto
  have "count_handles (Suc (Suc (next_addr h))) (tc_refs c) h = Ok (length (R a)) h"
    using count_handles_run [OF r, of a "[]" "R a"] refs_bound [OF r, of a] rep_refs [OF r c]
    by (simp del: count_handles.simps)
  then have "count_handles (Suc (Suc (next_addr h))) (tc_refs c) (marks A h) = Ok (length (R a)) (marks A h)"
    by (rule count_handles_cong [rotated]) simp
  then show ?thesis using d by (simp add: reference_count_nolock_def run del: count_handles.simps)
qed

lemma total_marked:
  assumes w: "walkable (chunks h) t" and dist: "distinct (nodes t)" and A: "A \<inter> set (nodes t) = {}"
    and n: "length (nodes t) \<le> next_addr h"
  shows "total_nolock f (root t) (marks A h) = Ok (total_of f h (nodes t)) (marks A h)"
proof -
  have same: "chunks (marks A h) b = chunks h b" if "b \<in> set (nodes t)" for b
    by (rule marks_simps(1)) (use A that in auto)
  have "walkable (chunks (marks A h)) t" using walkable_cong [OF same, of t] w by simp
  moreover have "total_of f (marks A h) (nodes t) = total_of f h (nodes t)" by (rule total_of_cong) (rule same)
  ultimately show ?thesis
    using total_spec [of "marks A h" t "2 * next_addr h + 2" f] dist n by (simp add: total_nolock_def run)
qed

section \<open>The listing of a tree\<close>

text \<open>
  The lines of a tree, given the names of the blocks, what the handles refer to and how many handles
  a block has: a line for the root, then, unless the greatest depth is reached, the lines of its
  children, where a handle is one line with the name of the block it refers to.
\<close>

fun tree_lines ::
    "'w tstate \<Rightarrow> (addr \<Rightarrow> string) \<Rightarrow> (addr \<Rightarrow> addr option) \<Rightarrow> (addr \<Rightarrow> nat) \<Rightarrow> int \<Rightarrow> int \<Rightarrow> tree \<Rightarrow> report_line list" where
  "tree_lines h nm tgt refs m d (Node a ts) =
     (let bytes = total_of tc_size h (nodes (Node a ts)); blocks = of_nat (length (nodes (Node a ts))) in
      if d = 0 then L_pool (m < 0) (nm a) bytes blocks else L_block (d * 4) (nm a) bytes blocks (refs a) a) #
     (if 0 \<le> m \<and> m \<le> d then []
      else concat (map (\<lambda>t. case tgt (root t) of
          Some q \<Rightarrow> [L_reference ((d + 1) * 4) (nm q)]
        | None \<Rightarrow> tree_lines h nm tgt refs m (d + 1) t) ts))"

abbreviation kid_lines ::
    "'w tstate \<Rightarrow> (addr \<Rightarrow> string) \<Rightarrow> (addr \<Rightarrow> addr option) \<Rightarrow> (addr \<Rightarrow> nat) \<Rightarrow> int \<Rightarrow> int \<Rightarrow> tree \<Rightarrow> report_line list" where
  "kid_lines h nm tgt refs m d t \<equiv> (case tgt (root t) of
     Some q \<Rightarrow> [L_reference ((d + 1) * 4) (nm q)] | None \<Rightarrow> tree_lines h nm tgt refs m (d + 1) t)"

lemma total_of_one: "total_of (\<lambda>_. 1) h S = of_nat (length S)"
  by (induction S) (simp_all add: total_of_def)

lemma helper_line:
  assumes r: "rep {} h K R" and nm: "\<And>b. b \<in> dom (chunks h) \<Longrightarrow> talloc_get_name b h = Ok (nm b) h"
    and t: "walkable (chunks h) (Node a ts)" "distinct (nodes (Node a ts))" "A \<inter> set (nodes (Node a ts)) = {}"
      "length (nodes (Node a ts)) \<le> next_addr h"
  shows "report_depth_FILE_helper a d m False (marks A h) =
    Ok [hd (tree_lines h nm tgt (\<lambda>b. length (R b)) m d (Node a ts))] (marks A h)"
proof -
  have a: "a \<in> dom (chunks h)" using t(1) by auto
  have "talloc_get_name a (marks A h) = Ok (nm a) (marks A h)" by (rule name_marked [OF r nm [OF a]])
  moreover have "total_nolock f a (marks A h) = Ok (total_of f h (nodes (Node a ts))) (marks A h)" for f
    using total_marked [OF t, of f] by simp
  ultimately show ?thesis using count_marked [OF r a, of A]
    by (simp add: report_depth_FILE_helper_def total_size_nolock_def total_blocks_nolock_def run run_step
        total_of_one Let_def)
qed

lemma helper_reference:
  assumes r: "rep {} h K R" and nm: "\<And>b. b \<in> dom (chunks h) \<Longrightarrow> talloc_get_name b h = Ok (nm b) h"
    and g: "g \<in> set (R q)"
  obtains gh where "handles h g = Some gh" and "report_depth_FILE_helper (h_ptr gh) d m True (marks A h) =
    Ok [L_reference (d * 4) (nm q)] (marks A h)"
proof -
  obtain gh where gh: "handles h g = Some gh" "h_ptr gh = q"
    using repD(6) [OF r g] by (auto simp: handle_ok_def)
  have "q \<in> dom (chunks h)" by (rule lists_okD(3) [OF repD(2) [OF r] g])
  from name_marked [OF r nm [OF this], of A] gh
  have "report_depth_FILE_helper (h_ptr gh) d m True (marks A h) = Ok [L_reference (d * 4) (nm q)] (marks A h)"
    by (simp add: report_depth_FILE_helper_def run run_step)
  with gh(1) show thesis by (rule that)
qed

section \<open>The walk\<close>

declare report_n.simps [simp del] report_list.simps [simp del]

lemma report_node:
  assumes r: "rep {} h K R" and nm: "\<And>b. b \<in> dom (chunks h) \<Longrightarrow> talloc_get_name b h = Ok (nm b) h"
    and t: "walkable (chunks h) (Node a ts)" "distinct (nodes (Node a ts))" "A \<inter> set (nodes (Node a ts)) = {}"
      "length (nodes (Node a ts)) \<le> next_addr h"
    and kids: "report_list n (hd_opt (map root ts)) d m report_depth_FILE_helper (marks (insert a A) h) =
      Ok (concat (map (kid_lines h nm tgt (\<lambda>b. length (R b)) m d) ts)) (marks (insert a A) h)"
  shows "report_n (Suc n) a d m report_depth_FILE_helper (marks A h) =
    Ok (tree_lines h nm tgt (\<lambda>b. length (R b)) m d (Node a ts)) (marks A h)"
proof -
  obtain c where c: "chunks h a = Some c" "tc_flags c = TALLOC_MAGIC" "tc_child c = hd_opt (map root ts)"
    using t(1) by auto
  have a: "a \<notin> A" using t(3) by simp
  have "tc_flags c AND TALLOC_FLAG_LOOP = 0" using c(2) by (simp add: flag_defs)
  with helper_line [OF r nm t, of d m tgt] mark_run [OF c(1) a] unmark_run [OF c(1,2) a] kids c a
  show ?thesis by (simp add: report_n.simps run run_step)
qed

lemma report_kid:
  assumes r: "rep {} h K R" and nm: "\<And>b. b \<in> dom (chunks h) \<Longrightarrow> talloc_get_name b h = Ok (nm b) h"
    and tgt: "\<And>g q. tgt g = Some q \<longleftrightarrow> g \<in> set (R q)"
    and ref: "\<And>g c. chunks h g = Some c \<Longrightarrow> tc_name c = N_reference \<longleftrightarrow> tgt g \<noteq> None"
    and c: "chunks h (root t) = Some c" "tc_next c = hd_opt (map root ts)" and A: "root t \<notin> A"
    and sub: "tgt (root t) = None \<Longrightarrow> report_n n (root t) (d + 1) m report_depth_FILE_helper (marks A h) =
      Ok (tree_lines h nm tgt (\<lambda>b. length (R b)) m (d + 1) t) (marks A h)"
    and rest: "report_list n (hd_opt (map root ts)) d m report_depth_FILE_helper (marks A h) =
      Ok (concat (map (kid_lines h nm tgt (\<lambda>b. length (R b)) m d) ts)) (marks A h)"
  shows "report_list (Suc n) (Some (root t)) d m report_depth_FILE_helper (marks A h) =
    Ok (concat (map (kid_lines h nm tgt (\<lambda>b. length (R b)) m d) (t # ts))) (marks A h)"
proof (cases "tgt (root t)")
  case None
  then show ?thesis using sub rest c ref [OF c(1)] A by (simp add: report_list.simps run run_step)
next
  case (Some q)
  then have "root t \<in> set (R q)" using tgt by simp
  then obtain gh where "handles h (root t) = Some gh"
    and "report_depth_FILE_helper (h_ptr gh) (d + 1) m True (marks A h) = Ok [L_reference ((d + 1) * 4) (nm q)] (marks A h)"
    using helper_reference [OF r nm, of "root t" q] by blast
  then show ?thesis using Some rest c ref [OF c(1)] A by (simp add: report_list.simps run run_step)
qed

lemma report_spec:
  assumes r: "rep {} h K R" and nm: "\<And>b. b \<in> dom (chunks h) \<Longrightarrow> talloc_get_name b h = Ok (nm b) h"
    and tgt: "\<And>g q. tgt g = Some q \<longleftrightarrow> g \<in> set (R q)"
    and ref: "\<And>g c. chunks h g = Some c \<Longrightarrow> tc_name c = N_reference \<longleftrightarrow> tgt g \<noteq> None"
  shows "(walkable (chunks h) t \<longrightarrow> distinct (nodes t) \<longrightarrow> A \<inter> set (nodes t) = {} \<longrightarrow>
      length (nodes t) \<le> next_addr h \<longrightarrow> 2 * length (nodes t) \<le> n \<longrightarrow>
      report_n n (root t) d m report_depth_FILE_helper (marks A h) =
        Ok (tree_lines h nm tgt (\<lambda>b. length (R b)) m d t) (marks A h)) \<and>
    (chain (chunks h) ts \<longrightarrow> (\<forall>t \<in> set ts. walkable (chunks h) t) \<longrightarrow> distinct (concat (map nodes ts)) \<longrightarrow>
      A \<inter> set (concat (map nodes ts)) = {} \<longrightarrow> length (concat (map nodes ts)) \<le> next_addr h \<longrightarrow>
      2 * length (concat (map nodes ts)) < n \<longrightarrow>
      report_list n (hd_opt (map root ts)) d m report_depth_FILE_helper (marks A h) =
        Ok (concat (map (kid_lines h nm tgt (\<lambda>b. length (R b)) m d) ts)) (marks A h))"
proof (induction n arbitrary: t ts A d)
  case 0
  then show ?case using length_nodes [of t] by simp
next
  case (Suc n)
  have node: "report_n (Suc n) (root t) d m report_depth_FILE_helper (marks A h) =
      Ok (tree_lines h nm tgt (\<lambda>b. length (R b)) m d t) (marks A h)"
    if t: "walkable (chunks h) t" "distinct (nodes t)" "A \<inter> set (nodes t) = {}" "length (nodes t) \<le> next_addr h"
      and n: "2 * length (nodes t) \<le> Suc n"
  proof (cases t)
    case (Node a us)
    have "report_list n (hd_opt (map root us)) d m report_depth_FILE_helper (marks (insert a A) h) =
        Ok (concat (map (kid_lines h nm tgt (\<lambda>b. length (R b)) m d) us)) (marks (insert a A) h)"
      by (rule conjunct2 [OF Suc.IH, rule_format]) (use t n Node in auto)
    from report_node [OF r nm t [unfolded Node] this] show ?thesis by (simp add: Node)
  qed
  have list: "report_list (Suc n) (hd_opt (map root ts)) d m report_depth_FILE_helper (marks A h) =
      Ok (concat (map (kid_lines h nm tgt (\<lambda>b. length (R b)) m d) ts)) (marks A h)"
    if ch: "chain (chunks h) ts" and w: "\<forall>t \<in> set ts. walkable (chunks h) t"
      and dist: "distinct (concat (map nodes ts))" and A: "A \<inter> set (concat (map nodes ts)) = {}"
      and len: "length (concat (map nodes ts)) \<le> next_addr h" and n: "2 * length (concat (map nodes ts)) < Suc n"
  proof (cases ts)
    case Nil
    then show ?thesis by (simp add: report_list.simps run)
  next
    case (Cons u us)
    obtain c where c: "chunks h (root u) = Some c" "tc_next c = hd_opt (map root us)" using ch Cons by auto
    have A': "A \<inter> set (nodes u) = {}" "A \<inter> set (concat (map nodes us)) = {}" using A Cons by auto
    have l: "length (nodes u) + length (concat (map nodes us)) \<le> next_addr h"
        "2 * (length (nodes u) + length (concat (map nodes us))) < Suc n"
      using len n unfolding Cons by simp_all
    obtain k where "length (nodes u) = Suc k" using length_nodes [of u] gr0_conv_Suc by blast
    then have small: "2 * length (concat (map nodes us)) < n" using l(2) by simp
    have "report_n n (root u) (d + 1) m report_depth_FILE_helper (marks A h) =
        Ok (tree_lines h nm tgt (\<lambda>b. length (R b)) m (d + 1) u) (marks A h)"
      by (rule conjunct1 [OF Suc.IH, rule_format]) (use w dist A' l Cons in auto)
    moreover have "report_list n (hd_opt (map root us)) d m report_depth_FILE_helper (marks A h) =
        Ok (concat (map (kid_lines h nm tgt (\<lambda>b. length (R b)) m d) us)) (marks A h)"
      by (rule conjunct2 [OF Suc.IH, rule_format]) (use ch w dist A' l small Cons in auto)
    moreover have "root u \<notin> A" using A'(1) root_in_nodes [of u] by blast
    ultimately show ?thesis using report_kid [OF r nm tgt ref c] unfolding Cons by simp
  qed
  show ?case using node list by blast
qed

section \<open>Reports\<close>

text \<open>
  What a report relies on: the name of every block can be read, and the blocks with the name of
  reference handles are the handles, as long as nobody renames one.
\<close>

definition named :: "'w tstate \<Rightarrow> links \<Rightarrow> (addr \<Rightarrow> string) \<Rightarrow> (addr \<Rightarrow> addr option) \<Rightarrow> bool" where
  "named h R nm tgt \<longleftrightarrow> (\<forall>b \<in> dom (chunks h). talloc_get_name b h = Ok (nm b) h) \<and>
     (\<forall>g q. tgt g = Some q \<longleftrightarrow> g \<in> set (R q)) \<and>
     (\<forall>g c. chunks h g = Some c \<longrightarrow> (tc_name c = N_reference \<longleftrightarrow> tgt g \<noteq> None))"

lemma report_run:
  assumes r: "rep {} h K R" and a: "a \<in> dom (chunks h)" and ok: "named h R nm tgt"
    and t: "root t = a" "tree_ok K t" "distinct (nodes t)" "set (nodes t) = below K a"
  shows "talloc_report_depth_file (Some a) d m h = Ok (tree_lines h nm tgt (\<lambda>b. length (R b)) m d t) h"
proof -
  have "walkable (chunks h) t" using rep_walkable [OF r t(2)] t(1) a by simp
  moreover have "length (nodes t) \<le> next_addr h" by (rule tree_size [OF r a t(3,4)])
  moreover note report_spec [OF r, of nm tgt t "{}" "2 * next_addr h + 2" d m]
  ultimately have "report_n (2 * next_addr h + 2) a d m report_depth_FILE_helper h =
      Ok (tree_lines h nm tgt (\<lambda>b. length (R b)) m d t) h"
    using ok t by (simp add: named_def del: report_n.simps)
  then show ?thesis using rep_world(1,2) [OF r]
    by (simp add: talloc_report_depth_file_def talloc_report_depth_cb_def Let_def run run_step unlock_id
        lock_def)
qed

end
