(* ===== verification/Talloc_Props.thy ===== *)
theory Talloc_Props
  imports Talloc_Strings Talloc_Reports
begin

text \<open>
  The properties of ccan/talloc, each with an instance on a small heap: a pool 0 with two blocks,
  of which the older one, 1, has a destructor.
\<close>

definition demo_block :: "addr option \<Rightarrow> addr option \<Rightarrow> addr option \<Rightarrow> destructor \<Rightarrow> talloc_chunk" where
  "demo_block nxt prv par d = \<lparr>tc_next = nxt, tc_prev = prv, tc_parent = par, tc_child = None,
     tc_refs = None, tc_destructor = d, tc_name = N_null, tc_size = 8, tc_flags = TALLOC_MAGIC\<rparr>"

definition demo_heap :: "addr list tstate" where
  "demo_heap = \<lparr>chunks = [0 \<mapsto> (demo_block None None None D_null)\<lparr>tc_child := Some 2\<rparr>,
       2 \<mapsto> demo_block (Some 1) None (Some 0) D_null, 1 \<mapsto> demo_block None (Some 2) None (D_user 7)],
     handles = Map.empty, payload = (\<lambda>_. []), next_addr = 3, null_context = None,
     autofree_context = None, tc_lock = False, locked = False, oom = (\<lambda>_. False),
     moves = (\<lambda>_. False), junk = (\<lambda>_. 0), ticks = 0, exit_handlers = [], external_realloc = None,
     user_destructor = (\<lambda>f a w. (0, w @ [a])), outside = []\<rparr>"

definition demo_kids :: links where
  "demo_kids = (\<lambda>a. if a = 0 then [2, 1] else [])"

lemma demo_heap_simps [simp]:
  "dom (chunks demo_heap) = {0, 1, 2}" "null_context demo_heap = None" "oom demo_heap n = False"
  "next_addr demo_heap = 3" "outside demo_heap = []"
  "chunks demo_heap 0 = Some ((demo_block None None None D_null)\<lparr>tc_child := Some 2\<rparr>)"
  "chunks demo_heap 1 = Some (demo_block None (Some 2) None (D_user 7))"
  "chunks demo_heap 2 = Some (demo_block (Some 1) None (Some 0) D_null)"
  "user_destructor demo_heap f a w = (0, w @ [a])"
  by (auto simp: demo_heap_def)

lemma demo_rep: "rep {} demo_heap demo_kids (\<lambda>_. [])"
proof -
  have kid: "kid demo_kids = {(2, 0), (1, 0)}" by (auto simp: kid_def demo_kids_def split: if_splits)
  have "acyclic ({} :: (addr \<times> addr) set)" by (simp add: acyclic_def)
  then have "acyclic (kid demo_kids)" unfolding kid by (auto simp: acyclic_insert elim: rtranclE)
  then have "forest {0, 1, 2} demo_kids"
    by (auto simp: forest_def lists_ok_def demo_kids_def split: if_splits)
  moreover have "chunk_ok {} demo_kids (\<lambda>_. []) a c" if "chunks demo_heap a = Some c" for a c
    using that
    by (auto simp: demo_heap_def demo_block_def chunk_ok_def own_ok_def is_root_def demo_kids_def
        split: if_splits)
  moreover have "world_ok demo_heap" by (auto simp: world_ok_def demo_heap_def split: if_splits)
  ultimately show ?thesis unfolding rep_def by (simp add: lists_ok_def)
qed

lemma demo_below: "below demo_kids 0 = {0, 1, 2}" "below demo_kids (Suc 0) = {1}" "below demo_kids 2 = {2}"
proof -
  show 1: "below demo_kids (Suc 0) = {1}" "below demo_kids 2 = {2}"
    by (simp_all add: below_root_kids demo_kids_def)
  have "below demo_kids 0 = insert 0 (\<Union>b \<in> set (demo_kids 0). below demo_kids b)" by (rule below_step)
  then show "below demo_kids 0 = {0, 1, 2}" using 1 by (auto simp: demo_kids_def)
qed

lemma demo_kid: "a \<in> set (demo_kids p) \<longleftrightarrow> p = 0 \<and> (a = 1 \<or> a = 2)"
  by (auto simp: demo_kids_def)

lemma demo_agrees: "agrees demo_heap a"
  by (simp add: agrees_def)

section \<open>Allocating, ancestors, moving\<close>

text \<open>
  C20: \<open>talloc_named_const\<close> returns null exactly when the size is \<open>MAX_TALLOC_SIZE\<close> or more or
  memory runs out, and then no block has changed; otherwise the new block, of the size and the name
  asked for and without a destructor, is the first child of its context, or of the null context, and
  all other blocks keep their contents.
\<close>

theorem talloc_adds_child:
  assumes "rep {} h K R" and "\<And>p. context_of h ctxt = Some p \<Longrightarrow> p \<in> dom (chunks h)"
  shows "wp never (talloc_named_const ctxt sz name) (\<lambda>r h'. case r of
      None \<Rightarrow> (MAX_TALLOC_SIZE \<le> sz \<or> oom h (ticks h)) \<and> rep {} h' K R \<and> chunks h' = chunks h
    | Some a \<Rightarrow> sz < MAX_TALLOC_SIZE \<and> \<not> oom h (ticks h) \<and> a \<notin> dom (chunks h) \<and>
        rep {} h' (add_opt (context_of h ctxt) a K) R \<and> length (payload h' a) = unat sz \<and>
        (\<exists>c. chunks h' a = Some c \<and> tc_size c = sz \<and> tc_name c = name \<and> tc_destructor c = D_null) \<and>
        (\<forall>b c. chunks h b = Some c \<longrightarrow> payload h' b = payload h b \<and>
          (\<exists>d. chunks h' b = Some d \<and> same_content d c))) h"
proof (rule alloc_cases [OF assms, where sz = sz and name = name])
  fix C
  assume C: "talloc_named_const ctxt sz name h = Ok (Some (next_addr h)) (with_fresh (fresh name sz) h\<lparr>chunks := C\<rparr>)"
    "rep {} (with_fresh (fresh name sz) h\<lparr>chunks := C\<rparr>) (add_opt (context_of h ctxt) (next_addr h) K) R"
    and k: "keeps ((chunks h)(next_addr h \<mapsto> fresh name sz)) C"
    and sz: "sz < MAX_TALLOC_SIZE" "\<not> oom h (ticks h)"
  have "\<exists>c. C (next_addr h) = Some c \<and> tc_size c = sz \<and> tc_name c = name \<and> tc_destructor c = D_null"
    using keepsD [OF k, of "next_addr h" "fresh name sz"] by (auto simp: same_content_def fresh_def)
  then show ?thesis
    using C sz fresh_chunk(1) [OF assms(1)] grows_fresh [OF assms(1) k]
    by (auto simp: wp_def with_fresh_def grows_def Let_def fresh_def)
qed (use assms in \<open>simp_all add: wp_def rep_ticks\<close>)

lemma talloc_adds_child_witness:
  "\<exists>a h'. talloc_named_const (Some 0) 16 N_null demo_heap = Ok (Some a) h' \<and> a \<notin> {0, 1, 2} \<and>
     rep {} h' (add_kid 0 a demo_kids) (\<lambda>_. [])"
proof -
  have ctxt: "p \<in> dom (chunks demo_heap)" if "context_of demo_heap (Some 0) = Some p" for p
    using that by (simp add: context_of_def)
  obtain r h' where run: "talloc_named_const (Some 0) 16 N_null demo_heap = Ok r h'"
    and post: "case r of
        None \<Rightarrow> (MAX_TALLOC_SIZE \<le> 16 \<or> oom demo_heap (ticks demo_heap)) \<and> rep {} h' demo_kids (\<lambda>_. []) \<and>
          chunks h' = chunks demo_heap
      | Some a \<Rightarrow> 16 < MAX_TALLOC_SIZE \<and> \<not> oom demo_heap (ticks demo_heap) \<and> a \<notin> dom (chunks demo_heap) \<and>
          rep {} h' (add_opt (context_of demo_heap (Some 0)) a demo_kids) (\<lambda>_. []) \<and>
          length (payload h' a) = unat (16 :: u64) \<and>
          (\<exists>c. chunks h' a = Some c \<and> tc_size c = 16 \<and> tc_name c = N_null \<and> tc_destructor c = D_null) \<and>
          (\<forall>b c. chunks demo_heap b = Some c \<longrightarrow> payload h' b = payload demo_heap b \<and>
            (\<exists>d. chunks h' b = Some d \<and> same_content d c))"
    by (rule wp_neverE [OF talloc_adds_child [OF demo_rep ctxt, where sz = 16 and name = N_null]])
  then show ?thesis by (cases r) (simp_all add: MAX_TALLOC_SIZE_def context_of_def)
qed

text \<open>
  C24: \<open>talloc_parent\<close> finds the pool a block was allocated in, for every position among its siblings,
  and \<open>talloc_is_parent\<close> answers whether a block lies below a pool, itself included; both leave the
  heap as it is.
\<close>

theorem talloc_ancestry:
  assumes "rep {} h K R" and "a \<in> dom (chunks h)"
  shows "(\<exists>r. talloc_parent (Some a) h = Ok r h \<and> (\<forall>p. r = Some p \<longleftrightarrow> a \<in> set (K p))) \<and>
    talloc_is_parent (Some a) (Some p) h = Ok (a \<in> below K p) h"
proof -
  note w = rep_world(1,2) [OF assms(1)]
  obtain c where c: "chunks h a = Some c" using assms(2) by auto
  obtain r where r: "talloc_parent_chunk (Some a) h = Ok r h" "parent_is K a r"
    using talloc_parent_chunk_run [OF assms(1) c] by auto
  have "r = Some p \<longleftrightarrow> a \<in> set (K p)" for p
    using r(2) lists_okD(4) [OF repD(4) [OF assms(1)], of a p]
    by (auto simp: parent_is_def is_root_def split: option.splits)
  then have "\<exists>r. talloc_parent (Some a) h = Ok r h \<and> (\<forall>p. r = Some p \<longleftrightarrow> a \<in> set (K p))"
    using r(1) w by (intro exI [of _ r]) (simp add: talloc_parent_def run run_step unlock_id)
  moreover have "talloc_is_parent (Some a) (Some p) h = Ok (a \<in> below K p) h"
    using talloc_is_parent_nolock_run [OF assms(1) c, of p] w
    by (simp add: talloc_is_parent_def run run_step unlock_id)
  ultimately show ?thesis by blast
qed

lemma talloc_ancestry_witness:
  "(\<exists>r. talloc_parent (Some 1) demo_heap = Ok r demo_heap \<and> r = Some 0) \<and>
   talloc_is_parent (Some 1) (Some 0) demo_heap = Ok True demo_heap \<and>
   talloc_is_parent (Some 1) (Some 2) demo_heap = Ok False demo_heap"
proof -
  obtain r where "talloc_parent (Some 1) demo_heap = Ok r demo_heap" "r = Some 0"
    using talloc_ancestry [OF demo_rep, of 1 0] demo_kid [of 1 0] by auto
  then show ?thesis
    using talloc_ancestry [OF demo_rep, of 1 0] talloc_ancestry [OF demo_rep, of 1 2]
    by (simp add: demo_below)
qed

text \<open>
  C18: \<open>talloc_steal\<close> returns the pointer it was given and moves the whole subtree: it leaves the list
  it was in and becomes the first child of the new context (a root without one), unless the new
  context lies inside the subtree; every block keeps its contents, name, size and destructor.
\<close>

theorem talloc_steal_moves:
  assumes "rep {} h K R" and "a \<in> dom (chunks h)"
    and "\<And>p. context_of h ctxt = Some p \<Longrightarrow> p \<in> dom (chunks h) \<and> p \<notin> below K a"
  shows "\<exists>h'. talloc_steal ctxt (Some a) h = Ok (Some a) h' \<and>
    rep {} h' (add_opt (context_of h ctxt) a (drop_kid a K)) R \<and> survives {} h h' \<and> outside h' = outside h"
  by (rule steal_run [OF assms])

lemma talloc_steal_moves_witness:
  "\<exists>h'. talloc_steal (Some 2) (Some 1) demo_heap = Ok (Some 1) h' \<and>
     rep {} h' (demo_kids(0 := [2], 2 := [1])) (\<lambda>_. [])"
proof -
  have "add_kid 2 1 (drop_kid 1 demo_kids) = demo_kids(0 := [2], 2 := [1])"
    by (auto simp: add_kid_def drop_kid_def demo_kids_def fun_eq_iff)
  then show ?thesis
    using talloc_steal_moves [OF demo_rep, of 1 "Some 2"] by (auto simp: context_of_def demo_below)
qed

text \<open>
  C19: \<open>talloc_realloc\<close> of a block to a size within the bounds: a block that is referred to is not
  reallocated, and without memory nothing is done, in both cases null is returned and the block is as it was.
  Otherwise the block is returned, where it was or at an address that was free, with the new size and name,
  its destructor, and its contents up to the smaller of the two sizes; the forest is the same one with the new
  address wherever the old one was, so that parent, children and neighbours know the block at its new place,
  and no other block has other contents.
\<close>

theorem talloc_realloc_moves:
  assumes "rep {} h K R" and "chunks h p = Some c" and "is_root R p" and "null_context h \<noteq> Some p"
    and "0 < sz" and "sz < MAX_TALLOC_SIZE"
  shows "if R p \<noteq> [] then talloc_realloc ctxt (Some p) sz name h = Ok None h
    else if oom h (ticks h) then talloc_realloc ctxt (Some p) sz name h = Ok None (h\<lparr>ticks := Suc (ticks h)\<rparr>)
    else \<exists>a h' d. talloc_realloc ctxt (Some p) sz name h = Ok (Some a) h' \<and> (a = p \<or> chunks h a = None \<and> chunks h' p = None) \<and>
      rep {} h' (move_links p a K) R \<and>
      chunks h' a = Some d \<and> tc_size d = sz \<and> tc_name d = name \<and> tc_destructor d = tc_destructor c \<and>
      length (payload h' a) = unat sz \<and>
      take (min (unat sz) (length (payload h p))) (payload h' a) = take (unat sz) (payload h p) \<and>
      (\<forall>b. b = p \<or> b = a \<or> payload h' b = payload h b)"
proof (cases "R p = [] \<and> \<not> oom h (ticks h)")
  case True
  then have now: "R p = []" "\<not> oom h (ticks h)" by simp_all
  obtain a h' d where new: "talloc_realloc ctxt (Some p) sz name h = Ok (Some a) h'" "a = p \<or> chunks h a = None"
    "rep {} h' (move_links p a K) R" "a \<noteq> p \<Longrightarrow> chunks h' p = None"
    and d: "chunks h' a = Some d \<and> tc_size d = sz \<and> tc_name d = name \<and> tc_destructor d = tc_destructor c"
      "length (payload h' a) = unat sz" "take (min (unat sz) (length (payload h p))) (payload h' a) = take (unat sz) (payload h p)"
    and other: "\<And>g. g \<noteq> p \<Longrightarrow> g \<noteq> a \<Longrightarrow> payload h' g = payload h g"
    by (rule talloc_realloc_moves_run [OF assms(1-3) now(1) assms(4-6) now(2), of ctxt name]) blast
  have "\<forall>b. b = p \<or> b = a \<or> payload h' b = payload h b" using other by blast
  moreover have "a = p \<or> chunks h a = None \<and> chunks h' p = None" using new(2,4) by blast
  ultimately show ?thesis using now new(1,3) d by auto
next
  case False
  then show ?thesis using talloc_realloc_fails_run [OF assms(1,2,5,6)] by auto
qed

lemma talloc_realloc_moves_witness:
  "\<exists>a h'. talloc_realloc None (Some 2) 16 N_null (demo_heap\<lparr>moves := \<lambda>_. True\<rparr>) = Ok (Some a) h' \<and>
     rep {} h' (demo_kids(0 := [a, 1])) (\<lambda>_. [])"
proof -
  let ?h = "demo_heap\<lparr>moves := \<lambda>_. True\<rparr>"
  have "rep {} ?h demo_kids (\<lambda>_. [])" using demo_rep by (simp add: rep_def world_ok_def)
  moreover have "chunks ?h 2 = Some (demo_block (Some 1) None (Some 0) D_null)" by simp
  moreover have "is_root (\<lambda>_. []) (2 :: addr)" by (simp add: is_root_def)
  moreover have "(0 :: u64) < 16" "(16 :: u64) < MAX_TALLOC_SIZE" by (simp_all add: MAX_TALLOC_SIZE_def)
  ultimately obtain a h' where "talloc_realloc None (Some 2) 16 N_null ?h = Ok (Some a) h'"
    and "a = 2 \<or> a \<notin> dom (chunks demo_heap)" "rep {} h' (move_links 2 a demo_kids) (\<lambda>_. [])"
    using talloc_realloc_moves [of ?h demo_kids "\<lambda>_. []" 2 _ 16 None N_null]
    by (auto simp del: demo_heap_simps(1))
  moreover have "move_links 2 a demo_kids = demo_kids(0 := [a, 1])" if a: "a = 2 \<or> a \<notin> dom (chunks demo_heap)"
  proof -
    have "a \<noteq> 0" "a \<noteq> 1" using a by auto
    then show ?thesis by (auto simp: move_links_def moved_def demo_kids_def fun_eq_iff)
  qed
  ultimately show ?thesis by auto
qed

text \<open>
  C21: Appending \<open>t\<close> to the string \<open>s\<close> in a block, with memory and within the bounds, when the block is not
  referred to: both functions return the block, at its old or a new address, named by its contents, with the
  forest as \<open>talloc_realloc\<close> leaves it, and write only to the block. After \<open>talloc_append_string\<close> it reads as \<open>s\<close> followed by \<open>t\<close>,
  and is as large as that needs. \<open>talloc_vasprintf_append\<close> does this only for a block that its string
  fills: in a larger one \<open>t\<close> comes behind the terminating NUL, and the string still reads as \<open>s\<close>.
\<close>

theorem talloc_appends:
  assumes "rep {} h K R" and "chunks h p = Some c" and "is_root R p" and "R p = []"
    and "null_context h \<noteq> Some p" and "\<not> oom h (ticks h)"
    and read: "read_cstr p h = Ok s h" and t: "no_NUL t" "t \<noteq> []"
    and size: "unat (tc_size c) = length (payload h p)" "length (payload h p) + length t < unat MAX_TALLOC_SIZE"
  shows "(\<exists>a h' bs. talloc_append_string p (Some t) h = Ok (Some a) h' \<and> grown h p K R h' a bs \<and>
      length bs = length s + length t + 1 \<and> read_cstr a h' = Ok (s @ t) h') \<and>
    (\<exists>a h' bs. talloc_vasprintf_append (Some p) (Some t) h = Ok (Some a) h' \<and> grown h p K R h' a bs \<and>
      length bs = length (payload h p) + length t \<and>
      read_cstr a h' = Ok (if length (payload h p) = length s + 1 then s @ t else s) h')"
proof -
  obtain xs ys where s: "payload h p = xs @ 0 # ys" "0 \<notin> set xs" "s = map (\<lambda>b. char_of (unat b)) xs"
    using read by (rule read_cstr_payload)
  let ?t = "bytes_of_string t @ [0]"
  have app: "string_of_bytes (xs @ ?t) = s @ t" using s(2,3) t(1) by (simp add: string_of_bytes_prefix string_of_bytes_string)
  have "string_of_bytes (butlast (payload h p) @ ?t) = (if ys = [] then s @ t else s)"
    using app s by (auto simp: butlast_append string_of_bytes_prefix)
  moreover have "length (payload h p) = length s + 1 \<longleftrightarrow> ys = []" using s by simp
  moreover have reads: "read_cstr a h' = Ok (string_of_bytes (zs @ ?t)) h'" if "grown h p K R h' a (zs @ ?t)" for a h' zs
    using that by (simp add: read_cstr_eq grown_def)
  moreover obtain a h' where "talloc_append_string p (Some t) h = Ok (Some a) h'" "grown h p K R h' a (xs @ ?t)"
    by (rule append_string_run [OF assms(1-6) s(1,2), of t]) (use s size in auto)
  moreover obtain b h'' where "talloc_vasprintf_append (Some p) (Some t) h = Ok (Some b) h''"
    "grown h p K R h'' b (butlast (payload h p) @ ?t)"
    by (rule vasprintf_append_run [OF assms(1-6) t(2) size(1) _ size(2)]) (use s in auto)
  ultimately show ?thesis using app s by fastforce
qed

text \<open>A block of eight bytes with a string of two: what is appended by format cannot be read.\<close>

lemma talloc_appends_witness:
  "\<exists>a h'. talloc_vasprintf_append (Some 2) (Some ''!'') (demo_heap\<lparr>payload := (\<lambda>_. [72, 105, 0, 0, 0, 0, 0, 0])\<rparr>) =
     Ok (Some a) h' \<and> read_cstr a h' = Ok ''Hi'' h'"
proof -
  let ?h = "demo_heap\<lparr>payload := (\<lambda>_. [72, 105, 0, 0, 0, 0, 0, 0])\<rparr>"
  have "rep {} ?h demo_kids (\<lambda>_. [])" using demo_rep by (simp add: rep_def world_ok_def)
  moreover have "chunks ?h 2 = Some (demo_block (Some 1) None (Some 0) D_null)" by simp
  moreover have "read_cstr 2 ?h = Ok ''Hi'' ?h"
    by (simp add: read_cstr_eq string_of_bytes_def) (simp add: char_of_def bit_0)
  moreover have "no_NUL ''!''" by (simp add: no_NUL_def)
  ultimately show ?thesis
    using talloc_appends [of ?h demo_kids "\<lambda>_. []" 2 _ "''Hi''" "''!''"]
    by (auto simp: is_root_def demo_block_def MAX_TALLOC_SIZE_def)
qed

section \<open>Freeing\<close>



section \<open>Sequences of calls\<close>



text \<open>
  A block allocated in a pool and freed again leaves the forest and the set of allocated blocks
  as they were, and freeing the pool instead takes the new block with everything else below the pool.
\<close>

lemma talloc_alloc_free:
  assumes "holds_no_references h K" and "allocated h p"
    and "talloc_named_const (Some p) sz name h = Ok (Some a) h1"
  shows "(\<exists>h2. talloc_free (Some a) h1 = Ok 0 h2 \<and> holds_no_references h2 K \<and> allocated h2 = allocated h) \<and>
    ((\<forall>b \<in> below K p. lets_go h b) \<longrightarrow>
      (\<exists>h2. talloc_free (Some p) h1 = Ok 0 h2 \<and> allocated h2 = (\<lambda>b. allocated h b \<and> b \<notin> below K p)))"
  using talloc_pool.alloc_free [OF assms] talloc_pool.free_pool [OF assms] by blast

section \<open>References\<close>

text \<open>
  C22: \<open>talloc_reference\<close> followed by \<open>talloc_unlink\<close> from the same context returns 0 and restores the
  forest, the lists of references, the blocks and the program's state; in between
  \<open>talloc_reference_count\<close> is one higher.
\<close>

theorem reference_unlink_roundtrip:
  assumes "rep {} h K R" and "p \<in> dom (chunks h)" and "q \<in> dom (chunks h)" and "\<not> oom h (ticks h)"
  shows "\<exists>h1 h2. talloc_reference (Some q) (Some p) h = Ok (Some p) h1 \<and>
    talloc_reference_count p h1 = Ok (Suc (length (R p))) h1 \<and>
    talloc_unlink (Some q) (Some p) h1 = Ok 0 h2 \<and> rep {} h2 K R \<and>
    dom (chunks h2) = dom (chunks h) \<and> outside h2 = outside h \<and>
    (\<forall>b c. chunks h b = Some c \<longrightarrow> payload h2 b = payload h b \<and>
      (\<exists>d. chunks h2 b = Some d \<and> same_content d c))"
proof -
  let ?g = "next_addr h"
  note f = fresh_chunk [OF assms(1)]
  obtain h1 where run1: "talloc_reference (Some q) (Some p) h = Ok (Some p) h1"
    and r1: "rep {} h1 (add_kid q ?g K) (add_kid p ?g R)" and gr: "grows h h1"
    using reference_spec [OF assms(1,2), of "Some q"] assms(3,4) by (auto simp: context_of_def)
  have ne: "?g \<noteq> p" "?g \<noteq> q" using f(1) assms(2,3) by auto
  have p1: "p \<in> dom (chunks h1)" using gr assms(2) by (simp add: grows_def)
  have "null_context h1 \<noteq> Some ?g" using gr rep_world(3) [OF assms(1)] f(1) by (auto simp: grows_def)
  moreover have "add_kid p ?g R p = ?g # R p" "add_kid q ?g K ?g = []" "add_kid p ?g R ?g = []"
    using ne f by (simp_all add: add_kid_def)
  moreover have "parent_is (add_kid q ?g K) ?g (context_of h1 (Some q))"
    by (simp add: parent_is_def context_of_def add_kid_def)
  ultimately obtain h2 where run2: "talloc_unlink (Some q) (Some p) h1 = Ok 0 h2"
    and r2: "rep {} h2 (drop_kid ?g (add_kid q ?g K)) (drop_kid ?g (add_kid p ?g R))"
    and s2: "survives {?g} h1 h2" and gone: "chunks h2 ?g = None" and o2: "outside h2 = outside h1"
    using unlink_first [OF r1 p1, of ?g "R p" "Some q"] by blast
  have undo: "drop_kid ?g (add_kid a ?g L) = L" if "is_root L ?g" for L a
    using that by (auto simp: drop_kid_def add_kid_def is_root_def fun_eq_iff)
  have old: "b \<noteq> ?g" if "chunks h b = Some c" for b c using f(1) that by auto
  have "payload h2 b = payload h b \<and> (\<exists>d. chunks h2 b = Some d \<and> same_content d c)"
    if bc: "chunks h b = Some c" for b c
  proof -
    have nb: "b \<notin> {?g}" using old [OF bc] by simp
    obtain d where d: "chunks h1 b = Some d" "same_content d c" "payload h1 b = payload h b"
      using gr bc by (auto simp: grows_def dest!: spec [of _ b])
    then show ?thesis
      using survivesD(1) [OF s2 nb d(1)] survives_frame(6) [OF s2 nb] by (auto simp: same_content_def)
  qed
  moreover have "dom (chunks h2) = dom (chunks h)"
  proof (rule set_eqI)
    fix b
    show "b \<in> dom (chunks h2) \<longleftrightarrow> b \<in> dom (chunks h)"
      using gone survivesD [OF s2, of b] gr f(1)
      by (cases "b = ?g"; cases "chunks h1 b") (auto simp: grows_def dom_def set_eq_iff)
  qed
  moreover have "talloc_reference_count p h1 = Ok (Suc (length (R p))) h1"
    using reference_count_run [OF r1 p1] by (simp add: add_kid_def)
  moreover have "outside h2 = outside h" using o2 gr by (simp add: grows_def)
  ultimately show ?thesis using run1 run2 r2 undo [OF f(2)] undo [OF f(4)] by auto
qed

lemma reference_unlink_roundtrip_witness:
  "\<exists>h1 h2. talloc_reference (Some 2) (Some 1) demo_heap = Ok (Some 1) h1 \<and>
     talloc_reference_count 1 h1 = Ok 1 h1 \<and>
     talloc_unlink (Some 2) (Some 1) h1 = Ok 0 h2 \<and> rep {} h2 demo_kids (\<lambda>_. [])"
  using reference_unlink_roundtrip [OF demo_rep, of 1 2] by auto



section \<open>Totals, arrays\<close>

text \<open>
  C25: The report of a pool is the listing of its tree. \<open>talloc_total_size\<close> and
  \<open>talloc_total_blocks\<close> are the sum of the sizes and the number of the blocks below the pool,
  modulo the width of \<open>size_t\<close>. As long as the names can be read and only the handles have the name
  of handles, \<open>talloc_report_depth_file\<close>, with which \<open>talloc_report\<close> and \<open>talloc_report_full\<close> print,
  returns the lines of the tree in the order of the children, down to the greatest depth: for a block
  its name, its depth, its totals and the number of its references, for a handle the name of the block
  it refers to, which is not followed. All of them leave the heap as it was: the loop flags they set
  on their way are all cleared again.
\<close>

theorem talloc_reports:
  assumes "rep {} h K R" and "a \<in> dom (chunks h)"
  shows "\<exists>t. root t = a \<and> tree_ok K t \<and> distinct (nodes t) \<and> set (nodes t) = below K a \<and>
    talloc_total_size (Some a) h = Ok (sum_list (map (\<lambda>b. tc_size (the (chunks h b))) (nodes t))) h \<and>
    talloc_total_blocks a h = Ok (of_nat (length (nodes t))) h \<and>
    (\<forall>nm tgt d m. named h R nm tgt \<longrightarrow>
      talloc_report_depth_file (Some a) d m h = Ok (tree_lines h nm tgt (\<lambda>b. length (R b)) m d t) h)"
proof -
  note w = rep_world(1,2) [OF assms(1)]
  obtain t where t: "root t = a" "tree_ok K t" "distinct (nodes t)" "set (nodes t) = below K a"
    using tree_exists [OF assms(1), of a] by blast
  note run = total_run [OF assms t]
  have "talloc_total_size (Some a) h = Ok (sum_list (map (\<lambda>b. tc_size (the (chunks h b))) (nodes t))) h"
    using run [of tc_size] w by (simp add: talloc_total_size_def total_size_nolock_def run_step unlock_id total_of_def Talloc_Rep.run)
  moreover have "talloc_total_blocks a h = Ok (of_nat (length (nodes t))) h"
    using run [of "\<lambda>_. 1"] w
    by (simp add: talloc_total_blocks_def total_blocks_nolock_def run_step unlock_id total_of_one Talloc_Rep.run)
  ultimately show ?thesis using t report_run [OF assms _ t] by blast
qed

text \<open>The pool 0 with the blocks 2 and 1, where 2 holds the handle 3 of a reference to 1.\<close>

definition report_heap :: "addr list tstate" where
  "report_heap = demo_heap\<lparr>chunks := [0 \<mapsto> (demo_block None None None D_null)\<lparr>tc_child := Some 2\<rparr>,
       2 \<mapsto> (demo_block (Some 1) None (Some 0) D_null)\<lparr>tc_child := Some 3\<rparr>,
       1 \<mapsto> (demo_block None (Some 2) None D_null)\<lparr>tc_refs := Some 3, tc_name := N_const ''one''\<rparr>,
       3 \<mapsto> (demo_block None None (Some 2) D_reference)\<lparr>tc_name := N_reference, tc_size := 24\<rparr>],
     handles := [3 \<mapsto> \<lparr>h_next = None, h_prev = None, h_ptr = 1\<rparr>], next_addr := 4\<rparr>"

definition report_kids :: links where
  "report_kids = demo_kids(2 := [3])"

definition report_refs :: links where
  "report_refs = (\<lambda>_. [])(1 := [3])"

lemma report_rep: "rep {} report_heap report_kids report_refs"
proof -
  have kid: "kid report_kids = {(3, 2), (2, 0), (1, 0)}"
    by (auto simp: kid_def report_kids_def demo_kids_def split: if_splits)
  have "acyclic ({} :: (addr \<times> addr) set)" by (simp add: acyclic_def)
  then have "acyclic (kid report_kids)" unfolding kid
    by (auto simp: acyclic_insert elim: rtranclE)
  then have "forest {0, 1, 2, 3} report_kids"
    by (auto simp: forest_def lists_ok_def report_kids_def demo_kids_def split: if_splits)
  moreover have "dom (chunks report_heap) = {0, 1, 2, 3}" by (auto simp: report_heap_def)
  moreover have "lists_ok {0, 1, 2, 3} report_refs" by (auto simp: lists_ok_def report_refs_def split: if_splits)
  moreover have "chunk_ok {} report_kids report_refs a c" if "chunks report_heap a = Some c" for a c
    using that
    by (auto simp: report_heap_def demo_block_def chunk_ok_def own_ok_def is_root_def report_kids_def
        report_refs_def demo_kids_def split: if_splits dest: spec [of _ 0])
  moreover have "\<exists>r. handles report_heap g = Some r \<and> handle_ok report_refs q g r" if "g \<in> set (report_refs q)" for q g
    using that by (auto simp: report_heap_def report_refs_def handle_ok_def split: if_splits)
  moreover have "world_ok report_heap" by (auto simp: world_ok_def report_heap_def demo_heap_def split: if_splits)
  ultimately show ?thesis unfolding rep_def by simp
qed

lemma report_named:
  "named report_heap report_refs ((\<lambda>_. ''UNNAMED'')(1 := ''one'', 3 := ''.reference'')) [3 \<mapsto> 1]"
  by (auto simp: named_def report_heap_def report_refs_def demo_block_def talloc_get_name_def
      talloc_chunk_from_ptr_def get_chunk_def prog_defs flag_defs split: if_splits)

lemma report_tree: "tree_ok report_kids t \<Longrightarrow> root t = 0 \<Longrightarrow> t = Node 0 [Node 2 [Node 3 []], Node 1 []]"
  by (cases t) (auto simp: report_kids_def demo_kids_def Cons_eq_map_conv elim!: tree_ok.elims)

lemma talloc_reports_witness:
  "talloc_report_full (Some 0) report_heap = Ok [L_pool True ''UNNAMED'' 48 4, L_block 4 ''UNNAMED'' 32 2 0 2,
     L_reference 8 ''one'', L_block 4 ''one'' 8 1 1 1] report_heap \<and>
   talloc_report_depth_file (Some 0) 0 0 report_heap = Ok [L_pool False ''UNNAMED'' 48 4] report_heap"
proof -
  have "0 \<in> dom (chunks report_heap)" by (simp add: report_heap_def)
  from talloc_reports [OF report_rep this] report_named obtain t
    where t: "root t = 0" "tree_ok report_kids t"
      and run: "\<And>d m. talloc_report_depth_file (Some 0) d m report_heap =
        Ok (tree_lines report_heap ((\<lambda>_. ''UNNAMED'')(1 := ''one'', 3 := ''.reference'')) [3 \<mapsto> 1]
          (\<lambda>b. length (report_refs b)) m d t) report_heap" by blast
  show ?thesis unfolding talloc_report_full_def run report_tree [OF t(2,1)]
    by (simp add: total_of_def report_heap_def demo_block_def report_refs_def)
qed

text \<open>
  C26: \<open>talloc_array\<close> never returns less memory than the array needs: when element size times count
  reaches \<open>MAX_TALLOC_SIZE\<close> the result is null, so the product cannot wrap around, and a block that
  is returned has room for exactly the elements asked for. For elements of size zero the check itself
  divides by zero.
\<close>

theorem talloc_array_bounds:
  assumes "rep {} h K R" and "\<And>p. context_of h ctxt = Some p \<Longrightarrow> p \<in> dom (chunks h)" and "el_size \<noteq> 0"
  shows "wp never (talloc_array ctxt el_size count name) (\<lambda>r h'.
      \<forall>a. r = Some a \<longrightarrow> length (payload h' a) = unat el_size * unat count \<and>
        unat el_size * unat count < unat MAX_TALLOC_SIZE) h \<and>
    talloc_array ctxt 0 count name h = Stop Segv"
proof -
  have "unat count < 2 ^ 32" using unsigned_less [of count] by simp
  then have cnt: "unat (ucast count :: u64) = unat count"
    by (simp add: unsigned_ucast_eq take_bit_nat_eq_self)
  have prod: "unat (el_size * ucast count) = unat el_size * unat count \<and>
      unat el_size * unat count < unat MAX_TALLOC_SIZE"
    if "\<not> MAX_TALLOC_SIZE div el_size \<le> ucast count"
  proof -
    have "unat count < unat MAX_TALLOC_SIZE div unat el_size"
      using that cnt by (simp add: not_le word_less_nat_alt unat_div)
    then have "Suc (unat count) * unat el_size \<le> unat MAX_TALLOC_SIZE"
      by (metis Suc_leI div_times_less_eq_dividend mult_le_mono1 order_trans)
    moreover have "0 < unat el_size" using assms(3) by (simp add: unat_gt_0)
    ultimately have lt: "unat el_size * unat count < unat MAX_TALLOC_SIZE"
      by (simp add: mult.commute)
    moreover have "unat MAX_TALLOC_SIZE < 2 ^ 64" by (simp add: MAX_TALLOC_SIZE_def)
    ultimately have "unat el_size * unat (ucast count :: u64) < 2 ^ LENGTH(64)" by (simp add: cnt)
    then have "unat (el_size * ucast count) = unat el_size * unat (ucast count :: u64)"
      by (simp add: unat_word_ariths)
    then show ?thesis using lt cnt by simp
  qed
  have size: "length (payload (with_fresh (fresh name sz) h\<lparr>chunks := C\<rparr>) (next_addr h)) = unat sz" for sz C
    by (simp add: with_fresh_def Let_def fresh_def)
  let ?sz = "el_size * ucast count"
  have "(\<exists>h'. talloc_named_const ctxt ?sz name h = Ok None h') \<or>
      (\<exists>C. talloc_named_const ctxt ?sz name h =
         Ok (Some (next_addr h)) (with_fresh (fresh name ?sz) h\<lparr>chunks := C\<rparr>))"
    by (rule alloc_cases [OF assms(1,2), where sz = ?sz and name = name]) blast+
  then have "wp never (talloc_named_const ctxt ?sz name) (\<lambda>r h'.
      \<forall>a. r = Some a \<longrightarrow> length (payload h' a) = unat ?sz) h"
    using size by (auto simp: wp_def)
  then have "wp never (talloc_array ctxt el_size count name) (\<lambda>r h'.
      \<forall>a. r = Some a \<longrightarrow> length (payload h' a) = unat el_size * unat count \<and>
        unat el_size * unat count < unat MAX_TALLOC_SIZE) h"
    using assms(3) prod
    by (auto simp: talloc_array_def array_too_big_def wp_rules elim!: wp_mono)
  then show ?thesis by (simp add: talloc_array_def array_too_big_def prog_defs)
qed

lemma talloc_array_bounds_witness:
  "wp never (talloc_array (Some 0) 12 5 N_null) (\<lambda>r h'. \<forall>a. r = Some a \<longrightarrow> length (payload h' a) = 60)
     demo_heap"
proof -
  have ctxt: "p \<in> dom (chunks demo_heap)" if "context_of demo_heap (Some 0) = Some p" for p
    using that by (simp add: context_of_def)
  have "(12 :: u64) \<noteq> 0" by simp
  from talloc_array_bounds [OF demo_rep _ this, where ctxt = "Some 0" and count = 5 and name = N_null]
  show ?thesis using ctxt by (auto elim!: wp_mono)
qed

section \<open>The null context\<close>

text \<open>
  The situation in which freeing the null context never ends: a block below it whose destructor
  refuses to be run.
\<close>

definition stuck :: "addr \<Rightarrow> addr \<Rightarrow> nat \<Rightarrow> 'w tstate \<Rightarrow> bool" where
  "stuck n k f h \<longleftrightarrow> null_context h = Some n \<and> n \<noteq> k \<and>
     (\<exists>c. chunks h n = Some c \<and> magic_ok c \<and> tc_child c = Some k \<and> tc_prev c = None \<and> tc_parent c = None) \<and>
     (\<exists>c. chunks h k = Some c \<and> tc_flags c = TALLOC_MAGIC \<and> tc_refs c = None \<and>
        tc_parent c = Some n \<and> tc_destructor c = D_user f) \<and>
     (\<forall>w. fst (user_destructor h f k w) = -1)"

lemma stuck_refuses:
  assumes "stuck n k f h"
  shows "\<exists>h'. talloc_free_n (Suc m) (Some k) h = Ok (-1) h' \<and> stuck n k f h'"
proof -
  obtain c where c: "chunks h k = Some c" "tc_flags c = TALLOC_MAGIC" "tc_refs c = None"
    "tc_parent c = Some n" "tc_destructor c = D_user f" using assms by (auto simp: stuck_def)
  obtain w where w: "user_destructor h f k (outside h) = (-1, w)"
    using assms by (cases "user_destructor h f k (outside h)") (auto simp: stuck_def dest: spec [of _ "outside h"])
  have "talloc_free_n (Suc m) (Some k) h = Ok (-1) (h\<lparr>outside := w\<rparr>)"
    by (rule free_refused_n [OF c(1,2,3,5) w])
  moreover have "stuck n k f (h\<lparr>outside := w\<rparr>)" using assms by (simp add: stuck_def)
  ultimately show ?thesis by blast
qed

lemma stuck_loops:
  "stuck n k f h \<Longrightarrow> free_children m n h = Stop Diverge"
proof (induction m arbitrary: h)
  case 0
  then show ?case by (simp add: free_children.simps prog_defs)
next
  case (Suc m)
  obtain c where c: "chunks h n = Some c" "tc_child c = Some k" and nc: "null_context h = Some n"
    and ck: "\<exists>d. chunks h k = Some d \<and> tc_refs d = None"
    using Suc.prems by (auto simp: stuck_def)
  show ?case
  proof (cases m)
    case 0
    then show ?thesis
      using c nc ck by (auto simp: free_children.simps talloc_free_n.simps run) (simp add: prog_defs)
  next
    case (Suc l)
    obtain h' where h': "talloc_free_n m (Some k) h = Ok (-1) h'" "stuck n k f h'"
      using stuck_refuses [OF Suc.prems, of l] Suc by auto
    obtain d e where d: "chunks h' n = Some d" "magic_ok d" "tc_prev d = None" "tc_parent d = None"
      and e: "chunks h' k = Some e" "tc_flags e = TALLOC_MAGIC" "tc_parent e = Some n"
      and nc': "null_context h' = Some n"
      using h'(2) by (auto simp: stuck_def)
    have "talloc_parent_chunk (Some n) h' = Ok None h'"
      using d by (simp add: talloc_parent_chunk_def run first_sibling.simps)
    moreover have "talloc_steal_nolock (Some n) (Some k) h' = Ok (Some k) h'"
      using d e nc' by (simp add: talloc_steal_nolock_def run Let_def)
    ultimately show ?thesis
      using c nc ck h' Suc.IH [OF h'(2)]
      by (auto simp: free_children.simps run run_step)
  qed
qed

text \<open>
  C28: Once null tracking is on, \<open>talloc_disable_null_tracking\<close> does not return if the newest block
  of the null context has a destructor that refuses: the block's new owner is meant to be the null
  context, which is the pool being freed, so that the loop over the children never gets past it.
\<close>

theorem disable_null_tracking_loops:
  assumes "stuck n k f h" and "chunks h n = Some c" and "tc_refs c = None"
    and "tc_destructor c = D_null" and "tc_flags c = TALLOC_MAGIC" and "tc_next c = None"
  shows "talloc_disable_null_tracking h = Stop Diverge \<and> talloc_free_n m (Some n) h = Stop Diverge"
proof -
  have c: "tc_child c = Some k" "tc_prev c = None" "tc_parent c = None" "null_context h = Some n" "n \<noteq> k"
    using assms(1,2) by (auto simp: stuck_def)
  have "talloc_free_n m (Some n) h = Stop Diverge" for m
  proof (cases m)
    case (Suc l)
    let ?h = "h\<lparr>chunks := (chunks h)(n \<mapsto> c\<lparr>tc_flags := TALLOC_MAGIC OR TALLOC_FLAG_LOOP\<rparr>)\<rparr>"
    have "stuck n k f ?h"
      using assms(1,2,5) c magic_LOOP [of c] by (auto simp: stuck_def)
    then have "free_children l n ?h = Stop Diverge" by (rule stuck_loops)
    then show ?thesis
      using Suc assms c
      by (simp add: talloc_free_n.simps run run_destructor_def detach_def) (simp add: prog_defs)
  qed (simp add: talloc_free_n.simps prog_defs)
  then show ?thesis
    using c by (simp add: talloc_disable_null_tracking_def talloc_free_nolock_def prog_defs)
qed

definition stuck_heap :: "unit tstate" where
  "stuck_heap = \<lparr>chunks = [0 \<mapsto> (demo_block None None None D_null)\<lparr>tc_child := Some 1\<rparr>,
       1 \<mapsto> demo_block None None (Some 0) (D_user 7)],
     handles = Map.empty, payload = (\<lambda>_. []), next_addr = 2, null_context = Some 0,
     autofree_context = None, tc_lock = False, locked = False, oom = (\<lambda>_. False),
     moves = (\<lambda>_. False), junk = (\<lambda>_. 0), ticks = 0, exit_handlers = [], external_realloc = None,
     user_destructor = (\<lambda>f a w. (-1, w)), outside = ()\<rparr>"

lemma disable_null_tracking_loops_witness:
  "talloc_disable_null_tracking stuck_heap = Stop Diverge"
proof -
  let ?c = "(demo_block None None None D_null)\<lparr>tc_child := Some 1\<rparr>"
  have "stuck 0 1 7 stuck_heap" "chunks stuck_heap 0 = Some ?c"
    by (simp_all add: stuck_def stuck_heap_def demo_block_def TALLOC_MAGIC_def TALLOC_FLAG_FREE_def)
  from disable_null_tracking_loops [OF this] show ?thesis by (simp add: demo_block_def)
qed

end
