(* ===== verification/C_Types.thy ===== *)
theory C_Types
  imports Prelude
begin

text \<open>
  The macros of ccan that the compiler decides: build_assert.h, check_type.h, container_of.h and
  typesafe_cb.h. Expressions are their types, as far as these macros look at them; the compiler's
  answer is a value of \<open>verdict\<close>.
\<close>

section \<open>Types of C\<close>

text \<open>
  A pointer says which of \<open>const\<close> and \<open>volatile\<close> its target has. Types of expressions and of
  parameters have no qualifier of their own, so that compatible types are equal ones.
\<close>

record quals =
  q_const :: bool
  q_volatile :: bool

definition plain :: quals where
  "plain = \<lparr>q_const = False, q_volatile = False\<rparr>"

datatype cty = Void | Arith string nat | Struct string nat | Pointer quals cty | Function cty "cty list"

definition void_ptr :: cty where
  "void_ptr = Pointer plain Void"

text \<open>Accepted with the type of the result, accepted with a warning, or rejected.\<close>

datatype verdict = Accepted cty | Warning cty | Rejected

text \<open>\<open>typeof(1 ? (expr) : 0)\<close>: a function becomes a pointer to it, other scalars keep their type.\<close>

fun cond_type :: "cty \<Rightarrow> cty" where
  "cond_type (Function r as) = Pointer plain (Function r as)"
| "cond_type t = t"

section \<open>build_assert.h\<close>

text \<open>The size of the array \<open>char[1 - 2*!(cond)]\<close>, if there is such an array.\<close>

definition assert_array :: "bool \<Rightarrow> nat option" where
  "assert_array c = (let n = 1 - 2 * (if c then 0 else 1 :: int) in if n < 0 then None else Some (nat n))"

definition BUILD_ASSERT :: "bool \<Rightarrow> bool" where
  "BUILD_ASSERT c \<longleftrightarrow> assert_array c \<noteq> None"

definition EXPR_BUILD_ASSERT :: "bool \<Rightarrow> nat option" where
  "EXPR_BUILD_ASSERT c = map_option (\<lambda>n. n - 1) (assert_array c)"

lemma build_assert: "BUILD_ASSERT c \<longleftrightarrow> c" "EXPR_BUILD_ASSERT c = (if c then Some 0 else None)"
  by (simp_all add: BUILD_ASSERT_def EXPR_BUILD_ASSERT_def assert_array_def)

section \<open>check_type.h\<close>

fun sizeof :: "cty \<Rightarrow> nat" where
  "sizeof (Arith _ n) = n"
| "sizeof (Struct _ n) = n"
| "sizeof (Pointer _ _) = 8"
| "sizeof _ = 1"

text \<open>
  With \<open>typeof\<close> two null pointers are compared: the value is 0, with a warning when their types are
  different. Without it the sizes must agree.
\<close>

definition check_type :: "bool \<Rightarrow> cty \<Rightarrow> cty \<Rightarrow> (nat \<times> bool) option" where
  "check_type have_typeof e t =
     (if have_typeof then Some (0, e \<noteq> t)
      else map_option (\<lambda>n. (n, False)) (EXPR_BUILD_ASSERT (sizeof e = sizeof t)))"

definition check_types_match :: "bool \<Rightarrow> cty \<Rightarrow> cty \<Rightarrow> (nat \<times> bool) option" where
  "check_types_match have_typeof e1 e2 =
     (if have_typeof then Some (0, e1 \<noteq> e2)
      else map_option (\<lambda>n. (n, False)) (EXPR_BUILD_ASSERT (sizeof e1 = sizeof e2)))"

section \<open>container_of.h\<close>

text \<open>The members of a structure with their types and offsets.\<close>

type_synonym layout = "(string \<times> cty \<times> nat) list"

definition offsetof :: "layout \<Rightarrow> string \<Rightarrow> nat option" where
  "offsetof s m = map_option snd (map_of s m)"

text \<open>\<open>container_of(member_ptr, containing_type, member)\<close> of a pointer to a \<open>t\<close>: the address and whether there is a warning.\<close>

definition container_of :: "bool \<Rightarrow> u64 \<Rightarrow> cty \<Rightarrow> layout \<Rightarrow> string \<Rightarrow> (u64 \<times> bool) option" where
  "container_of have_typeof mp t s m =
     (case map_of s m of
        None \<Rightarrow> None
      | Some (mt, off) \<Rightarrow>
          (case check_types_match have_typeof t mt of
             None \<Rightarrow> None
           | Some (z, warn) \<Rightarrow> Some (mp - of_nat off - of_nat z, warn)))"

text \<open>Without \<open>typeof\<close> the macro names \<open>containing_type\<close>, which is not one of its parameters.\<close>

definition container_of_var :: "bool \<Rightarrow> u64 \<Rightarrow> cty \<Rightarrow> layout \<Rightarrow> string \<Rightarrow> (u64 \<times> bool) option" where
  "container_of_var have_typeof mp t s m = (if have_typeof then container_of True mp t s m else None)"

lemma container_of_member:
  assumes "map_of s m = Some (mt, off)"
  shows "container_of ht (p + of_nat off) mt s m = Some (p, False)"
  using assms by (cases ht) (simp_all add: container_of_def check_types_match_def build_assert)

section \<open>typesafe_cb.h\<close>

text \<open>The type of \<open>cast_if_type(expr, oktype, desttype)\<close> with the built-in functions of gcc, and without them.\<close>

definition cast_if_type :: "bool \<Rightarrow> cty \<Rightarrow> cty \<Rightarrow> cty \<Rightarrow> cty" where
  "cast_if_type have_builtin e oktype desttype =
     (if have_builtin then (if cond_type e = oktype then desttype else e) else desttype)"

text \<open>\<open>rtype (*)(pre, a, post)\<close>, and \<open>const\<close> or \<open>volatile\<close> added to what \<open>arg\<close> points to.\<close>

definition callback :: "cty \<Rightarrow> cty list \<Rightarrow> cty \<Rightarrow> cty list \<Rightarrow> cty" where
  "callback rtype pre a post = Pointer plain (Function rtype (pre @ [a] @ post))"

fun add_const :: "cty \<Rightarrow> cty" where
  "add_const (Pointer q t) = Pointer (q\<lparr>q_const := True\<rparr>) t"
| "add_const t = t"

fun add_volatile :: "cty \<Rightarrow> cty" where
  "add_volatile (Pointer q t) = Pointer (q\<lparr>q_volatile := True\<rparr>) t"
| "add_volatile t = t"

definition typesafe_cb_args :: "bool \<Rightarrow> cty list \<Rightarrow> cty list \<Rightarrow> cty \<Rightarrow> cty \<Rightarrow> cty \<Rightarrow> cty" where
  "typesafe_cb_args hb pre post rtype fn arg =
     cast_if_type hb
       (cast_if_type hb
         (cast_if_type hb fn
           (callback rtype pre (add_const arg) post) (callback rtype pre void_ptr post))
         (callback rtype pre (add_volatile arg) post) (callback rtype pre void_ptr post))
       (callback rtype pre arg post) (callback rtype pre void_ptr post)"

definition typesafe_cb :: "bool \<Rightarrow> cty \<Rightarrow> cty \<Rightarrow> cty \<Rightarrow> cty" where
  "typesafe_cb hb = typesafe_cb_args hb [] []"

definition typesafe_cb_preargs :: "bool \<Rightarrow> cty \<Rightarrow> cty \<Rightarrow> cty \<Rightarrow> cty list \<Rightarrow> cty" where
  "typesafe_cb_preargs hb rtype fn arg as = typesafe_cb_args hb as [] rtype fn arg"

definition typesafe_cb_postargs :: "bool \<Rightarrow> cty \<Rightarrow> cty \<Rightarrow> cty \<Rightarrow> cty list \<Rightarrow> cty" where
  "typesafe_cb_postargs hb rtype fn arg as = typesafe_cb_args hb [] as rtype fn arg"

text \<open>
  Passing an expression of type \<open>e\<close> where a \<open>t\<close> is expected: a function is passed as a pointer to it,
  other pointers are converted with a warning.
\<close>

definition pass :: "cty \<Rightarrow> cty \<Rightarrow> verdict" where
  "pass t e = (if cond_type e = t then Accepted t
     else case cond_type e of Pointer _ _ \<Rightarrow> Warning t | Arith _ _ \<Rightarrow> Warning t | _ \<Rightarrow> Rejected)"

text \<open>A callback passes exactly when its argument is \<open>arg\<close>'s type, with \<open>const\<close>, with \<open>volatile\<close>, or \<open>void *\<close>.\<close>

lemma typesafe_cb_args_type:
  "cond_type (typesafe_cb_args True pre post rtype fn arg) =
     (if cond_type fn \<in> (\<lambda>a. callback rtype pre a post) ` {arg, add_const arg, add_volatile arg, void_ptr}
      then callback rtype pre void_ptr post else cond_type fn)"
proof -
  have ptr: "cond_type (callback rtype pre a post) = callback rtype pre a post" for a by (simp add: callback_def)
  show ?thesis by (auto simp: typesafe_cb_args_def cast_if_type_def ptr)
qed

end
