(* ===== verification/Talloc_Macros.thy ===== *)
theory Talloc_Macros
  imports Talloc_Machine Talloc_Tools Logging C_Types
begin

text \<open>
  The macros of ccan/talloc/talloc.h, through which programs call the functions of talloc.c. A macro
  that takes a type passes on its size and, as the name of the block, its spelling; the others pass
  the place of the call. The casts of the results are not modelled, but \<open>talloc_set_destructor\<close> accepts
  a function by its type.
\<close>

section \<open>Types\<close>

record c_type =
  ty_name :: string   \<comment> \<open>\<open>#type\<close>\<close>
  ty_size :: u64      \<comment> \<open>\<open>sizeof(type)\<close>\<close>

text \<open>\<open>__location__\<close>, the file and the line.\<close>

definition location :: "string \<Rightarrow> nat \<Rightarrow> string" where
  "location file line = file @ '':'' @ fmt_u line"

section \<open>Allocating\<close>

definition talloc_type :: "addr option \<Rightarrow> c_type \<Rightarrow> ('w tstate, addr option) prog" where
  "talloc_type ctx T = talloc_named_const ctx (ty_size T) (N_const (ty_name T))"

definition talloc_zero_type :: "addr option \<Rightarrow> c_type \<Rightarrow> ('w tstate, addr option) prog" where
  "talloc_zero_type ctx T = talloc_zero ctx (ty_size T) (N_const (ty_name T))"

definition talloc_size :: "string \<Rightarrow> addr option \<Rightarrow> u64 \<Rightarrow> ('w tstate, addr option) prog" where
  "talloc_size loc ctx sz = talloc_named_const ctx sz (N_const loc)"

definition talloc_zero_size :: "string \<Rightarrow> addr option \<Rightarrow> u64 \<Rightarrow> ('w tstate, addr option) prog" where
  "talloc_zero_size loc ctx sz = talloc_zero ctx sz (N_const loc)"

definition talloc_new :: "string \<Rightarrow> addr option \<Rightarrow> ('w tstate, addr option) prog" where
  "talloc_new loc ctx = talloc_named_const ctx 0 (N_const (''talloc_new: '' @ loc))"

text \<open>\<open>talloc_ptrtype(ctx, ptr)\<close> takes the size of what \<open>ptr\<close> points to, not its name.\<close>

definition talloc_ptrtype :: "string \<Rightarrow> addr option \<Rightarrow> c_type \<Rightarrow> ('w tstate, addr option) prog" where
  "talloc_ptrtype loc ctx T = talloc_size loc ctx (ty_size T)"

definition talloc_memdup_at :: "string \<Rightarrow> addr option \<Rightarrow> u8 list \<Rightarrow> ('w tstate, addr option) prog" where
  "talloc_memdup_at loc t bs = talloc_memdup t bs (N_const loc)"

section \<open>Arrays\<close>

definition talloc_array_type :: "addr option \<Rightarrow> c_type \<Rightarrow> u32 \<Rightarrow> ('w tstate, addr option) prog" where
  "talloc_array_type ctx T count = talloc_array ctx (ty_size T) count (N_const (ty_name T))"

definition talloc_zero_array_type :: "addr option \<Rightarrow> c_type \<Rightarrow> u32 \<Rightarrow> ('w tstate, addr option) prog" where
  "talloc_zero_array_type ctx T count = talloc_zero_array ctx (ty_size T) count (N_const (ty_name T))"

definition talloc_array_size :: "string \<Rightarrow> addr option \<Rightarrow> u64 \<Rightarrow> u32 \<Rightarrow> ('w tstate, addr option) prog" where
  "talloc_array_size loc ctx sz count = talloc_array ctx sz count (N_const loc)"

definition talloc_array_ptrtype :: "string \<Rightarrow> addr option \<Rightarrow> c_type \<Rightarrow> u32 \<Rightarrow> ('w tstate, addr option) prog" where
  "talloc_array_ptrtype loc ctx T count = talloc_array_size loc ctx (ty_size T) count"

definition talloc_realloc_type ::
    "addr option \<Rightarrow> addr option \<Rightarrow> c_type \<Rightarrow> u32 \<Rightarrow> ('w tstate, addr option) prog" where
  "talloc_realloc_type ctx p T count = talloc_realloc_array ctx p (ty_size T) count (N_const (ty_name T))"

definition talloc_realloc_size ::
    "string \<Rightarrow> addr option \<Rightarrow> addr option \<Rightarrow> u64 \<Rightarrow> ('w tstate, addr option) prog" where
  "talloc_realloc_size loc ctx p sz = talloc_realloc ctx p sz (N_const loc)"

section \<open>The name as a type\<close>

definition talloc_set_type :: "addr \<Rightarrow> c_type \<Rightarrow> ('w tstate, unit) prog" where
  "talloc_set_type ptr T = talloc_set_name_const ptr (N_const (ty_name T))"

definition talloc_get_type :: "addr option \<Rightarrow> c_type \<Rightarrow> ('w tstate, addr option) prog" where
  "talloc_get_type ptr T = talloc_check_name ptr (ty_name T)"

definition talloc_find_parent_bytype :: "addr option \<Rightarrow> c_type \<Rightarrow> ('w tstate, addr option) prog" where
  "talloc_find_parent_bytype ptr T = talloc_find_parent_byname ptr (ty_name T)"

section \<open>Destructors\<close>

text \<open>
  \<open>talloc_set_destructor(ptr, function)\<close>: what the compiler says of the function, and the call. A
  function that is not accepted is still set when the compiler only warns.
\<close>

definition destructor_type :: cty where
  "destructor_type = callback (Arith ''int'' 4) [] void_ptr []"

definition destructor_verdict :: "bool \<Rightarrow> cty \<Rightarrow> cty \<Rightarrow> verdict" where
  "destructor_verdict hb ptr fn = pass destructor_type (typesafe_cb hb (Arith ''int'' 4) fn ptr)"

definition talloc_set_destructor_fn :: "bool \<Rightarrow> cty \<Rightarrow> cty \<Rightarrow> addr \<Rightarrow> destructor \<Rightarrow> ('w tstate, unit) prog option" where
  "talloc_set_destructor_fn hb pt ft ptr d =
     (case destructor_verdict hb pt ft of Rejected \<Rightarrow> None | _ \<Rightarrow> Some (talloc_set_destructor ptr d))"

section \<open>Running the macros on a heap\<close>

lemma get_type_run:
  assumes "rep {} h K R" and "chunks h a = Some c" and "tc_name c = N_const s"
  shows "talloc_get_type (Some a) T h = Ok (if s = ty_name T then Some a else None) h"
  using assms rep_magic [OF assms(1,2)]
  by (simp add: talloc_get_type_def talloc_check_name_def talloc_get_name_def run)

lemma set_type_run:
  fixes T
  assumes r: "rep {} h K R" and c: "chunks h a = Some c"
  defines "h' \<equiv> h\<lparr>chunks := (chunks h)(a \<mapsto> c\<lparr>tc_name := N_const (ty_name T)\<rparr>)\<rparr>"
  shows "talloc_set_type a T h = Ok () h'" and "is_root R a \<Longrightarrow> rep {} h' K R"
proof -
  show "talloc_set_type a T h = Ok () h'"
    using c rep_magic [OF r c] by (simp add: talloc_set_type_def talloc_set_name_const_def run h'_def)
  show "rep {} h' K R" if "is_root R a"
    unfolding h'_def by (rule chunk_update [OF r c]) (use repD(5) [OF r c] that in \<open>auto simp: chunk_ok_def\<close>)
qed

end
