(* ===== verification/Typed_Props.thy ===== *)
theory Typed_Props
  imports Talloc_Macros Talloc_Props
begin

text \<open>
  The properties of types: which functions the macros of typesafe_cb.h accept as callbacks, and what
  the types that talloc.h records for its blocks tell.
\<close>

section \<open>Callbacks\<close>

text \<open>
  \<open>typesafe_cb\<close>, \<open>typesafe_cb_preargs\<close> and \<open>typesafe_cb_postargs\<close> with the built-in functions of gcc:
  a function is passed without a warning as a callback on \<open>void *\<close> exactly when its other parameters and its
  result are the expected ones and the parameter in question is a pointer to the type that the argument points
  to, to that type with \<open>const\<close> or with \<open>volatile\<close> added (not both), or to \<open>void\<close>. Anything else reaches the
  compiler with the type it has, so that it says what it would say without the macro. On a compiler without
  these functions everything is accepted.
\<close>

lemma typesafe_cb_accepts:
  fixes pre post :: "cty list" and rtype fn arg :: cty
  defines "dest \<equiv> callback rtype pre void_ptr post" and "cb \<equiv> typesafe_cb_args True pre post rtype fn arg"
  shows "(pass dest cb = Accepted dest \<longleftrightarrow>
      cond_type fn \<in> {callback rtype pre arg post, callback rtype pre (add_const arg) post,
        callback rtype pre (add_volatile arg) post, callback rtype pre void_ptr post}) \<and>
    (pass dest cb = Accepted dest \<or> pass dest cb = pass dest fn) \<and>
    pass dest (typesafe_cb_args False pre post rtype fn arg) = Accepted dest"
proof -
  have ptr: "cond_type (callback rtype pre a post) = callback rtype pre a post" for a by (simp add: callback_def)
  have cb: "cond_type cb = (if cond_type fn \<in> (\<lambda>a. callback rtype pre a post) ` {arg, add_const arg, add_volatile arg, void_ptr}
      then dest else cond_type fn)"
    unfolding cb_def dest_def by (rule typesafe_cb_args_type)
  have pass: "pass dest e = Accepted dest \<longleftrightarrow> cond_type e = dest" for e
    by (simp add: pass_def split: cty.split)
  have same: "pass dest e = pass dest fn" if "cond_type e = cond_type fn" for e
    using that by (simp add: pass_def)
  have "cond_type (typesafe_cb_args False pre post rtype fn arg) = dest"
    by (simp add: typesafe_cb_args_def cast_if_type_def ptr dest_def)
  moreover have "cond_type cb = dest \<longleftrightarrow> cond_type fn \<in> {callback rtype pre arg post,
      callback rtype pre (add_const arg) post, callback rtype pre (add_volatile arg) post, callback rtype pre void_ptr post}"
    unfolding cb by (simp add: dest_def)
  moreover have "cond_type cb = dest \<or> pass dest cb = pass dest fn"
    using same [of cb] unfolding cb by argo
  ultimately show ?thesis unfolding pass by blast
qed

section \<open>Types of blocks\<close>

text \<open>
  C27: A block that \<open>talloc(ctx, T)\<close> returns is the newest one of its context and has the size of \<open>T\<close>.
  \<open>talloc_get_type(p, U)\<close> returns it when \<open>U\<close> is spelled like \<open>T\<close> and null otherwise; after \<open>talloc_set_type(p, U)\<close>
  it answers for \<open>U\<close> instead, and the types of all other blocks stay what they were.
\<close>

theorem typed_pointers:
  assumes r: "rep {} h K R" and ctxt: "\<And>p. context_of h ctxt = Some p \<Longrightarrow> p \<in> dom (chunks h)"
    and sz: "ty_size T < MAX_TALLOC_SIZE" and mem: "\<not> oom h (ticks h)"
  defines "a \<equiv> next_addr h"
  shows "\<exists>h'. talloc_type ctxt T h = Ok (Some a) h' \<and> chunks h a = None \<and>
    rep {} h' (add_opt (context_of h ctxt) a K) R \<and> talloc_get_size (Some a) h' = Ok (ty_size T) h' \<and>
    (\<forall>U. talloc_get_type (Some a) U h' = Ok (if ty_name U = ty_name T then Some a else None) h') \<and>
    (\<forall>U. \<exists>h''. talloc_set_type a U h' = Ok () h'' \<and>
      (\<forall>V. talloc_get_type (Some a) V h'' = Ok (if ty_name V = ty_name U then Some a else None) h'') \<and>
      (\<forall>b. b \<noteq> a \<longrightarrow> map_option tc_name (chunks h'' b) = map_option tc_name (chunks h b)))"
proof -
  obtain C where al: "talloc_type ctxt T h = Ok (Some a) (with_fresh (fresh (N_const (ty_name T)) (ty_size T)) h\<lparr>chunks := C\<rparr>)"
    and r': "rep {} (with_fresh (fresh (N_const (ty_name T)) (ty_size T)) h\<lparr>chunks := C\<rparr>) (add_opt (context_of h ctxt) a K) R"
    and k: "keeps ((chunks h)(a \<mapsto> fresh (N_const (ty_name T)) (ty_size T))) C"
    unfolding talloc_type_def a_def
    by (rule alloc_cases [OF r ctxt, of ctxt "ty_size T" "N_const (ty_name T)"]) (use sz mem in \<open>auto simp: not_le [symmetric]\<close>)
  let ?h = "with_fresh (fresh (N_const (ty_name T)) (ty_size T)) h\<lparr>chunks := C\<rparr>"
  have new: "chunks h a = None" unfolding a_def by (rule fresh_chunk(1) [OF r])
  obtain c where c: "C a = Some c" "tc_name c = N_const (ty_name T)" "tc_size c = ty_size T"
    using keepsD [OF k, of a] by (auto simp: same_content_def fresh_def)
  have others: "map_option tc_name (C b) = map_option tc_name (chunks h b)" if "b \<noteq> a" for b
    using keeps_None [OF k, of b] keepsD [OF k, of b] that by (cases "chunks h b") (auto simp: same_content_def)
  have hc: "chunks ?h a = Some c" using c by simp
  have root: "is_root R a" unfolding a_def by (rule fresh_chunk(4) [OF r])
  have get: "talloc_get_type (Some a) U ?h = Ok (if ty_name U = ty_name T then Some a else None) ?h" for U
    using get_type_run [OF r' hc c(2)] by (simp add: eq_commute)
  have size: "talloc_get_size (Some a) ?h = Ok (ty_size T) ?h"
    using hc c(3) rep_magic [OF r' hc] by (simp add: talloc_get_size_def run pret_def)
  have set: "\<exists>h''. talloc_set_type a U ?h = Ok () h'' \<and>
      (\<forall>V. talloc_get_type (Some a) V h'' = Ok (if ty_name V = ty_name U then Some a else None) h'') \<and>
      (\<forall>b. b \<noteq> a \<longrightarrow> map_option tc_name (chunks h'' b) = map_option tc_name (chunks h b))" for U
    using set_type_run(1) [OF r' hc, of U] get_type_run [OF set_type_run(2) [OF r' hc root], where a = a and s = "ty_name U"] others
    by (auto simp: eq_commute)
  show ?thesis
    by (rule exI [of _ ?h], intro conjI al new r' size allI get set)
qed

lemma typed_pointers_witness:
  "\<exists>h'. talloc_type (Some 0) \<lparr>ty_name = ''int'', ty_size = 4\<rparr> demo_heap = Ok (Some 3) h' \<and>
     talloc_get_type (Some 3) \<lparr>ty_name = ''char'', ty_size = 1\<rparr> h' = Ok None h'"
proof -
  let ?T = "\<lparr>ty_name = ''int'', ty_size = 4\<rparr>"
  have "context_of demo_heap (Some 0) = Some p \<Longrightarrow> p \<in> dom (chunks demo_heap)" for p
    by (simp add: context_of_def)
  moreover have "ty_size ?T < MAX_TALLOC_SIZE" by (simp add: MAX_TALLOC_SIZE_def)
  ultimately obtain h' where "talloc_type (Some 0) ?T demo_heap = Ok (Some 3) h'"
    and "\<And>U. talloc_get_type (Some 3) U h' = Ok (if ty_name U = ty_name ?T then Some 3 else None) h'"
    using typed_pointers [OF demo_rep, of "Some 0" ?T] by auto
  then show ?thesis by auto
qed

text \<open>The destructors of the program pass without a warning, and one on another type does not.\<close>

lemma program_destructors:
  "destructor_verdict True (Pointer plain (Struct ''av_device'' n))
     (Function (Arith ''int'' 4) [Pointer plain (Struct ''av_device'' n)]) = Accepted destructor_type"
  "destructor_verdict True (Pointer plain (Struct ''av_device'' n))
     (Function (Arith ''int'' 4) [Pointer plain (Struct ''av_frame'' n)]) = Warning destructor_type"
  by (simp_all add: destructor_verdict_def pass_def typesafe_cb_def typesafe_cb_args_def cast_if_type_def
      callback_def destructor_type_def void_ptr_def plain_def)

end
