(* ===== verification/App.thy ===== *)
theory App
  imports Talloc_Machine Talloc_Tools Logging Util_IO
begin

text \<open>
  The objects of AnekVideo: devices, frames, the server with its clients, and message buffers; the
  first three are allocated with talloc, on top of the operating system. Their structures are kept
  in typed stores beside the heap of chunks: what \<open>*dev\<close> holds is \<open>dev_mem w dev\<close>, arbitrary until
  it is written, and an access to a block that is not allocated stops with \<open>Segv\<close>.
\<close>

section \<open>Structures\<close>

text \<open>\<open>struct av_frame\<close> (src/frame.h).\<close>

record av_frame =
  fr_refcount :: u32
  fr_field :: u32
  fr_timestamp :: "u64 \<times> u64"
  fr_timecode :: v4l2_timecode
  fr_sequence :: u32
  fr_length :: u32
  fr_reserved0 :: u32
  fr_reserved1 :: u32
  fr_reserved2 :: u32
  fr_reserved3 :: u32
  fr_mem :: ptr

text \<open>\<open>struct av_device\<close> (src/device.h), with the frames it points to.\<close>

record av_device =
  dv_fd :: int
  dv_cap :: v4l2_capability
  dv_fmt :: v4l2_format
  dv_rb :: v4l2_requestbuffers
  dv_buf :: v4l2_buffer
  dv_frames :: "addr option list"

definition MAX_DEVICE_FRAMES :: nat where
  "MAX_DEVICE_FRAMES = 6"

text \<open>
  \<open>struct av_server_client\<close> and \<open>struct av_server\<close> (src/server.h). An \<open>fd_set\<close> is its 1024 bits.
\<close>

record av_server_client =
  cl_fd :: int
  cl_device :: "addr option"
  cl_timeout :: u64
  cl_msg :: "nat option"
  cl_cur_msg_max :: int

record av_server =
  sv_set :: "1024 word"
  sv_max :: int
  sv_fd :: int
  sv_clients :: "av_server_client list"
  sv_devices :: "av_device list"

definition AV_MAX_DEVICES :: nat where
  "AV_MAX_DEVICES = 32"

definition AV_MAX_CLIENTS :: nat where
  "AV_MAX_CLIENTS = 32"

text \<open>What \<open>memset(p, 0, sizeof(*p))\<close> and \<open>av_clear\<close> leave.\<close>

definition zero_timecode :: v4l2_timecode where
  "zero_timecode = \<lparr>vt_type = 0, vt_flags = 0, vt_frames = 0, vt_seconds = 0, vt_minutes = 0,
     vt_hours = 0, vt_userbits = 0\<rparr>"

definition zero_v4l2_buffer :: v4l2_buffer where
  "zero_v4l2_buffer = \<lparr>vb_index = 0, vb_type = 0, vb_field = 0, vb_timestamp = (0, 0),
     vb_timecode = zero_timecode, vb_sequence = 0, vb_memory = 0, vb_offset = 0, vb_length = 0\<rparr>"

definition zero_rb :: v4l2_requestbuffers where
  "zero_rb = \<lparr>rb_count = 0, rb_type = 0, rb_memory = 0\<rparr>"

definition zero_frame :: av_frame where
  "zero_frame = \<lparr>fr_refcount = 0, fr_field = 0, fr_timestamp = (0, 0), fr_timecode = zero_timecode,
     fr_sequence = 0, fr_length = 0, fr_reserved0 = 0, fr_reserved1 = 0, fr_reserved2 = 0,
     fr_reserved3 = 0, fr_mem = Null\<rparr>"

definition zero_device :: av_device where
  "zero_device = \<lparr>dv_fd = 0, dv_cap = \<lparr>capabilities = 0\<rparr>,
     dv_fmt = \<lparr>fmt_type = 0, pix_width = 0, pix_height = 0, pix_pixelformat = 0, pix_field = 0\<rparr>,
     dv_rb = zero_rb, dv_buf = zero_v4l2_buffer, dv_frames = replicate MAX_DEVICE_FRAMES None\<rparr>"

definition zero_client :: av_server_client where
  "zero_client = \<lparr>cl_fd = 0, cl_device = None, cl_timeout = 0, cl_msg = None, cl_cur_msg_max = 0\<rparr>"

definition zero_server :: av_server where
  "zero_server = \<lparr>sv_set = 0, sv_max = 0, sv_fd = 0,
     sv_clients = replicate AV_MAX_CLIENTS zero_client,
     sv_devices = replicate AV_MAX_DEVICES zero_device\<rparr>"

text \<open>
  \<open>struct av_buffer\<close> (src/buffer.h): the block \<open>buf\<close> points to, with what it holds, and two \<open>int\<close>
  fields. Buffers come from \<open>malloc\<close> and have numbers of their own.
\<close>

record av_buffer =
  bf_buf :: "u8 list option"
  bf_used :: u32
  bf_size :: u32

section \<open>The world of the program\<close>

record world =
  w_os :: os
  dev_mem :: "addr \<Rightarrow> av_device"
  frame_mem :: "addr \<Rightarrow> av_frame"
  server_mem :: "addr \<Rightarrow> av_server"
  buffers :: "nat \<Rightarrow> av_buffer option"
  next_buffer :: nat

type_synonym app = "world tstate"

definition on_os :: "(os, 'a) prog \<Rightarrow> (app, 'a) prog" where
  "on_os = pzoom (\<lambda>h. w_os (outside h)) (\<lambda>s h. h\<lparr>outside := (outside h)\<lparr>w_os := s\<rparr>\<rparr>)"

definition on_block :: "addr \<Rightarrow> (app, 'a) prog \<Rightarrow> (app, 'a) prog" where
  "on_block a m = (\<lambda>h. if chunks h a = None then Stop Segv else m h)"

definition get_device :: "addr \<Rightarrow> (app, av_device) prog" where
  "get_device a = on_block a (pgets (\<lambda>h. dev_mem (outside h) a))"

definition upd_device :: "addr \<Rightarrow> (av_device \<Rightarrow> av_device) \<Rightarrow> (app, unit) prog" where
  "upd_device a f = on_block a (pmodify (\<lambda>h. h\<lparr>outside := (outside h)\<lparr>dev_mem :=
     (dev_mem (outside h))(a := f (dev_mem (outside h) a))\<rparr>\<rparr>))"

definition get_frame :: "addr \<Rightarrow> (app, av_frame) prog" where
  "get_frame a = on_block a (pgets (\<lambda>h. frame_mem (outside h) a))"

definition upd_frame :: "addr \<Rightarrow> (av_frame \<Rightarrow> av_frame) \<Rightarrow> (app, unit) prog" where
  "upd_frame a f = on_block a (pmodify (\<lambda>h. h\<lparr>outside := (outside h)\<lparr>frame_mem :=
     (frame_mem (outside h))(a := f (frame_mem (outside h) a))\<rparr>\<rparr>))"

definition get_server :: "addr \<Rightarrow> (app, av_server) prog" where
  "get_server a = on_block a (pgets (\<lambda>h. server_mem (outside h) a))"

definition upd_server :: "addr \<Rightarrow> (av_server \<Rightarrow> av_server) \<Rightarrow> (app, unit) prog" where
  "upd_server a f = on_block a (pmodify (\<lambda>h. h\<lparr>outside := (outside h)\<lparr>server_mem :=
     (server_mem (outside h))(a := f (server_mem (outside h) a))\<rparr>\<rparr>))"

text \<open>
  \<open>p < 0\<close> for a pointer, the test the allocating functions make: no pointer is below the null
  pointer.
\<close>

definition below_null :: "addr option \<Rightarrow> bool" where
  "below_null p = False"

section \<open>Destructors\<close>

text \<open>The functions of the program that talloc calls back, and the numbers that stand for them.\<close>

definition av_device_destroy :: "addr \<Rightarrow> world \<Rightarrow> int \<times> world" where
  "av_device_destroy dev w =
     (case sys_close (dv_fd (dev_mem w dev)) (w_os w) of (r, s) \<Rightarrow> (r, w\<lparr>w_os := s\<rparr>))"

definition av_frame_destroy :: "addr \<Rightarrow> world \<Rightarrow> int \<times> world" where
  "av_frame_destroy f w =
     (0, w\<lparr>w_os := snd (put_log (level_num AV_LOG_DEBUG) ''av_frame_destroy''
            ''destroying av_frame %p'' (w_os w))\<rparr>)"

definition av_server_destroy :: "addr \<Rightarrow> world \<Rightarrow> int \<times> world" where
  "av_server_destroy srv w = (0, w)"

definition DESTROY_device :: nat where
  "DESTROY_device = 0"

definition DESTROY_frame :: nat where
  "DESTROY_frame = 1"

definition DESTROY_server :: nat where
  "DESTROY_server = 2"

definition app_destructor :: "nat \<Rightarrow> addr \<Rightarrow> world \<Rightarrow> int \<times> world" where
  "app_destructor f a w =
     (if f = DESTROY_device then av_device_destroy a w
      else if f = DESTROY_frame then av_frame_destroy a w
      else av_server_destroy a w)"

lemmas destroy_defs = app_destructor_def DESTROY_device_def DESTROY_frame_def DESTROY_server_def

section \<open>The invariant of the program's heap\<close>

text \<open>The forest \<open>K\<close> of blocks, without references, and the callbacks of this program.\<close>

definition app_ok :: "app \<Rightarrow> links \<Rightarrow> bool" where
  "app_ok h K \<longleftrightarrow> rep {} h K (\<lambda>_. []) \<and> user_destructor h = app_destructor"

section \<open>Running the accessors\<close>

lemma wp_on_os [wp_rules]:
  "wp E (on_os m) Q = (\<lambda>h. wp E m (\<lambda>a s. Q a (h\<lparr>outside := (outside h)\<lparr>w_os := s\<rparr>\<rparr>)) (w_os (outside h)))"
  by (simp add: on_os_def wp_pzoom)

lemma wp_block [wp_rules]:
  "wp E (get_device a) Q h = (if chunks h a = None then E Segv else Q (dev_mem (outside h) a) h)"
  "wp E (upd_device a f) U h = (if chunks h a = None then E Segv else
     U () (h\<lparr>outside := (outside h)\<lparr>dev_mem := (dev_mem (outside h))(a := f (dev_mem (outside h) a))\<rparr>\<rparr>))"
  "wp E (get_frame a) Q' h = (if chunks h a = None then E Segv else Q' (frame_mem (outside h) a) h)"
  "wp E (upd_frame a f') U h = (if chunks h a = None then E Segv else
     U () (h\<lparr>outside := (outside h)\<lparr>frame_mem := (frame_mem (outside h))(a := f' (frame_mem (outside h) a))\<rparr>\<rparr>))"
  "wp E (get_server a) Q'' h = (if chunks h a = None then E Segv else Q'' (server_mem (outside h) a) h)"
  "wp E (upd_server a g) U h = (if chunks h a = None then E Segv else
     U () (h\<lparr>outside := (outside h)\<lparr>server_mem := (server_mem (outside h))(a := g (server_mem (outside h) a))\<rparr>\<rparr>))"
  by (simp_all add: get_device_def upd_device_def get_frame_def upd_frame_def get_server_def
      upd_server_def on_block_def wp_def prog_defs)

lemma app_okD:
  assumes "app_ok h K"
  shows "rep {} h K (\<lambda>_. [])" and "user_destructor h = app_destructor"
  using assms by (simp_all add: app_ok_def)

lemma rep_outside: "rep X (h\<lparr>outside := w\<rparr>) K R = rep X h K R"
  by (simp add: rep_def world_ok_def)

lemma app_ok_outside [simp]: "app_ok (h\<lparr>outside := w\<rparr>) K = app_ok h K"
  by (simp add: app_ok_def rep_outside)

section \<open>New objects\<close>

text \<open>
  A new block with a destructor, as all three allocating functions make it: the chunk is the newest
  child of its context and everything else stays as it was.
\<close>

definition new_object :: "nat \<Rightarrow> addr option \<Rightarrow> app \<Rightarrow> links \<Rightarrow> addr \<Rightarrow> app \<Rightarrow> bool" where
  "new_object f ctxt h K a h' \<longleftrightarrow> a = next_addr h \<and> chunks h a = None \<and>
     app_ok h' (add_opt (context_of h ctxt) a K) \<and>
     (\<exists>c. chunks h' a = Some c \<and> tc_destructor c = D_user f) \<and>
     (\<forall>b. b \<noteq> a \<longrightarrow> map_option tc_destructor (chunks h' b) = map_option tc_destructor (chunks h b)) \<and>
     null_context h' = null_context h \<and> oom h' = oom h"

lemma new_objectD:
  assumes "new_object f ctxt h K a h'"
  shows "a = next_addr h" and "chunks h a = None" and "app_ok h' (add_opt (context_of h ctxt) a K)"
    and "\<exists>c. chunks h' a = Some c \<and> tc_destructor c = D_user f"
    and "b \<noteq> a \<Longrightarrow> map_option tc_destructor (chunks h' b) = map_option tc_destructor (chunks h b)"
    and "null_context h' = null_context h" and "oom h' = oom h" and "dom (chunks h') = insert a (dom (chunks h))"
proof -
  have "chunks h' b = None \<longleftrightarrow> chunks h b = None" if "b \<noteq> a" for b
    using assms that by (auto simp: new_object_def dest!: spec [of _ b])
  then have "b \<in> dom (chunks h') \<longleftrightarrow> b \<in> insert a (dom (chunks h))" for b
    using assms by (cases "b = a") (auto simp: new_object_def domIff)
  then show "dom (chunks h') = insert a (dom (chunks h))" by blast
qed (use assms in \<open>auto simp: new_object_def\<close>)

lemma set_destructor_rep:
  assumes r: "rep {} h K (\<lambda>_. [])" and c: "chunks h a = Some c"
  shows "talloc_set_destructor a (D_user f) h =
      Ok () (h\<lparr>chunks := (chunks h)(a \<mapsto> c\<lparr>tc_destructor := D_user f\<rparr>)\<rparr>)"
    and "rep {} (h\<lparr>chunks := (chunks h)(a \<mapsto> c\<lparr>tc_destructor := D_user f\<rparr>)\<rparr>) K (\<lambda>_. [])"
proof -
  show "talloc_set_destructor a (D_user f) h =
      Ok () (h\<lparr>chunks := (chunks h)(a \<mapsto> c\<lparr>tc_destructor := D_user f\<rparr>)\<rparr>)"
    using c rep_magic [OF r c] by (simp add: talloc_set_destructor_def run)
  have "chunk_ok {} K (\<lambda>_. []) a (c\<lparr>tc_destructor := D_user f\<rparr>)"
    using repD(5) [OF r c] by (simp add: chunk_ok_def own_ok_def magic_ok_def is_root_def)
  then show "rep {} (h\<lparr>chunks := (chunks h)(a \<mapsto> c\<lparr>tc_destructor := D_user f\<rparr>)\<rparr>) K (\<lambda>_. [])"
    using r c unfolding rep_def by (simp add: world_ok_def insert_absorb domI)
qed

lemma new_object_spec:
  assumes ok: "app_ok h K" and ctxt: "\<And>p. context_of h ctxt = Some p \<Longrightarrow> p \<in> dom (chunks h)"
    and sz: "sz < MAX_TALLOC_SIZE" and mem: "\<not> oom h (ticks h)"
  obtains h1 h2 where "talloc_named_const ctxt sz name h = Ok (Some (next_addr h)) h1"
    and "talloc_set_destructor (next_addr h) (D_user f) h1 = Ok () h2"
    and "new_object f ctxt h K (next_addr h) h2" and "outside h2 = outside h"
proof -
  let ?a = "next_addr h"
  note r = app_okD(1) [OF ok]
  obtain C where al: "talloc_named_const ctxt sz name h =
      Ok (Some ?a) (with_fresh (fresh name sz) h\<lparr>chunks := C\<rparr>)"
    and r1: "rep {} (with_fresh (fresh name sz) h\<lparr>chunks := C\<rparr>) (add_opt (context_of h ctxt) ?a K) (\<lambda>_. [])"
    and k: "keeps ((chunks h)(?a \<mapsto> fresh name sz)) C"
    by (rule alloc_cases [OF r ctxt, of ctxt sz name]) (use sz mem in \<open>auto simp: not_le [symmetric]\<close>)
  let ?h1 = "with_fresh (fresh name sz) h\<lparr>chunks := C\<rparr>"
  have new: "chunks h ?a = None" by (rule fresh_chunk(1) [OF r])
  obtain c where c: "C ?a = Some c" using keeps_new(1) [OF k new, of ?a] by auto
  let ?h2 = "?h1\<lparr>chunks := C(?a \<mapsto> c\<lparr>tc_destructor := D_user f\<rparr>)\<rparr>"
  have sd: "talloc_set_destructor ?a (D_user f) ?h1 = Ok () ?h2"
    and r2: "rep {} ?h2 (add_opt (context_of h ctxt) ?a K) (\<lambda>_. [])"
    using set_destructor_rep [OF r1, of ?a c f] c by simp_all
  have "new_object f ctxt h K ?a ?h2"
    using new r2 app_okD(2) [OF ok] keeps_new(2) [OF k new]
    by (simp add: new_object_def app_ok_def with_fresh_def Let_def)
  then show thesis using that [OF al sd] by (simp add: with_fresh_def Let_def)
qed

lemma out_of_memory:
  assumes ok: "app_ok h K" and ctxt: "\<And>p. context_of h ctxt = Some p \<Longrightarrow> p \<in> dom (chunks h)"
    and sz: "sz < MAX_TALLOC_SIZE" and mem: "oom h (ticks h)"
  shows "talloc_named_const ctxt sz name h = Ok None (h\<lparr>ticks := Suc (ticks h)\<rparr>)"
  by (rule alloc_cases [OF app_okD(1) [OF ok] ctxt, of ctxt sz name])
    (use sz mem in \<open>auto simp: not_le [symmetric]\<close>)

text \<open>
  The body that \<open>av_frame_new\<close>, \<open>av_device_new\<close> and \<open>av_server_new\<close> share: it returns the cleared
  object, or reads through the null pointer it was given.
\<close>

lemma new_cleared_spec:
  assumes ok: "app_ok h K" and ctxt: "\<And>p. context_of h ctxt = Some p \<Longrightarrow> p \<in> dom (chunks h)"
    and sz: "sz < MAX_TALLOC_SIZE"
    and clear: "\<And>h. chunks h (next_addr h0) \<noteq> None \<Longrightarrow>
      clear (next_addr h0) h = Ok () (h\<lparr>outside := g (outside h)\<rparr>)" and h0: "h0 = h"
  shows "wp (\<lambda>e. e = Segv \<and> oom h (ticks h))
    (pbind (talloc_named_const ctxt sz name) (\<lambda>buf.
       if below_null buf then pthen (talloc_free buf) (pret None)
       else pbind (pvalid buf) (\<lambda>a.
         pthen (talloc_set_destructor a (D_user f)) (pthen (clear a) (pret buf)))))
    (\<lambda>r h'. \<not> oom h (ticks h) \<and> r = Some (next_addr h) \<and> new_object f ctxt h K (next_addr h) h' \<and>
       outside h' = g (outside h)) h"
proof (cases "oom h (ticks h)")
  case True
  then show ?thesis using out_of_memory [OF ok ctxt sz]
    by (simp add: wp_def below_null_def prog_defs)
next
  case False
  obtain h1 h2 where al: "talloc_named_const ctxt sz name h = Ok (Some (next_addr h)) h1"
    and sd: "talloc_set_destructor (next_addr h) (D_user f) h1 = Ok () h2"
    and new: "new_object f ctxt h K (next_addr h) h2" and out: "outside h2 = outside h"
    by (rule new_object_spec [OF ok ctxt sz False]) auto
  have "chunks h2 (next_addr h) \<noteq> None" using new_objectD(4) [OF new] by auto
  then have "clear (next_addr h) h2 = Ok () (h2\<lparr>outside := g (outside h)\<rparr>)" using clear out h0 by simp
  moreover have "new_object f ctxt h K (next_addr h) (h2\<lparr>outside := g (outside h)\<rparr>)"
    using new by (simp add: new_object_def)
  ultimately show ?thesis using False al sd by (simp add: wp_def below_null_def prog_defs)
qed

end
