(* ===== verification/Frame.thy ===== *)
theory Frame
  imports App
begin

text \<open>
  src/frame.c: allocating a frame below a server, a client or a device, and copying what describes
  a frame. A frame is a talloc block of its own with the destructor \<open>av_frame_destroy\<close>.
\<close>

section \<open>Allocating\<close>

text \<open>\<open>sizeof(struct av_frame)\<close> on the LP64 target.\<close>

definition sizeof_av_frame :: u64 where
  "sizeof_av_frame = 72"

text \<open>
  \<open>av_frame_new\<close>: memory that runs out shows as a null pointer, which the test \<open>buf < 0\<close> does not
  catch; setting its destructor then reads in front of the null pointer.
\<close>

definition av_frame_new :: "addr option \<Rightarrow> (app, addr option) prog" where
  "av_frame_new cnt =
     pthen (av_assert_ptr cnt)
    (pbind (talloc_named_const cnt sizeof_av_frame (N_const ''struct av_frame'')) (\<lambda>buf.
     if below_null buf then pthen (talloc_free buf) (pret None)
     else
       pbind (pvalid buf) (\<lambda>f.
       pthen (talloc_set_destructor f (D_user DESTROY_frame))
      (pthen (upd_frame f (\<lambda>_. zero_frame))
        (pret buf)))))"

definition av_frame_new_for_server :: "addr option \<Rightarrow> (app, addr option) prog" where
  "av_frame_new_for_server srv = av_frame_new srv"

definition av_frame_new_for_client :: "addr option \<Rightarrow> (app, addr option) prog" where
  "av_frame_new_for_client client = av_frame_new client"

definition av_frame_new_for_device :: "addr option \<Rightarrow> (app, addr option) prog" where
  "av_frame_new_for_device dev = av_frame_new dev"

section \<open>Copying\<close>

definition av_frame_copy_meta_from_v4l2_buffer :: "addr \<Rightarrow> v4l2_buffer \<Rightarrow> (app, int) prog" where
  "av_frame_copy_meta_from_v4l2_buffer dst src =
     pthen (upd_frame dst (\<lambda>f. f\<lparr>fr_field := vb_field src\<rparr>))
    (pthen (upd_frame dst (\<lambda>f. f\<lparr>fr_length := vb_length src\<rparr>))
    (pthen (upd_frame dst (\<lambda>f. f\<lparr>fr_sequence := vb_sequence src\<rparr>))
    (pthen (upd_frame dst (\<lambda>f. f\<lparr>fr_timestamp := vb_timestamp src\<rparr>))
    (pthen (upd_frame dst (\<lambda>f. f\<lparr>fr_timecode := vb_timecode src\<rparr>))
      (pret 0)))))"

text \<open>One field of the source is read before the same field of the destination is written.\<close>

definition copy_field :: "addr \<Rightarrow> addr \<Rightarrow> (av_frame \<Rightarrow> av_frame \<Rightarrow> av_frame) \<Rightarrow> (app, unit) prog" where
  "copy_field dst src put = pbind (get_frame src) (\<lambda>s. upd_frame dst (put s))"

definition av_frame_copy_meta :: "addr \<Rightarrow> addr \<Rightarrow> (app, int) prog" where
  "av_frame_copy_meta dst src =
     pthen (copy_field dst src (\<lambda>s f. f\<lparr>fr_field := fr_field s\<rparr>))
    (pthen (copy_field dst src (\<lambda>s f. f\<lparr>fr_length := fr_length s\<rparr>))
    (pthen (copy_field dst src (\<lambda>s f. f\<lparr>fr_sequence := fr_sequence s\<rparr>))
    (pthen (copy_field dst src (\<lambda>s f. f\<lparr>fr_timestamp := fr_timestamp s\<rparr>))
    (pthen (copy_field dst src (\<lambda>s f. f\<lparr>fr_timecode := fr_timecode s\<rparr>))
      (pret 0)))))"

definition av_frame_copy_all :: "addr \<Rightarrow> addr \<Rightarrow> (app, int) prog" where
  "av_frame_copy_all dst src =
     pthen (av_frame_copy_meta dst src)
    (pthen (copy_field dst src (\<lambda>s f. f\<lparr>fr_length := fr_length s\<rparr>))
      (pret 0))"

section \<open>What the functions do\<close>

text \<open>\<open>av_frame_new\<close> returns a cleared frame, or reads through the null pointer it was given.\<close>

lemma frame_new_spec:
  assumes ok: "app_ok h K" and c: "c \<in> dom (chunks h)"
  shows "wp (\<lambda>e. e = Segv \<and> oom h (ticks h)) (av_frame_new (Some c)) (\<lambda>r h'.
    \<not> oom h (ticks h) \<and> r = Some (next_addr h) \<and> new_object DESTROY_frame (Some c) h K (next_addr h) h' \<and>
    outside h' = (outside h)\<lparr>frame_mem := (frame_mem (outside h))(next_addr h := zero_frame)\<rparr>) h"
proof -
  have ctxt: "p \<in> dom (chunks h)" if "context_of h (Some c) = Some p" for p
    using that c by (simp add: context_of_def)
  have sz: "sizeof_av_frame < MAX_TALLOC_SIZE" by (simp add: sizeof_av_frame_def MAX_TALLOC_SIZE_def)
  show ?thesis
    unfolding av_frame_new_def wp_pbind wp_av_assert_ptr option.case
    by (rule new_cleared_spec [OF ok ctxt sz _ refl, unfolded wp_pbind,
        where g = "\<lambda>w. w\<lparr>frame_mem := (frame_mem w)(next_addr h := zero_frame)\<rparr>"])
      (auto simp: upd_frame_def on_block_def prog_defs)
qed

text \<open>Copying: the five fields that describe a frame, from a driver's buffer and from a frame.\<close>

definition with_meta :: "av_frame \<Rightarrow> av_frame \<Rightarrow> av_frame" where
  "with_meta s f = f\<lparr>fr_field := fr_field s, fr_length := fr_length s, fr_sequence := fr_sequence s,
     fr_timestamp := fr_timestamp s, fr_timecode := fr_timecode s\<rparr>"

definition with_buffer_meta :: "v4l2_buffer \<Rightarrow> av_frame \<Rightarrow> av_frame" where
  "with_buffer_meta b f = f\<lparr>fr_field := vb_field b, fr_length := vb_length b, fr_sequence := vb_sequence b,
     fr_timestamp := vb_timestamp b, fr_timecode := vb_timecode b\<rparr>"

definition put_frame :: "addr \<Rightarrow> av_frame \<Rightarrow> app \<Rightarrow> app" where
  "put_frame a f h = h\<lparr>outside := (outside h)\<lparr>frame_mem := (frame_mem (outside h))(a := f)\<rparr>\<rparr>"

lemma put_frame_simps [simp]:
  "chunks (put_frame a f h) = chunks h"
  "frame_mem (outside (put_frame a f h)) b = (if b = a then f else frame_mem (outside h) b)"
  "put_frame a f (put_frame a g h) = put_frame a f h"
  by (simp_all add: put_frame_def)

lemma upd_frame_run:
  "chunks h a \<noteq> None \<Longrightarrow> upd_frame a g h = Ok () (put_frame a (g (frame_mem (outside h) a)) h)"
  by (simp add: upd_frame_def on_block_def prog_defs put_frame_def)

lemma copy_field_run:
  "chunks h dst \<noteq> None \<Longrightarrow> chunks h src \<noteq> None \<Longrightarrow> copy_field dst src put h =
     Ok () (put_frame dst (put (frame_mem (outside h) src) (frame_mem (outside h) dst)) h)"
  by (simp add: copy_field_def get_frame_def on_block_def upd_frame_run prog_defs)

lemma copy_from_buffer_run:
  "chunks h dst \<noteq> None \<Longrightarrow> av_frame_copy_meta_from_v4l2_buffer dst b h =
     Ok 0 (put_frame dst (with_buffer_meta b (frame_mem (outside h) dst)) h)"
  by (simp add: av_frame_copy_meta_from_v4l2_buffer_def upd_frame_run pbind_def pret_def with_buffer_meta_def)

lemma copy_meta_run:
  "chunks h dst \<noteq> None \<Longrightarrow> chunks h src \<noteq> None \<Longrightarrow> av_frame_copy_meta dst src h =
     Ok 0 (put_frame dst (with_meta (frame_mem (outside h) src) (frame_mem (outside h) dst)) h)"
  by (simp add: av_frame_copy_meta_def copy_field_run pbind_def pret_def with_meta_def)

lemma with_meta_length [simp]:
  "fr_length (with_meta s f) = fr_length s" "(with_meta s f)\<lparr>fr_length := fr_length s\<rparr> = with_meta s f"
  by (simp add: with_meta_def) (intro av_frame.equality; simp add: with_meta_def)

lemma copy_all_run:
  "chunks h dst \<noteq> None \<Longrightarrow> chunks h src \<noteq> None \<Longrightarrow> av_frame_copy_all dst src h =
     Ok 0 (put_frame dst (with_meta (frame_mem (outside h) src) (frame_mem (outside h) dst)) h)"
  by (cases "src = dst") (simp_all add: av_frame_copy_all_def copy_meta_run copy_field_run pbind_def pret_def)

end
