(* ===== verification/Device.thy ===== *)
theory Device
  imports Frame
begin

text \<open>
  src/device.c: opening a Video4Linux device, asking the driver for buffers and mapping them, taking
  a filled buffer off the driver's queue. A device is a talloc block whose destructor closes its
  descriptor; the frames it is given are its children.
\<close>

section \<open>Constants of linux/videodev2.h\<close>

definition V4L2_CAP_VIDEO_CAPTURE :: u32 where
  "V4L2_CAP_VIDEO_CAPTURE = 0x00000001"

definition V4L2_CAP_STREAMING :: u32 where
  "V4L2_CAP_STREAMING = 0x04000000"

definition V4L2_BUF_TYPE_VIDEO_CAPTURE :: u32 where
  "V4L2_BUF_TYPE_VIDEO_CAPTURE = 1"

definition V4L2_PIX_FMT_MJPEG :: u32 where
  "V4L2_PIX_FMT_MJPEG = 0x47504A4D"

definition V4L2_FIELD_ANY :: u32 where
  "V4L2_FIELD_ANY = 0"

definition V4L2_MEMORY_MMAP :: u32 where
  "V4L2_MEMORY_MMAP = 1"

text \<open>The numbers of the error codes on Linux.\<close>

fun errno_num :: "errno \<Rightarrow> int" where
  "errno_num EOK = 0"
| "errno_num EPERM = 1"
| "errno_num ENOENT = 2"
| "errno_num ESRCH = 3"
| "errno_num EINTR = 4"
| "errno_num EIO = 5"
| "errno_num EBADF = 9"
| "errno_num EAGAIN = 11"
| "errno_num ENOMEM = 12"
| "errno_num EACCES = 13"
| "errno_num EBUSY = 16"
| "errno_num EEXIST = 17"
| "errno_num EINVAL = 22"
| "errno_num EMFILE = 24"
| "errno_num ENOTTY = 25"
| "errno_num ENOSPC = 28"
| "errno_num ERANGE = 34"
| "errno_num ENOTSOCK = 88"

section \<open>Requests to the driver\<close>

text \<open>
  An ioctl passes a structure by address; the driver may change it also when it fails. What it
  answers is a value of the same structure.
\<close>

definition ioctl_cap :: "int \<Rightarrow> v4l2_capability \<Rightarrow> (app, int \<times> v4l2_capability) prog" where
  "ioctl_cap fd x = pbind (on_os (av_ioctl fd VIDIOC_QUERYCAP (Arg_cap x)))
     (\<lambda>(r, a). pret (r, case a of Arg_cap y \<Rightarrow> y | _ \<Rightarrow> x))"

definition ioctl_fmt :: "int \<Rightarrow> v4l2_format \<Rightarrow> (app, int \<times> v4l2_format) prog" where
  "ioctl_fmt fd x = pbind (on_os (av_ioctl fd VIDIOC_S_FMT (Arg_fmt x)))
     (\<lambda>(r, a). pret (r, case a of Arg_fmt y \<Rightarrow> y | _ \<Rightarrow> x))"

definition ioctl_parm :: "int \<Rightarrow> v4l2_streamparm \<Rightarrow> (app, int \<times> v4l2_streamparm) prog" where
  "ioctl_parm fd x = pbind (on_os (av_ioctl fd VIDIOC_S_PARM (Arg_parm x)))
     (\<lambda>(r, a). pret (r, case a of Arg_parm y \<Rightarrow> y | _ \<Rightarrow> x))"

definition ioctl_rb :: "int \<Rightarrow> v4l2_requestbuffers \<Rightarrow> (app, int \<times> v4l2_requestbuffers) prog" where
  "ioctl_rb fd x = pbind (on_os (av_ioctl fd VIDIOC_REQBUFS (Arg_rb x)))
     (\<lambda>(r, a). pret (r, case a of Arg_rb y \<Rightarrow> y | _ \<Rightarrow> x))"

definition ioctl_dqbuf :: "int \<Rightarrow> v4l2_buffer \<Rightarrow> (app, int \<times> v4l2_buffer) prog" where
  "ioctl_dqbuf fd x = pbind (on_os (av_ioctl fd VIDIOC_DQBUF (Arg_buf x)))
     (\<lambda>(r, a). pret (r, case a of Arg_buf y \<Rightarrow> y | _ \<Rightarrow> x))"

definition log_error :: "string \<Rightarrow> string \<Rightarrow> (app, unit) prog" where
  "log_error func fmt = on_os (av_log AV_LOG_ERROR func fmt)"

definition log_debug :: "string \<Rightarrow> string \<Rightarrow> (app, unit) prog" where
  "log_debug func fmt = on_os (av_log AV_LOG_DEBUG func fmt)"

section \<open>Creating a device\<close>

text \<open>\<open>sizeof(struct av_device)\<close> on the LP64 target.\<close>

definition sizeof_av_device :: u64 where
  "sizeof_av_device = 480"

definition av_device_new :: "addr option \<Rightarrow> (app, addr option) prog" where
  "av_device_new server =
     pbind (talloc_named_const server sizeof_av_device (N_const ''struct av_device'')) (\<lambda>dev.
     if below_null dev then pthen (talloc_free dev) (pret None)
     else
       pbind (pvalid dev) (\<lambda>d.
       pthen (talloc_set_destructor d (D_user DESTROY_device))
      (pthen (upd_device d (\<lambda>_. zero_device))
        (pret dev))))"

section \<open>Buffers\<close>

text \<open>\<open>dev->frames[i] = f\<close>: the array has room for six.\<close>

definition set_frame :: "addr \<Rightarrow> nat \<Rightarrow> addr option \<Rightarrow> (app, unit) prog" where
  "set_frame dev i f =
     (if i < MAX_DEVICE_FRAMES then upd_device dev (\<lambda>d. d\<lparr>dv_frames := (dv_frames d)[i := f]\<rparr>)
      else pstop Segv)"

text \<open>
  The loop over the buffers the driver has granted; \<open>is\<close> are the numbers still to do, since the
  body does not change \<open>dev->rb.count\<close>. The offset given to \<open>mmap\<close> picks the buffer of the driver.
\<close>

fun map_buffers :: "nat list \<Rightarrow> addr \<Rightarrow> (app, int) prog" where
  "map_buffers [] dev = pret 0"
| "map_buffers (i # is) dev =
     pbind (av_frame_new_for_device (Some dev)) (\<lambda>frame.
     pthen (set_frame dev i frame)
    (case frame of
       None \<Rightarrow> pthen (log_error ''av_device_setup_buffers'' ''av_device_frame_new failed\<newline>'') (pret (-1))
     | Some f \<Rightarrow>
         pthen (upd_device dev (\<lambda>d. d\<lparr>dv_buf := (dv_buf d)\<lparr>vb_index := of_nat i\<rparr>\<rparr>))
        (pthen (upd_device dev (\<lambda>d. d\<lparr>dv_buf := (dv_buf d)\<lparr>vb_type := V4L2_BUF_TYPE_VIDEO_CAPTURE\<rparr>\<rparr>))
        (pthen (upd_device dev (\<lambda>d. d\<lparr>dv_buf := (dv_buf d)\<lparr>vb_memory := V4L2_MEMORY_MMAP\<rparr>\<rparr>))
        (pbind (get_device dev) (\<lambda>d.
         pthen (av_frame_copy_meta_from_v4l2_buffer f (dv_buf d))
        (pbind (on_os (pcall (sys_mmap (ucast (vb_length (dv_buf d))) True (dv_fd d)))) (\<lambda>mem.
         pthen (upd_frame f (\<lambda>fr. fr\<lparr>fr_mem := mem\<rparr>))
        (if mem = MapFailed
         then pthen (log_error ''av_device_setup_buffers'' ''mmap failed\<newline>'') (pret (-1))
         else map_buffers is dev)))))))))"

definition av_device_setup_buffers :: "addr option \<Rightarrow> (app, int) prog" where
  "av_device_setup_buffers device =
     pbind (av_assert_ptr device) (\<lambda>dev.
     pthen (upd_device dev (\<lambda>d. d\<lparr>dv_rb := zero_rb\<rparr>))
    (pthen (upd_device dev (\<lambda>d. d\<lparr>dv_rb := (dv_rb d)\<lparr>rb_count := of_nat MAX_DEVICE_FRAMES\<rparr>\<rparr>))
    (pthen (upd_device dev (\<lambda>d. d\<lparr>dv_rb := (dv_rb d)\<lparr>rb_type := V4L2_BUF_TYPE_VIDEO_CAPTURE\<rparr>\<rparr>))
    (pthen (upd_device dev (\<lambda>d. d\<lparr>dv_rb := (dv_rb d)\<lparr>rb_memory := V4L2_MEMORY_MMAP\<rparr>\<rparr>))
    (pbind (get_device dev) (\<lambda>d.
     pbind (ioctl_rb (dv_fd d) (dv_rb d)) (\<lambda>(ret, rb).
     pthen (upd_device dev (\<lambda>d. d\<lparr>dv_rb := rb\<rparr>))
    (if ret < 0
     then pthen (log_error ''av_device_setup_buffers'' ''VIDIOC_REQBUFS failed: %s\<newline>'') (pret (-1))
     else
       pthen (log_debug ''av_device_setup_buffers'' ''VIDIOC_REQBUFS returned %i buffers\<newline>'')
      (pthen (av_assert (2 < rb_count rb))
        (map_buffers [0..<unat (rb_count rb)] dev))))))))))"

section \<open>Setting a device up\<close>

text \<open>
  \<open>calloc(1, sizeof(struct v4l2_streamparm))\<close>, whose result is cleared without a test and never
  freed: memory that runs out stops the program.
\<close>

definition calloc_streamparm :: "(app, v4l2_streamparm) prog" where
  "calloc_streamparm =
     pbind (pgets (\<lambda>h. oom h (ticks h))) (\<lambda>fails.
     pthen (pmodify (\<lambda>h. h\<lparr>ticks := Suc (ticks h)\<rparr>))
     (if fails then pstop Segv
      else pret \<lparr>sp_type = 0, sp_numerator = 0, sp_denominator = 0\<rparr>))"

definition set_format :: "v4l2_format \<Rightarrow> v4l2_format" where
  "set_format f = f\<lparr>fmt_type := V4L2_BUF_TYPE_VIDEO_CAPTURE, pix_width := 0, pix_height := 0,
     pix_pixelformat := V4L2_PIX_FMT_MJPEG, pix_field := V4L2_FIELD_ANY\<rparr>"

definition av_device_setup_from_path :: "addr \<Rightarrow> string \<Rightarrow> (app, int) prog" where
  "av_device_setup_from_path dev path =
     pbind (on_os (pcall (sys_open path))) (\<lambda>fd.
     pthen (upd_device dev (\<lambda>d. d\<lparr>dv_fd := fd\<rparr>))
    (if fd < 0
     then pthen (log_error ''av_device_setup_from_path'' ''open(%s) failed\<newline>'') (pret (-1))
     else
     pbind (get_device dev) (\<lambda>d.
     pbind (ioctl_cap (dv_fd d) (dv_cap d)) (\<lambda>(ret, cap).
     pthen (upd_device dev (\<lambda>d. d\<lparr>dv_cap := cap\<rparr>))
    (if ret < 0
     then pthen (log_error ''av_device_setup_from_path'' ''VIDIOC_QUERYCAP failed\<newline>'') (pret (-1))
     else if capabilities cap AND V4L2_CAP_VIDEO_CAPTURE = 0
     then pthen (log_error ''av_device_setup_from_path''
            ''Device does not have V4L2_CAP_VIDEO_CAPTURE\<newline>'') (pret (-1))
     else if capabilities cap AND V4L2_CAP_STREAMING = 0
     then pthen (log_error ''av_device_setup_from_path''
            ''Device does not have V4L2_CAP_STREAMING\<newline>'') (pret (-1))
     else
     pthen (upd_device dev (\<lambda>d. d\<lparr>dv_fmt := set_format (dv_fmt d)\<rparr>))
    (pbind (get_device dev) (\<lambda>d.
     pbind (ioctl_fmt (dv_fd d) (dv_fmt d)) (\<lambda>(ret, fmt).
     pthen (upd_device dev (\<lambda>d. d\<lparr>dv_fmt := fmt\<rparr>))
    (if ret < 0
     then pthen (log_error ''av_device_setup_from_path'' ''VIDIOC_S_FMT failed: %s.\<newline>'') (pret (-1))
     else
     pbind calloc_streamparm (\<lambda>parm.
     pbind (ioctl_parm (dv_fd d) (parm\<lparr>sp_type := V4L2_BUF_TYPE_VIDEO_CAPTURE, sp_numerator := 1,
              sp_denominator := 0\<rparr>)) (\<lambda>_.
     pthen (av_device_setup_buffers (Some dev))
       (pret 0))))))))))))"

section \<open>Frames from the driver\<close>

text \<open>\<open>av_device_copy_frame\<close> takes a buffer off the queue; the frame \<open>f\<close> is not used.\<close>

definition av_device_copy_frame :: "addr \<Rightarrow> addr option \<Rightarrow> (app, int) prog" where
  "av_device_copy_frame dev f =
     pbind (get_device dev) (\<lambda>d.
     pbind (ioctl_dqbuf (dv_fd d) (zero_v4l2_buffer\<lparr>vb_type := V4L2_BUF_TYPE_VIDEO_CAPTURE,
              vb_memory := V4L2_MEMORY_MMAP\<rparr>)) (\<lambda>(ret, buf).
     if ret < 0
     then
       pbind (on_os (pgets errno)) (\<lambda>err.
       pthen (log_error ''av_device_copy_frame'' ''VIDIOC_DQBUF failed: %s\<newline>'')
         (pret (- errno_num err)))
     else
       pbind (get_device dev) (\<lambda>d.
       pthen (av_assert (vb_index buf < rb_count (dv_rb d)))
         (pret 0))))"

text \<open>\<open>av_device_new\<close> never gives the null pointer, so that \<open>exit(1)\<close> is never reached.\<close>

definition av_device_new_from_path :: "addr option \<Rightarrow> string \<Rightarrow> (app, addr option) prog" where
  "av_device_new_from_path server path =
     pthen (log_debug ''av_device_new_from_path'' ''start\<newline>'')
    (pbind (av_device_new server) (\<lambda>dev.
     case dev of
       None \<Rightarrow> pstop (Exit 1)
     | Some d \<Rightarrow>
         pbind (av_device_setup_from_path d path) (\<lambda>ret.
         if ret \<noteq> 0 then pthen (talloc_free dev) (pret None)
         else pret dev)))"

end
