(* ===== verification/Device_Spec.thy ===== *)
theory Device_Spec
  imports Device
begin

text \<open>
  What the functions of src/device.c do. The calls to the driver leave mappings and descriptors
  alone; the buffers of a device are asked for but never described by the driver, so that mapping
  the first of them fails.
\<close>

section \<open>Calls that change neither mappings nor descriptors\<close>

definition steady :: "os \<Rightarrow> os \<Rightarrow> bool" where
  "steady s s' \<longleftrightarrow> env s' = env s \<and> maps s' = maps s \<and> fds s' = fds s \<and> next_fd s' = next_fd s"

lemma steady_refl [simp]: "steady s s"
  by (simp add: steady_def)

lemma steady_trans: "steady r s \<Longrightarrow> steady s t \<Longrightarrow> steady r t"
  by (simp add: steady_def)

lemma sys_ioctl_steady: "sys_ioctl fd req arg s = (r, s') \<Longrightarrow> steady s s'"
  by (auto simp: sys_ioctl_def syscall_def act_defs steady_def split: option.splits if_splits prod.splits)

lemma av_ioctl_steady:
  "E Diverge \<Longrightarrow> wp E (av_ioctl fd req arg) (\<lambda>_ s'. steady s s') s"
  unfolding av_ioctl_def
  by (rule wp_retry [where P = "steady s"]) (auto dest: sys_ioctl_steady intro: steady_trans)

lemma log_steady [simp]: "steady s (s\<lparr>logs := l\<rparr>)"
  by (simp add: steady_def)

lemma mmap_nothing: "sys_mmap 0 wr fd s = (p, s') \<Longrightarrow> p = MapFailed \<and> steady s s'"
  by (auto simp: sys_mmap_def syscall_def act_defs steady_def split: option.splits)

definition put_os :: "os \<Rightarrow> app \<Rightarrow> app" where
  "put_os s h = h\<lparr>outside := (outside h)\<lparr>w_os := s\<rparr>\<rparr>"

definition put_device :: "addr \<Rightarrow> av_device \<Rightarrow> app \<Rightarrow> app" where
  "put_device a d h = h\<lparr>outside := (outside h)\<lparr>dev_mem := (dev_mem (outside h))(a := d)\<rparr>\<rparr>"

lemma put_simps [simp]:
  "chunks (put_os s h) = chunks h" "chunks (put_device a d h) = chunks h"
  "w_os (outside (put_os s h)) = s" "w_os (outside (put_device a d h)) = w_os (outside h)"
  "w_os (outside (put_frame a f h)) = w_os (outside h)"
  "dev_mem (outside (put_os s h)) = dev_mem (outside h)"
  "dev_mem (outside (put_frame a f h)) = dev_mem (outside h)"
  "dev_mem (outside (put_device a d h)) = (dev_mem (outside h))(a := d)"
  "frame_mem (outside (put_os s h)) = frame_mem (outside h)"
  "frame_mem (outside (put_device a d h)) = frame_mem (outside h)"
  "app_ok (put_os s h) K = app_ok h K" "app_ok (put_device a d h) K = app_ok h K"
  "app_ok (put_frame a f h) K = app_ok h K"
  "oom (put_os s h) = oom h" "oom (put_device a d h) = oom h" "oom (put_frame a f h) = oom h"
  "null_context (put_os s h) = null_context h" "null_context (put_device a d h) = null_context h"
  "null_context (put_frame a f h) = null_context h"
  "ticks (put_os s h) = ticks h" "ticks (put_device a d h) = ticks h"
  "next_addr (put_os s h) = next_addr h" "next_addr (put_device a d h) = next_addr h"
  by (simp_all add: put_os_def put_device_def put_frame_def)

text \<open>The same facts as rules that follow the paths of a program.\<close>

named_theorems app_intro \<open>rules that follow the paths of a function of the program\<close>

lemma ioctl_bindI [app_intro]:
  assumes "E Diverge"
  shows "(\<And>r y s. steady (w_os (outside h)) s \<Longrightarrow> wp E (k (r, y)) Q (put_os s h)) \<Longrightarrow>
      wp E (pbind (ioctl_cap fd x) k) Q h"
    and "(\<And>r y s. steady (w_os (outside h)) s \<Longrightarrow> wp E (k2 (r, y)) Q (put_os s h)) \<Longrightarrow>
      wp E (pbind (ioctl_fmt fd x2) k2) Q h"
    and "(\<And>r y s. steady (w_os (outside h)) s \<Longrightarrow> wp E (k3 (r, y)) Q (put_os s h)) \<Longrightarrow>
      wp E (pbind (ioctl_parm fd x3) k3) Q h"
    and "(\<And>r y s. steady (w_os (outside h)) s \<Longrightarrow> wp E (k4 (r, y)) Q (put_os s h)) \<Longrightarrow>
      wp E (pbind (ioctl_rb fd x4) k4) Q h"
  by (auto simp: ioctl_cap_def ioctl_fmt_def ioctl_parm_def ioctl_rb_def wp_rules put_os_def
      intro!: wp_mono [OF av_ioctl_steady [where E = E, OF assms]])

lemma log_bindI [app_intro]:
  "(\<And>s. steady (w_os (outside h)) s \<Longrightarrow> wp E (k ()) Q (put_os s h)) \<Longrightarrow>
     wp E (pbind (log_error func fmt) k) Q h"
  "(\<And>s. steady (w_os (outside h)) s \<Longrightarrow> wp E (k ()) Q (put_os s h)) \<Longrightarrow>
     wp E (pbind (log_debug func fmt) k) Q h"
  by (simp_all add: log_error_def log_debug_def wp_rules put_os_def)

lemma mmap_nothing_bindI:
  "(\<And>s. steady (w_os (outside h)) s \<Longrightarrow> wp E (k MapFailed) Q (put_os s h)) \<Longrightarrow>
     wp E (pbind (on_os (pcall (sys_mmap 0 wr fd))) k) Q h"
  using mmap_nothing [of wr fd "w_os (outside h)"]
  by (cases "sys_mmap 0 wr fd (w_os (outside h))") (simp add: wp_rules put_os_def)

lemma block_bindI [app_intro]:
  "chunks h a \<noteq> None \<Longrightarrow> wp E (k (dev_mem (outside h) a)) Q h \<Longrightarrow> wp E (pbind (get_device a) k) Q h"
  "chunks h a \<noteq> None \<Longrightarrow> wp E (j ()) Q (put_device a (g (dev_mem (outside h) a)) h) \<Longrightarrow>
     wp E (pbind (upd_device a g) j) Q h"
  "chunks h a \<noteq> None \<Longrightarrow> wp E (j ()) Q (put_frame a (g' (frame_mem (outside h) a)) h) \<Longrightarrow>
     wp E (pbind (upd_frame a g') j) Q h"
  by (auto simp: wp_rules put_device_def put_frame_def)

lemma copy_bindI [app_intro]:
  "chunks h f \<noteq> None \<Longrightarrow> wp E (k 0) Q (put_frame f (with_buffer_meta b (frame_mem (outside h) f)) h) \<Longrightarrow>
     wp E (pbind (av_frame_copy_meta_from_v4l2_buffer f b) k) Q h"
  by (simp add: wp_pbind) (simp add: wp_def copy_from_buffer_run)

lemma put_context_of [simp]:
  "context_of (put_os s h) c = context_of h c" "context_of (put_device d x h) c = context_of h c"
  by (simp_all add: context_of_def)

lemma put_new_object [simp]:
  "new_object f c (put_os s h) K a h' = new_object f c h K a h'"
  "new_object f c (put_device d x h) K a h' = new_object f c h K a h'"
  "new_object f c h K a (put_os s h') = new_object f c h K a h'"
  "new_object f c h K a (put_device d x h') = new_object f c h K a h'"
  "new_object f c h K a (put_frame g y h') = new_object f c h K a h'"
  by (simp_all add: new_object_def context_of_def)

section \<open>Buffers\<close>

text \<open>Memory that runs out is the only source of an invalid access; a driver may make an assertion fail.\<close>

definition may_end :: "app \<Rightarrow> stop \<Rightarrow> bool" where
  "may_end h e \<longleftrightarrow> (e = Segv \<longrightarrow> (\<exists>n. oom h n))"

lemma may_end_simps [simp]: "may_end h Abort" "may_end h Diverge" "may_end h Segv \<longleftrightarrow> (\<exists>n. oom h n)"
  by (simp_all add: may_end_def)

text \<open>
  What a device is after \<open>av_device_setup_buffers\<close>: either it got no frame, or one, whose memory
  could not be mapped.
\<close>

definition no_buffers :: "addr \<Rightarrow> app \<Rightarrow> links \<Rightarrow> app \<Rightarrow> bool" where
  "no_buffers dev h K h' \<longleftrightarrow>
     (app_ok h' K \<and> chunks h' = chunks h \<and>
        dv_frames (dev_mem (outside h') dev) = dv_frames (dev_mem (outside h) dev) \<and>
        frame_mem (outside h') = frame_mem (outside h)) \<or>
     (\<exists>f. new_object DESTROY_frame (Some dev) h K f h' \<and>
        dv_frames (dev_mem (outside h') dev) = (dv_frames (dev_mem (outside h) dev))[0 := Some f] \<and>
        fr_mem (frame_mem (outside h') f) = MapFailed)"

text \<open>What stays as it was.\<close>

definition same_device :: "addr \<Rightarrow> app \<Rightarrow> app \<Rightarrow> bool" where
  "same_device dev h h' \<longleftrightarrow> steady (w_os (outside h)) (w_os (outside h')) \<and>
     dv_fd (dev_mem (outside h') dev) = dv_fd (dev_mem (outside h) dev) \<and>
     dv_cap (dev_mem (outside h') dev) = dv_cap (dev_mem (outside h) dev) \<and>
     (\<forall>b. b \<noteq> dev \<longrightarrow> dev_mem (outside h') b = dev_mem (outside h) b) \<and>
     oom h' = oom h \<and> null_context h' = null_context h"

lemma map_first_fails:
  assumes ok: "app_ok h K" and dev: "dev \<in> dom (chunks h)"
    and len: "vb_length (dv_buf (dev_mem (outside h) dev)) = 0"
  shows "wp (may_end h) (map_buffers (0 # is) dev) (\<lambda>r h'.
    r = -1 \<and> same_device dev h h' \<and> no_buffers dev h K h') h"
proof -
  have new: "wp (may_end h) (av_frame_new_for_device (Some dev)) (\<lambda>r h'.
      \<exists>f. r = Some f \<and> new_object DESTROY_frame (Some dev) h K f h' \<and>
        outside h' = (outside h)\<lparr>frame_mem := (frame_mem (outside h))(f := zero_frame)\<rparr>) h"
    unfolding av_frame_new_for_device_def
    by (rule wp_mono_stop [OF wp_mono [OF frame_new_spec [OF ok dev]]]) auto
  show ?thesis
    unfolding map_buffers.simps
  proof (rule wp_bindI [OF new], goal_cases)
    case (1 r h1)
    then obtain f where n: "new_object DESTROY_frame (Some dev) h K f h1" and r: "r = Some f"
      and out: "outside h1 = (outside h)\<lparr>frame_mem := (frame_mem (outside h))(f := zero_frame)\<rparr>"
      by blast
    have al: "chunks h1 f \<noteq> None" "chunks h1 dev \<noteq> None"
      using new_objectD(4,8) [OF n] dev by auto
    show ?case
      unfolding set_frame_def r option.case
      using al len out n
      by (simp add: MAX_DEVICE_FRAMES_def)
         ((intro app_intro mmap_nothing_bindI wp_retI;
           simp add: same_device_def no_buffers_def new_objectD(6,7) steady_def)+,
          rule disjI2, rule exI [of _ f], simp)
  qed
qed

lemma setup_buffers_spec:
  assumes ok: "app_ok h K" and dev: "dev \<in> dom (chunks h)"
    and len: "vb_length (dv_buf (dev_mem (outside h) dev)) = 0"
  shows "wp (may_end h) (av_device_setup_buffers (Some dev)) (\<lambda>r h'.
    r = -1 \<and> same_device dev h h' \<and> no_buffers dev h K h') h"
proof -
  have al: "chunks h dev \<noteq> None" using dev by auto
  have loop: "wp (may_end h) (map_buffers [0..<unat c] dev) (\<lambda>r h'.
      r = -1 \<and> same_device dev h h' \<and> no_buffers dev h K h') g"
    if g: "app_ok g K" "chunks g = chunks h" "same_device dev h g" "oom g = oom h" "next_addr g = next_addr h"
      and same: "frame_mem (outside g) = frame_mem (outside h)"
        "dv_frames (dev_mem (outside g) dev) = dv_frames (dev_mem (outside h) dev)"
        "vb_length (dv_buf (dev_mem (outside g) dev)) = 0" and c: "2 < c" for g and c :: u32
  proof -
    have "0 < unat c" using c by (simp add: word_less_nat_alt)
    then have "[0..<unat c] = 0 # [1..<unat c]" by (simp add: upt_conv_Cons)
    moreover have "may_end g = may_end h" using g by (simp add: may_end_def fun_eq_iff)
    moreover have "same_device dev h h' \<and> no_buffers dev h K h'"
      if "same_device dev g h' \<and> no_buffers dev g K h'" for h'
      using that g same
      by (auto simp: same_device_def no_buffers_def new_object_def context_of_def intro: steady_trans)
    ultimately show ?thesis
      using map_first_fails [OF g(1) _ same(3), of "[1..<unat c]"] dev g(2)
      by (auto elim!: wp_mono)
  qed
  show ?thesis
    unfolding av_device_setup_buffers_def
    using al ok len
    by ((intro app_intro wp_assert_ptrI wp_splitI wp_ifI wp_assertI loop wp_retI;
        simp add: same_device_def no_buffers_def steady_def)+)
qed

section \<open>Creating a device\<close>

lemma device_new_spec:
  assumes ok: "app_ok h K" and ctxt: "\<And>p. context_of h server = Some p \<Longrightarrow> p \<in> dom (chunks h)"
  shows "wp (\<lambda>e. e = Segv \<and> oom h (ticks h)) (av_device_new server) (\<lambda>r h'.
    \<not> oom h (ticks h) \<and> r = Some (next_addr h) \<and> new_object DESTROY_device server h K (next_addr h) h' \<and>
    outside h' = (outside h)\<lparr>dev_mem := (dev_mem (outside h))(next_addr h := zero_device)\<rparr>) h"
proof -
  have sz: "sizeof_av_device < MAX_TALLOC_SIZE" by (simp add: sizeof_av_device_def MAX_TALLOC_SIZE_def)
  show ?thesis
    unfolding av_device_new_def
    by (rule new_cleared_spec [OF ok ctxt sz _ refl,
        where g = "\<lambda>w. w\<lparr>dev_mem := (dev_mem w)(next_addr h := zero_device)\<rparr>"])
      (auto simp: upd_device_def on_block_def prog_defs)
qed

section \<open>Setting a device up\<close>

lemma sys_open_cases:
  assumes "sys_open path s = (fd, s')"
  shows "env s' = env s \<and> maps s' = maps s \<and>
    ((fd = -1 \<and> fds s' = fds s) \<or>
     (\<exists>f. devs (env s) path = Some f \<and> fd = int (next_fd s) \<and> fds s' = (fds s)(int (next_fd s) := Some f)))"
  using assms by (auto simp: sys_open_def syscall_def act_defs split: option.splits)

lemma open_bindI [app_intro]:
  assumes "\<And>fd s. env s = env (w_os (outside h)) \<and> maps s = maps (w_os (outside h)) \<and>
      ((fd = -1 \<and> fds s = fds (w_os (outside h))) \<or>
       (\<exists>f. devs (env (w_os (outside h))) path = Some f \<and> fd = int (next_fd (w_os (outside h))) \<and>
          fds s = (fds (w_os (outside h)))(int (next_fd (w_os (outside h))) := Some f))) \<Longrightarrow> wp E (k fd) Q (put_os s h)"
  shows "wp E (pbind (on_os (pcall (sys_open path))) k) Q h"
proof -
  obtain fd s where o: "sys_open path (w_os (outside h)) = (fd, s)" by (cases "sys_open path (w_os (outside h))")
  have "wp E (k fd) Q (put_os s h)" by (rule assms) (rule sys_open_cases [OF o])
  then show ?thesis by (simp add: wp_pbind wp_on_os wp_pcall o put_os_def)
qed

lemma calloc_bindI [app_intro]:
  "(oom h (ticks h) \<Longrightarrow> E Segv) \<Longrightarrow>
   wp E (k \<lparr>sp_type = 0, sp_numerator = 0, sp_denominator = 0\<rparr>) Q (h\<lparr>ticks := Suc (ticks h)\<rparr>) \<Longrightarrow>
     wp E (pbind calloc_streamparm k) Q h"
  by (simp add: calloc_streamparm_def wp_rules)

lemma app_ok_ticks [simp]: "app_ok (h\<lparr>ticks := n\<rparr>) K = app_ok h K"
  by (simp add: app_ok_def rep_ticks)

text \<open>The descriptor of the device: none, or the newest one, of the file at \<open>path\<close>.\<close>

definition opened :: "addr \<Rightarrow> string \<Rightarrow> app \<Rightarrow> app \<Rightarrow> bool" where
  "opened dev path h h' \<longleftrightarrow>
     (\<exists>f. devs (env (w_os (outside h))) path = Some f \<and>
        dv_fd (dev_mem (outside h') dev) = int (next_fd (w_os (outside h))) \<and>
        fds (w_os (outside h')) = (fds (w_os (outside h)))(int (next_fd (w_os (outside h))) := Some f))"

definition not_opened :: "addr \<Rightarrow> app \<Rightarrow> app \<Rightarrow> bool" where
  "not_opened dev h h' \<longleftrightarrow>
     dv_fd (dev_mem (outside h') dev) = -1 \<and> fds (w_os (outside h')) = fds (w_os (outside h))"

text \<open>What \<open>av_device_setup_from_path\<close> leaves alone, whatever it returns.\<close>

definition setup_frame :: "addr \<Rightarrow> app \<Rightarrow> app \<Rightarrow> bool" where
  "setup_frame dev h h' \<longleftrightarrow> env (w_os (outside h')) = env (w_os (outside h)) \<and>
     maps (w_os (outside h')) = maps (w_os (outside h)) \<and>
     (\<forall>b. b \<noteq> dev \<longrightarrow> dev_mem (outside h') b = dev_mem (outside h) b) \<and>
     oom h' = oom h \<and> null_context h' = null_context h"

definition captures :: "v4l2_capability \<Rightarrow> bool" where
  "captures c \<longleftrightarrow> capabilities c AND V4L2_CAP_VIDEO_CAPTURE \<noteq> 0 \<and>
     capabilities c AND V4L2_CAP_STREAMING \<noteq> 0"

definition set_up :: "addr \<Rightarrow> string \<Rightarrow> app \<Rightarrow> links \<Rightarrow> int \<Rightarrow> app \<Rightarrow> bool" where
  "set_up dev path h K r h' \<longleftrightarrow> setup_frame dev h h' \<and>
     ((r = -1 \<and> app_ok h' K \<and> chunks h' = chunks h \<and> (not_opened dev h h' \<or> opened dev path h h')) \<or>
      (r = 0 \<and> opened dev path h h' \<and> captures (dv_cap (dev_mem (outside h') dev)) \<and>
         no_buffers dev h K h'))"

lemmas set_up_defs = set_up_def setup_frame_def opened_def not_opened_def captures_def

lemma buffers_set_up:
  assumes "app_ok g K" and "chunks g = chunks h" and "next_addr g = next_addr h" and "setup_frame dev h g"
    and "opened dev path h g" and "captures (dv_cap (dev_mem (outside g) dev))"
    and "frame_mem (outside g) = frame_mem (outside h)"
    and "dv_frames (dev_mem (outside g) dev) = dv_frames (dev_mem (outside h) dev)"
    and "same_device dev g h'" and "no_buffers dev g K h'"
  shows "set_up dev path h K 0 h'"
proof -
  have "no_buffers dev h K h'"
    using assms by (auto simp: no_buffers_def new_object_def context_of_def setup_frame_def)
  then show ?thesis using assms by (auto simp: set_up_defs same_device_def steady_def)
qed

lemma setup_from_path_spec:
  assumes ok: "app_ok h K" and dev: "dev \<in> dom (chunks h)"
    and len: "vb_length (dv_buf (dev_mem (outside h) dev)) = 0"
  shows "wp (may_end h) (av_device_setup_from_path dev path) (set_up dev path h K) h"
proof -
  have al: "chunks h dev \<noteq> None" using dev by auto
  have last: "wp (may_end h) (pthen (av_device_setup_buffers (Some dev)) (pret 0)) (set_up dev path h K) g"
    if g: "app_ok g K" "chunks g = chunks h" "next_addr g = next_addr h" "setup_frame dev h g"
      "opened dev path h g" "captures (dv_cap (dev_mem (outside g) dev))"
      "frame_mem (outside g) = frame_mem (outside h)"
      "dv_frames (dev_mem (outside g) dev) = dv_frames (dev_mem (outside h) dev)"
      and len': "vb_length (dv_buf (dev_mem (outside g) dev)) = 0" for g
  proof -
    have "may_end g = may_end h" using g(4) by (simp add: may_end_def setup_frame_def fun_eq_iff)
    moreover have "dev \<in> dom (chunks g)" using dev g(2) by simp
    note setup_buffers_spec [OF g(1) this len']
    ultimately have "wp (may_end h) (av_device_setup_buffers (Some dev))
        (\<lambda>r h'. r = -1 \<and> same_device dev g h' \<and> no_buffers dev g K h') g" by simp
    then show ?thesis
      by (rule wp_bindI) (auto simp: wp_pret intro: buffers_set_up [OF g])
  qed
  show ?thesis
    unfolding av_device_setup_from_path_def
    using al ok len
    by ((intro app_intro wp_splitI wp_ifI last wp_retI; simp add: set_up_defs steady_def)+, blast)
qed

section \<open>Freeing a device\<close>

text \<open>A device whose blocks below it are frames, none of them the null context.\<close>

definition device_block :: "app \<Rightarrow> links \<Rightarrow> addr \<Rightarrow> bool" where
  "device_block h K d \<longleftrightarrow>
     map_option tc_destructor (chunks h d) = Some (D_user DESTROY_device) \<and>
     (\<forall>b \<in> below K d. null_context h \<noteq> Some b \<and>
        (b \<noteq> d \<longrightarrow> map_option tc_destructor (chunks h b) = Some (D_user DESTROY_frame)))"

definition frame_goodbye :: log_msg where
  "frame_goodbye = Log_msg 4 ''av_frame_destroy'' ''destroying av_frame %p''"

lemma destroy_frames:
  assumes "user_destructor h = app_destructor"
    and "\<And>b. b \<in> set S \<Longrightarrow> map_option tc_destructor (chunks h b) = Some (D_user DESTROY_frame)"
  shows "fold (destroy h) S w = w\<lparr>w_os := (w_os w)\<lparr>logs := logs (w_os w) @ replicate (length S) frame_goodbye\<rparr>\<rparr>"
  using assms(2)
proof (induction S arbitrary: w)
  case (Cons b S)
  then obtain c where "chunks h b = Some c" "tc_destructor c = D_user DESTROY_frame" by auto
  then have "destroy h b w = w\<lparr>w_os := (w_os w)\<lparr>logs := logs (w_os w) @ [frame_goodbye]\<rparr>\<rparr>"
    using assms(1) by (simp add: destroy_def destroy_defs av_frame_destroy_def put_log_def frame_goodbye_def)
  then show ?case using Cons by simp
qed simp

lemma frame_agrees:
  "user_destructor h = app_destructor \<Longrightarrow>
   map_option tc_destructor (chunks h b) = Some (D_user DESTROY_frame) \<Longrightarrow> agrees h b"
  by (auto simp: agrees_def destroy_defs av_frame_destroy_def)

lemma prune_no_references: "prune S (\<lambda>_. []) = (\<lambda>_. [])"
  by (simp add: prune_def fun_eq_iff)

lemma device_free_spec:
  assumes ok: "app_ok h K" and d: "device_block h K d"
    and cl: "sys_close (dv_fd (dev_mem (outside h) d)) (w_os (outside h)) = (r, s)"
  shows "r = -1 \<Longrightarrow> talloc_free (Some d) h = Ok (-1) (put_os s h)"
    and "r \<noteq> -1 \<Longrightarrow> \<exists>h'. talloc_free (Some d) h = Ok 0 h' \<and> app_ok h' (prune (below K d) K) \<and>
      dom (chunks h') = dom (chunks h) - below K d \<and> outside h' = (outside h)\<lparr>w_os :=
        s\<lparr>logs := logs s @ replicate (card (below K d) - 1) frame_goodbye\<rparr>\<rparr> \<and>
      (\<forall>b. b \<notin> below K d \<longrightarrow> map_option tc_destructor (chunks h' b) = map_option tc_destructor (chunks h b)) \<and>
      null_context h' = null_context h \<and> oom h' = oom h"
proof -
  note r0 = app_okD(1) [OF ok] and ud = app_okD(2) [OF ok]
  obtain c where c: "chunks h d = Some c" "tc_destructor c = D_user DESTROY_device"
    using d by (auto simp: device_block_def)
  have call: "user_destructor h DESTROY_device d (outside h) = (r, (outside h)\<lparr>w_os := s\<rparr>)"
    using ud cl by (simp add: destroy_defs av_device_destroy_def)
  show "talloc_free (Some d) h = Ok (-1) (put_os s h)" if "r = -1"
    using free_refused [OF r0 c _ call [unfolded that]] by (simp add: put_os_def)
  show "\<exists>h'. talloc_free (Some d) h = Ok 0 h' \<and> app_ok h' (prune (below K d) K) \<and>
      dom (chunks h') = dom (chunks h) - below K d \<and> outside h' = (outside h)\<lparr>w_os :=
        s\<lparr>logs := logs s @ replicate (card (below K d) - 1) frame_goodbye\<rparr>\<rparr> \<and>
      (\<forall>b. b \<notin> below K d \<longrightarrow> map_option tc_destructor (chunks h' b) = map_option tc_destructor (chunks h b)) \<and>
      null_context h' = null_context h \<and> oom h' = oom h" if r: "r \<noteq> -1"
  proof -
    have frames: "map_option tc_destructor (chunks h b) = Some (D_user DESTROY_frame)"
      if "b \<in> below K d" "b \<noteq> d" for b using d that by (simp add: device_block_def)
    have dest: "destroy h d (outside h) = (outside h)\<lparr>w_os := s\<rparr>"
      using c call by (simp add: destroy_def)
    have agr: "all_agree h S (outside h)" if S: "distinct S" "set S = below K d" "hd S = d" for S
    proof -
      obtain T where T: "S = d # T" using S below_refl [of d K] by (cases S) auto
      then have "agrees h b" if "b \<in> set T" for b
        using S that by (intro frame_agrees [OF ud frames]) auto
      moreover have "agrees_at h d (outside h)" using c call r by (simp add: agrees_at_def)
      ultimately show ?thesis using T by (simp add: agrees_all_agree)
    qed
    have nr: "(\<lambda>_. []) b = ([] :: addr list) \<and> null_context h \<noteq> Some b" if "b \<in> below K d" for b
      using d that by (simp add: device_block_def)
    have dd: "d \<in> dom (chunks h)" using c by auto
    obtain h' S where h': "talloc_free (Some d) h = Ok 0 h'" "set S = below K d" "distinct S"
      "sorted_wrt (\<lambda>x y. x \<notin> below K y) S" "outside h' = fold (destroy h) S (outside h)"
      "rep {} h' (prune (below K d) K) (prune (below K d) (\<lambda>_. []))" "survives (below K d) h h'"
      "dom (chunks h') = dom (chunks h) - below K d"
      using free_subtree_run [OF r0 dd nr agr] by blast
    obtain T where T: "S = d # T"
    proof (cases S)
      case (Cons x T)
      have "x = d"
      proof (rule ccontr)
        assume "x \<noteq> d"
        then have "d \<in> set T" using h'(2) Cons below_refl [of d K] by auto
        then have "x \<notin> below K d" using h'(4) Cons by simp
        then show False using h'(2) Cons by auto
      qed
      then show thesis using that Cons by blast
    qed (use h'(2) below_refl [of d K] in auto)
    have "length T = card (below K d) - 1" using h'(2,3) T distinct_card [of S] by simp
    moreover have "map_option tc_destructor (chunks h b) = Some (D_user DESTROY_frame)" if "b \<in> set T" for b
      using frames [of b] h'(2,3) T that by auto
    ultimately have "outside h' = (outside h)\<lparr>w_os :=
        s\<lparr>logs := logs s @ replicate (card (below K d) - 1) frame_goodbye\<rparr>\<rparr>"
      using h'(5) T dest destroy_frames [OF ud, of T "(outside h)\<lparr>w_os := s\<rparr>"] by simp
    moreover have "app_ok h' (prune (below K d) K)"
      using h'(6,7) ud survives_frame(1) [OF h'(7)] by (simp add: app_ok_def prune_no_references)
    ultimately show ?thesis
      using h' survives_destructor [OF h'(7)] by (auto simp: survives_def)
  qed
qed

section \<open>A device nobody else knows of\<close>

lemma new_device_alone:
  assumes ok: "app_ok h K" and ctxt: "\<And>p. context_of h ctxt = Some p \<Longrightarrow> p \<in> dom (chunks h)"
    and new: "new_object DESTROY_device ctxt h K d h'"
  shows "below (add_opt (context_of h ctxt) d K) d = {d}" and "prune {d} (add_opt (context_of h ctxt) d K) = K"
    and "device_block h' (add_opt (context_of h ctxt) d K) d" and "d \<in> dom (chunks h')"
proof -
  let ?K = "add_opt (context_of h ctxt) d K"
  note r = app_okD(1) [OF ok] and n = new_objectD [OF new]
  have d: "d \<notin> dom (chunks h)" using n(2) by (simp add: domIff)
  have kids: "K d = []" "d \<notin> set (K p)" for p
    using lists_okD(5) [OF repD(4) [OF r] d] rep_kid_chunk [OF r, of d p] n(2) by auto
  have "context_of h ctxt \<noteq> Some d" using ctxt d by auto
  then have "?K d = []" using kids by (auto simp: add_opt_def add_kid_def split: option.splits)
  then show b: "below ?K d = {d}" by (rule below_root_kids)
  show "prune {d} ?K = K"
  proof
    fix p
    have "filter (\<lambda>b. b \<noteq> d) (K p) = K p" using kids(2) [of p] by (auto simp: filter_id_conv)
    then show "prune {d} ?K p = K p"
      using kids by (auto simp: prune_def add_opt_def add_kid_def split: option.splits)
  qed
  show "device_block h' ?K d"
    using b n(4,6) d rep_world(3) [OF r, of d] by (auto simp: device_block_def)
  show "d \<in> dom (chunks h')" using n(4) by auto
qed

end
