(* ===== verification/Device_Props.thy ===== *)
theory Device_Props
  imports Device_Spec Demo
begin

text \<open>
  The properties of devices and frames, each with an instance on a machine that has the video device
  /dev/video0 and a heap with one block, the server.
\<close>

section \<open>A small heap\<close>

definition demo_chunk :: "destructor \<Rightarrow> talloc_chunk" where
  "demo_chunk d = \<lparr>tc_next = None, tc_prev = None, tc_parent = None, tc_child = None, tc_refs = None,
     tc_destructor = d, tc_name = N_null, tc_size = 8, tc_flags = TALLOC_MAGIC\<rparr>"

definition demo_app :: "nat \<Rightarrow> (nat \<Rightarrow> bool) \<Rightarrow> app" where
  "demo_app f fails = \<lparr>chunks = [0 \<mapsto> demo_chunk (D_user f)],
     handles = Map.empty, payload = (\<lambda>_. []), next_addr = 1, null_context = None,
     autofree_context = None, tc_lock = False, locked = False, oom = fails,
     moves = (\<lambda>_. False), junk = (\<lambda>_. 0), ticks = 0, exit_handlers = [], external_realloc = None,
     user_destructor = app_destructor,
     outside = \<lparr>w_os = demo_os, dev_mem = (\<lambda>_. zero_device\<lparr>dv_fd := 3\<rparr>), frame_mem = (\<lambda>_. zero_frame),
       server_mem = (\<lambda>_. zero_server), buffers = Map.empty, next_buffer = 0\<rparr>\<rparr>"

lemma demo_app_simps [simp]:
  "dom (chunks (demo_app f fails)) = {0}" "null_context (demo_app f fails) = None"
  "oom (demo_app f fails) = fails" "next_addr (demo_app f fails) = 1" "ticks (demo_app f fails) = 0"
  "chunks (demo_app f fails) 0 = Some (demo_chunk (D_user f))" "w_os (outside (demo_app f fails)) = demo_os"
  "dev_mem (outside (demo_app f fails)) a = zero_device\<lparr>dv_fd := 3\<rparr>"
  "frame_mem (outside (demo_app f fails)) a = zero_frame"
  "server_mem (outside (demo_app f fails)) a = zero_server"
  "buffers (outside (demo_app f fails)) b = None" "maps demo_os = Map.empty"
  by (auto simp: demo_app_def demo_os_def)

lemma demo_app_ok: "app_ok (demo_app f fails) (\<lambda>_. [])"
proof -
  have kid: "kid (\<lambda>_. []) = {}" by (auto simp: kid_def)
  have "forest {0} (\<lambda>_. [])"
    by (auto simp: forest_def lists_ok_def kid acyclic_def)
  moreover have "chunk_ok {} (\<lambda>_. []) (\<lambda>_. []) a c" if "chunks (demo_app f fails) a = Some c" for a c
    using that
    by (auto simp: demo_app_def demo_chunk_def chunk_ok_def own_ok_def is_root_def split: if_splits)
  moreover have "world_ok (demo_app f fails)" by (auto simp: world_ok_def demo_app_def split: if_splits)
  ultimately show ?thesis unfolding app_ok_def rep_def by (simp add: lists_ok_def demo_app_def)
qed

section \<open>Opening a device\<close>

text \<open>The devices a call to \<open>av_device_new_from_path\<close> can return, and what is left when it fails.\<close>

definition new_device :: "addr \<Rightarrow> string \<Rightarrow> app \<Rightarrow> links \<Rightarrow> app \<Rightarrow> bool" where
  "new_device d path h K h' \<longleftrightarrow> opened d path h h' \<and> captures (dv_cap (dev_mem (outside h') d)) \<and>
     ((dv_frames (dev_mem (outside h') d) = replicate MAX_DEVICE_FRAMES None \<and> app_ok h' K) \<or>
      (\<exists>f. dv_frames (dev_mem (outside h') d) = (replicate MAX_DEVICE_FRAMES None)[0 := Some f] \<and>
         app_ok h' (add_kid d f K) \<and> fr_mem (frame_mem (outside h') f) = MapFailed))"

definition gave_up :: "addr \<Rightarrow> app \<Rightarrow> links \<Rightarrow> links \<Rightarrow> app \<Rightarrow> bool" where
  "gave_up d h K K' h' \<longleftrightarrow>
     (app_ok h' K \<and> dom (chunks h') = dom (chunks h) \<and> fds (w_os (outside h')) = fds (w_os (outside h))) \<or>
     (app_ok h' K' \<and> dom (chunks h') = insert d (dom (chunks h)))"

lemma close_maps: "sys_close fd s = (r, s') \<Longrightarrow> maps s' = maps s"
  by (auto simp: sys_close_def act_defs split: option.splits if_splits)

lemma close_ok: "sys_close fd s = (r, s') \<Longrightarrow> r \<noteq> -1 \<Longrightarrow> fds s fd \<noteq> None \<and> fds s' = (fds s)(fd := None)"
  by (auto simp: sys_close_def act_defs split: option.splits if_splits)

lemma os_ok_negative_fd:
  assumes "os_ok s"
  shows "fds s (-1) = None"
proof (rule ccontr)
  assume "fds s (-1) \<noteq> None"
  then obtain f where f: "fds s (-1) = Some f" by auto
  have "0 \<le> fd" if "fds s fd = Some f" for fd using assms that by (simp add: os_ok_def fds_ok_def)
  from this [OF f] show False by simp
qed

text \<open>Freeing the device after a failed setup.\<close>

lemma setup_failed_free:
  assumes blk: "device_block g K' d" "below K' d = {d}" "prune {d} K' = K" and ok: "app_ok g K'"
    and dom: "dom (chunks g) = insert d (dom (chunks h))" "d \<notin> dom (chunks h)"
    and fd: "not_opened d h g \<or> opened d path h g" and os: "os_ok (w_os (outside h))"
  shows "wp E (pthen (talloc_free (Some d)) (pret None)) (\<lambda>r h'. r = None \<and>
    maps (w_os (outside h')) = maps (w_os (outside g)) \<and> gave_up d h K K' h' \<and>
    (not_opened d h g \<longrightarrow> app_ok h' K' \<and> dom (chunks h') = insert d (dom (chunks h)))) g"
proof -
  let ?s = "w_os (outside g)" and ?fd = "dv_fd (dev_mem (outside g) d)"
  obtain r s where cl: "sys_close ?fd ?s = (r, s)" by (cases "sys_close ?fd ?s")
  have m: "maps s = maps ?s" by (rule close_maps [OF cl])
  show ?thesis
  proof (cases "r = -1")
    case True
    have "talloc_free (Some d) g = Ok (-1) (put_os s g)" by (rule device_free_spec(1) [OF ok blk(1) cl True])
    then show ?thesis using ok dom m by (simp add: wp_def pbind_def pret_def gave_up_def)
  next
    case False
    obtain h' where h': "talloc_free (Some d) g = Ok 0 h'" "app_ok h' K"
      "dom (chunks h') = dom (chunks g) - {d}"
      "outside h' = (outside g)\<lparr>w_os := s\<lparr>logs := logs s @ replicate (card (below K' d) - 1) frame_goodbye\<rparr>\<rparr>"
      using device_free_spec(2) [OF ok blk(1) cl False] unfolding blk(2,3) by blast
    note c = close_ok [OF cl False]
    have neg: "fds (w_os (outside h)) (-1) = None"
      using os_ok_negative_fd [OF os] .
    have "fds s = fds (w_os (outside h)) \<and> \<not> not_opened d h g"
      using fd c neg os_ok_fresh_fd [OF os] by (auto simp: not_opened_def opened_def fun_upd_idem)
    then show ?thesis using h' dom m by (auto simp: wp_def pbind_def pret_def gave_up_def)
  qed
qed

lemma zero_device_simps [simp]:
  "vb_length (dv_buf zero_device) = 0" "dv_frames zero_device = replicate MAX_DEVICE_FRAMES None"
  by (simp_all add: zero_device_def zero_v4l2_buffer_def)

lemma new_from_path_spec:
  assumes ok: "app_ok h K" and ctxt: "\<And>p. context_of h server = Some p \<Longrightarrow> p \<in> dom (chunks h)"
    and os: "os_ok (w_os (outside h))"
  shows "wp (may_end h) (av_device_new_from_path server path) (\<lambda>r h'.
    maps (w_os (outside h')) = maps (w_os (outside h)) \<and>
    (case r of Some d \<Rightarrow> d = next_addr h \<and> new_device d path h (add_opt (context_of h server) d K) h'
     | None \<Rightarrow> gave_up (next_addr h) h K (add_opt (context_of h server) (next_addr h) K) h')) h"
proof -
  let ?d = "next_addr h" and ?K = "add_opt (context_of h server) (next_addr h) K"
  have new: "wp (may_end h) (av_device_new server) (\<lambda>r g. r = Some ?d \<and> new_object DESTROY_device server h K ?d g \<and>
      outside g = (outside (put_os s h))\<lparr>dev_mem := (dev_mem (outside h))(?d := zero_device)\<rparr>) (put_os s h)" for s
    by (rule wp_mono_stop [OF wp_mono [OF device_new_spec [of "put_os s h" K server]]])
      (use ok ctxt in \<open>auto simp: may_end_def\<close>)
  show ?thesis
    unfolding av_device_new_from_path_def
  proof (intro log_bindI, rule wp_bindI [OF new], goal_cases)
    case (1 s r g)
    then have r: "r = Some ?d" and n: "new_object DESTROY_device server h K ?d g"
      and out: "outside g = (outside (put_os s h))\<lparr>dev_mem := (dev_mem (outside h))(?d := zero_device)\<rparr>"
      and st: "steady (w_os (outside h)) s" by blast+
    note alone = new_device_alone [OF ok ctxt n]
    have g: "app_ok g ?K" "dom (chunks g) = insert ?d (dom (chunks h))" "?d \<notin> dom (chunks h)" "oom g = oom h"
      using new_objectD(2,3,7,8) [OF n] by auto
    have same: "w_os (outside g) = s" "dev_mem (outside g) ?d = zero_device" using out by auto
    have g_os: "env s = env (w_os (outside h))" "maps s = maps (w_os (outside h))"
      "fds s = fds (w_os (outside h))" "next_fd s = next_fd (w_os (outside h))"
      using st by (auto simp: steady_def)
    have mE: "may_end g = may_end h" using g(4) by (simp add: may_end_def fun_eq_iff)
    have run: "wp (may_end h) (av_device_setup_from_path ?d path) (set_up ?d path g ?K) g"
      using setup_from_path_spec [OF g(1) alone(4)] same(2) mE by simp
    show ?case
      unfolding r option.case
    proof (rule wp_bindI [OF run], goal_cases)
      case (1 ret k)
      have tr: "maps (w_os (outside k)) = maps (w_os (outside h))"
        "opened ?d path g k = opened ?d path h k" "not_opened ?d g k = not_opened ?d h k"
        using 1 same g_os by (auto simp: set_up_def setup_frame_def opened_def not_opened_def)
      show ?case
      proof (cases "ret = 0")
        case True
        then have "new_device ?d path h ?K k"
          using 1 same(2) tr(2) by (auto simp: set_up_def new_device_def no_buffers_def new_object_def
              context_of_def)
        then show ?thesis using True tr by (simp add: wp_rules)
      next
        case False
        then have f: "app_ok k ?K" "chunks k = chunks g" "null_context k = null_context g"
          "not_opened ?d h k \<or> opened ?d path h k"
          using 1 tr by (auto simp: set_up_def setup_frame_def)
        have "device_block k ?K ?d" using alone(3) f(2,3) by (simp add: device_block_def)
        from setup_failed_free [OF this alone(1,2) f(1) _ g(3) f(4) os] g(2) f(2)
        have "wp (may_end h) (pthen (talloc_free (Some ?d)) (pret None)) (\<lambda>r h'. r = (None :: addr option) \<and>
            maps (w_os (outside h')) = maps (w_os (outside k)) \<and> gave_up ?d h K ?K h') k"
          by (auto simp: wp_conj)
        then show ?thesis using False tr by simp (erule wp_mono, auto)
      qed
    qed
  qed
qed

text \<open>When the file cannot be opened, the descriptor of the device is -1, which cannot be closed.\<close>

lemma setup_open_fails:
  assumes "chunks h dev \<noteq> None" and "devs (env (w_os (outside h))) path = None"
  shows "wp never (av_device_setup_from_path dev path) (\<lambda>r h'. r = -1 \<and> not_opened dev h h' \<and>
    chunks h' = chunks h \<and> (\<forall>K. app_ok h' K = app_ok h K) \<and> null_context h' = null_context h \<and>
    maps (w_os (outside h')) = maps (w_os (outside h))) h"
  unfolding av_device_setup_from_path_def
  by ((intro app_intro wp_splitI wp_ifI wp_retI; (use assms in \<open>auto simp: not_opened_def steady_def\<close>)?)+)

lemma new_from_missing_path:
  assumes ok: "app_ok h K" and ctxt: "\<And>p. context_of h server = Some p \<Longrightarrow> p \<in> dom (chunks h)"
    and os: "os_ok (w_os (outside h))" and mem: "\<not> oom h (ticks h)"
    and missing: "devs (env (w_os (outside h))) path = None"
  shows "wp never (av_device_new_from_path server path) (\<lambda>r h'. r = None \<and>
    app_ok h' (add_opt (context_of h server) (next_addr h) K) \<and>
    dom (chunks h') = insert (next_addr h) (dom (chunks h))) h"
proof -
  let ?d = "next_addr h" and ?K = "add_opt (context_of h server) (next_addr h) K"
  have new: "wp never (av_device_new server) (\<lambda>r g. r = Some ?d \<and> new_object DESTROY_device server h K ?d g \<and>
      w_os (outside g) = s) (put_os s h)" for s
    by (rule wp_mono_stop [OF wp_mono [OF device_new_spec [of "put_os s h" K server]]])
      (use ok ctxt mem in auto)
  show ?thesis
    unfolding av_device_new_from_path_def
  proof (intro log_bindI, rule wp_bindI [OF new], goal_cases)
    case (1 s r g)
    then have r: "r = Some ?d" and n: "new_object DESTROY_device server h K ?d g" and g: "w_os (outside g) = s"
      and st: "env s = env (w_os (outside h))" "fds s = fds (w_os (outside h))"
      by (auto simp: steady_def)
    note alone = new_device_alone [OF ok ctxt n] and obj = new_objectD [OF n]
    have run: "wp never (av_device_setup_from_path ?d path) (\<lambda>r k. r = -1 \<and> not_opened ?d h k \<and>
        chunks k = chunks g \<and> app_ok k ?K \<and> null_context k = null_context g) g"
      by (rule wp_mono [OF setup_open_fails]) (use obj(3,4) missing st g in \<open>auto simp: not_opened_def\<close>)
    show ?case
      unfolding r option.case
    proof (rule wp_bindI [OF run], goal_cases)
      case (1 ret k)
      then have "device_block k ?K ?d" using alone(3) by (simp add: device_block_def)
      from setup_failed_free [OF this alone(1,2), of h path] 1 obj(2,8) os
      have "wp never (pthen (talloc_free (Some ?d)) (pret None)) (\<lambda>r h'. r = (None :: addr option) \<and>
          app_ok h' ?K \<and> dom (chunks h') = insert ?d (dom (chunks h))) k"
        by (auto simp: wp_conj domIff)
      then show ?case using 1 by simp
    qed
  qed
qed

section \<open>Taking a frame from the driver\<close>

definition dqbuf_request :: v4l2_buffer where
  "dqbuf_request = zero_v4l2_buffer\<lparr>vb_type := V4L2_BUF_TYPE_VIDEO_CAPTURE, vb_memory := V4L2_MEMORY_MMAP\<rparr>"

text \<open>The driver has answered the request for a buffer with \<open>b\<close>.\<close>

definition answered :: "os \<Rightarrow> v4l2_buffer \<Rightarrow> bool" where
  "answered s b \<longleftrightarrow> (\<exists>c n e a. driver (env s) c VIDIOC_DQBUF (Arg_buf dqbuf_request) = (n, e, a) \<and>
     0 \<le> n \<and> b = (case a of Arg_buf y \<Rightarrow> y | _ \<Rightarrow> dqbuf_request))"

lemma sys_ioctl_answer:
  assumes "sys_ioctl fd req arg s = ((n, a), s')" and "0 \<le> n"
  shows "\<exists>c e. driver (env s) c req arg = (n, e, a)"
  using assms
  by (auto simp: sys_ioctl_def syscall_def act_defs split: option.splits if_splits prod.splits)

lemma ioctl_dqbuf_spec:
  "wp (\<lambda>e. e = Diverge) (ioctl_dqbuf fd dqbuf_request) (\<lambda>(n, b) h'. \<exists>s. h' = put_os s h \<and>
     steady (w_os (outside h)) s \<and> (if n < 0 then errno s \<noteq> EINTR else answered (w_os (outside h)) b)) h"
proof -
  let ?s = "w_os (outside h)"
  have "wp (\<lambda>e. e = Diverge) (av_ioctl fd VIDIOC_DQBUF (Arg_buf dqbuf_request)) (\<lambda>(n, a) s. steady ?s s \<and>
      (if n < 0 then errno s \<noteq> EINTR
       else answered ?s (case a of Arg_buf y \<Rightarrow> y | _ \<Rightarrow> dqbuf_request))) ?s"
    unfolding av_ioctl_def
  proof (rule wp_retry [where P = "steady ?s"], goal_cases)
    case (3 w r w')
    then show ?case by (auto dest: sys_ioctl_steady intro: steady_trans)
  next
    case (4 w r w')
    have "steady ?s w'" using 4 by (auto dest: sys_ioctl_steady intro: steady_trans)
    moreover have "answered ?s (case snd r of Arg_buf y \<Rightarrow> y | _ \<Rightarrow> dqbuf_request)" if "\<not> fst r < 0"
    proof -
      have "sys_ioctl fd VIDIOC_DQBUF (Arg_buf dqbuf_request) w = ((fst r, snd r), w')" using 4 by simp
      moreover have "env w = env ?s" "0 \<le> fst r" using 4(1) that by (simp_all add: steady_def)
      ultimately obtain c e where "driver (env ?s) c VIDIOC_DQBUF (Arg_buf dqbuf_request) = (fst r, e, snd r)"
        using sys_ioctl_answer by metis
      then show ?thesis using that
        unfolding answered_def by (intro exI [of _ c] exI [of _ "fst r"] exI [of _ e] exI [of _ "snd r"]) simp
    qed
    ultimately show ?case using 4(3) by (auto simp: case_prod_beta)
  qed simp_all
  then show ?thesis
    by (auto simp: ioctl_dqbuf_def wp_rules put_os_def elim!: wp_mono)
qed



text \<open>
  A frame copied with \<open>av_frame_copy_all\<close> or with \<open>av_frame_copy_meta\<close> ends up the same: the two
  functions set the field order, the length, the sequence number, the timestamp and the timecode of the
  destination to those of the source and leave its memory, its reference count, its reserved fields and
  all other frames alone.
\<close>

lemma frame_copy_correct:
  assumes "chunks h dst \<noteq> None" and "chunks h src \<noteq> None"
  shows "\<exists>h'. av_frame_copy_meta dst src h = Ok 0 h' \<and> av_frame_copy_all dst src h = Ok 0 h' \<and>
    chunks h' = chunks h \<and> w_os (outside h') = w_os (outside h) \<and>
    (\<forall>a. a \<noteq> dst \<longrightarrow> frame_mem (outside h') a = frame_mem (outside h) a) \<and>
    (let s = frame_mem (outside h) src; d = frame_mem (outside h) dst; d' = frame_mem (outside h') dst in
      fr_field d' = fr_field s \<and> fr_length d' = fr_length s \<and> fr_sequence d' = fr_sequence s \<and>
      fr_timestamp d' = fr_timestamp s \<and> fr_timecode d' = fr_timecode s \<and> fr_mem d' = fr_mem d \<and>
      fr_refcount d' = fr_refcount d \<and> fr_reserved0 d' = fr_reserved0 d)"
  using assms by (simp add: copy_meta_run copy_all_run with_meta_def Let_def)

lemma frame_copy_correct_witness:
  "\<exists>h'. av_frame_copy_all 0 0 (demo_app DESTROY_frame (\<lambda>_. False)) = Ok 0 h' \<and>
     frame_mem (outside h') 5 = zero_frame \<and> fr_mem (frame_mem (outside h') 0) = Null"
  using frame_copy_correct [of "demo_app DESTROY_frame (\<lambda>_. False)" 0 0]
  by (auto simp: Let_def zero_frame_def)

section \<open>Opening and freeing\<close>


lemma demo_context: "context_of (demo_app f fails) (Some 0) = Some p \<Longrightarrow> p \<in> dom (chunks (demo_app f fails))"
  by (simp add: context_of_def)


text \<open>
  A path that cannot be opened leaves the device behind: the call returns null, but its block
  stays allocated under the server, since the destructor closes the descriptor -1, which fails, and
  \<open>talloc_free\<close> obeys the destructor.
\<close>

lemma device_leaks_on_missing_path:
  assumes "app_ok h K" and "\<And>p. context_of h server = Some p \<Longrightarrow> p \<in> dom (chunks h)"
    and "os_ok (w_os (outside h))" and "\<not> oom h (ticks h)"
    and "devs (env (w_os (outside h))) path = None"
  shows "wp never (av_device_new_from_path server path) (\<lambda>r h'. r = None \<and>
    app_ok h' (add_opt (context_of h server) (next_addr h) K) \<and>
    dom (chunks h') = insert (next_addr h) (dom (chunks h))) h"
  by (rule new_from_missing_path [OF assms])

lemma device_leaks_on_missing_path_witness:
  "\<exists>h'. av_device_new_from_path (Some 0) ''/dev/none'' (demo_app DESTROY_server (\<lambda>_. False)) = Ok None h' \<and>
     dom (chunks h') = {1, 0}"
  by (rule wp_neverE [OF device_leaks_on_missing_path
        [OF demo_app_ok demo_context, where path = "''/dev/none''"]])
    (auto simp: demo_env_def)

text \<open>
  C30: Freeing a device whose blocks below it are frames: when the descriptor can be closed, the device
  and all its frames are gone, every other block is kept, the descriptor is free again and each
  frame has said goodbye in the log; the memory of the frames stays mapped. When closing fails, the call
  fails too and no block is freed.
\<close>

theorem device_free_correct:
  assumes ok: "app_ok h K" and d: "device_block h K d"
    and cl: "sys_close (dv_fd (dev_mem (outside h) d)) (w_os (outside h)) = (r, s)"
  shows "if r = -1 then talloc_free (Some d) h = Ok (-1) (put_os s h)
    else \<exists>h'. talloc_free (Some d) h = Ok 0 h' \<and> app_ok h' (prune (below K d) K) \<and>
      dom (chunks h') = dom (chunks h) - below K d \<and>
      fds (w_os (outside h')) = (fds (w_os (outside h)))(dv_fd (dev_mem (outside h) d) := None) \<and>
      maps (w_os (outside h')) = maps (w_os (outside h)) \<and>
      logs (w_os (outside h')) = logs s @ replicate (card (below K d) - 1) frame_goodbye"
  using device_free_spec [OF ok d cl] close_ok [OF cl] close_maps [OF cl] by auto

lemma demo_device_block: "device_block (demo_app DESTROY_device fails) (\<lambda>_. []) 0"
  using below_root_kids [of "\<lambda>_. []" 0] by (simp add: device_block_def demo_chunk_def)

lemma device_free_correct_witness:
  "\<exists>h'. talloc_free (Some 0) (demo_app DESTROY_device (\<lambda>_. False)) = Ok 0 h' \<and> dom (chunks h') = {} \<and>
     fds (w_os (outside h')) 3 = None"
proof -
  obtain s where "sys_close 3 demo_os = (0, s)"
    by (simp add: sys_close_def demo_os_def Let_def)
  with device_free_correct [OF demo_app_ok demo_device_block, of "\<lambda>_. False" 0]
    below_root_kids [of "\<lambda>_. []" 0]
  show ?thesis by auto
qed

end
