(* ===== verification/Buffer.thy ===== *)
theory Buffer
  imports App "HOL-Library.Signed_Division"
begin

text \<open>
  src/buffer.c: a buffer for messages that grows in steps of \<open>BUF_CHUNK\<close> bytes. Its fields are
  signed ints while the amount to grow by is a \<open>size_t\<close>, and the conversions are written out.
\<close>

definition BUF_CHUNK :: int where
  "BUF_CHUNK = 1024"

text \<open>\<open>malloc\<close> and \<open>realloc\<close>: a fresh part of the block holds anything; null when memory runs out.\<close>

definition heap_block :: "u8 list \<Rightarrow> nat \<Rightarrow> (app, u8 list option) prog" where
  "heap_block old sz =
     pbind (pgets (\<lambda>h. (oom h (ticks h),
              take sz old @ map (\<lambda>i. junk h (ticks h + i)) [length old..<sz]))) (\<lambda>(fails, bs).
     pthen (pmodify (\<lambda>h. h\<lparr>ticks := Suc (ticks h)\<rparr>))
       (pret (if fails then None else Some bs)))"

definition get_buffer :: "nat \<Rightarrow> (app, av_buffer) prog" where
  "get_buffer b = pbind (pgets (\<lambda>h. buffers (outside h) b)) pvalid"

definition put_buffer :: "nat \<Rightarrow> av_buffer option \<Rightarrow> (app, unit) prog" where
  "put_buffer b x = pmodify (\<lambda>h. h\<lparr>outside := (outside h)\<lparr>buffers := (buffers (outside h))(b := x)\<rparr>\<rparr>)"

definition buffer_init :: "(app, nat) prog" where
  "buffer_init =
     pbind (pgets (\<lambda>h. oom h (ticks h))) (\<lambda>fails.
     pthen (pmodify (\<lambda>h. h\<lparr>ticks := Suc (ticks h)\<rparr>))
    (pthen (av_assert (\<not> fails))
    (pbind (pgets (\<lambda>h. next_buffer (outside h))) (\<lambda>b.
     pthen (pmodify (\<lambda>h. h\<lparr>outside := (outside h)\<lparr>next_buffer := Suc b\<rparr>\<rparr>))
    (pthen (put_buffer b (Some \<lparr>bf_buf = None, bf_used = 0, bf_size = 0\<rparr>))
      (pret b))))))"

definition av_buffer_free :: "nat option \<Rightarrow> (app, unit) prog" where
  "av_buffer_free buf =
     (case buf of
        None \<Rightarrow> pret ()
      | Some b \<Rightarrow> pthen (get_buffer b) (put_buffer b None))"

text \<open>
  \<open>b->size += size\<close> adds in the width of \<open>size_t\<close> and keeps the low 32 bits; the step to the next
  chunk is a sum of ints, undefined when it overflows. A negative size is a huge one for \<open>malloc\<close>.
\<close>

definition next_chunk :: "u32 \<Rightarrow> int" where
  "next_chunk sz = sint sz + (BUF_CHUNK - sint sz smod BUF_CHUNK)"

definition av_buffer_grow :: "nat option \<Rightarrow> u64 \<Rightarrow> (app, int) prog" where
  "av_buffer_grow buf sz =
     (case buf of
        None \<Rightarrow> pret (-1)
      | Some b \<Rightarrow>
          pbind (get_buffer b) (\<lambda>x.
          if sz < scast (bf_size x) then pret 0
          else
            let new = next_chunk (ucast (scast (bf_size x) + sz :: u64)) in
            if 2 ^ 31 \<le> new then pstop Segv
            else
              pbind (if new < 0 then pret None
                     else heap_block (case bf_buf x of None \<Rightarrow> [] | Some bs \<Rightarrow> bs) (nat new)) (\<lambda>block.
              pthen (put_buffer b (Some \<lparr>bf_buf = block,
                  bf_used = (if bf_buf x = None then 0 else bf_used x), bf_size = word_of_int new\<rparr>))
             (pthen (av_assert (block \<noteq> None))
               (pret 0)))))"

section \<open>Buffers that hold what they say\<close>

definition buffer_ok :: "av_buffer \<Rightarrow> bool" where
  "buffer_ok x \<longleftrightarrow> 0 \<le> sint (bf_size x) \<and>
     (case bf_buf x of None \<Rightarrow> bf_size x = 0 | Some bs \<Rightarrow> length bs = unat (bf_size x))"

text \<open>The size of the chunks that \<open>n\<close> bytes take up, one more when they end with a chunk.\<close>

definition grown :: "nat \<Rightarrow> nat" where
  "grown n = (n div 1024 + 1) * 1024"

lemma grown_bounds: "n < grown n \<and> grown n \<le> n + 1024"
proof -
  have "n mod 1024 < 1024" "n div 1024 * 1024 + n mod 1024 = n" by simp_all
  then show ?thesis unfolding grown_def add_mult_distrib by linarith
qed

lemma next_chunk_grown:
  assumes "n < 2 ^ 31"
  shows "next_chunk (of_nat n) = int (grown n)"
proof -
  have "sint (of_nat n :: u32) = int n"
    using assms by (simp add: signed_of_nat signed_take_bit_int_eq_self)
  moreover have "int n smod 1024 = int (n mod 1024)"
    by (simp add: signed_modulo_int_def signed_divide_int_def zmod_int zdiv_int minus_div_mult_eq_mod [symmetric] sgn_if)
  moreover have "int (n div 1024 * 1024 + n mod 1024) = int n" by simp
  then have "int n + (1024 - int (n mod 1024)) = int (grown n)"
    unfolding grown_def of_nat_add of_nat_mult by simp
  ultimately show ?thesis by (simp add: next_chunk_def BUF_CHUNK_def)
qed

lemma buffer_size:
  fixes x :: u32
  assumes "0 \<le> sint x"
  shows "(scast x :: u64) = of_nat (unat x)" and "unat x < 2 ^ 31" and "sint x = int (unat x)"
proof -
  have "\<not> bit (uint x) 31" using assms by (simp add: sint_uint signed_take_bit_nonnegative_iff)
  moreover have "take_bit (Suc 31) (uint x) = uint x"
    using uint_bounded [of x] by (simp add: take_bit_int_eq_self_iff)
  ultimately have eq: "take_bit 31 (uint x) = uint x"
    using take_bit_Suc_from_most [of 31 "uint x"] by (metis add.left_neutral mult_zero_right of_bool_eq(1))
  then have sx: "sint x = uint x"
    using \<open>\<not> bit (uint x) 31\<close> by (simp add: sint_uint signed_take_bit_eq_if_positive)
  then show "sint x = int (unat x)" by simp
  have "uint x < 2 ^ 31" using take_bit_int_less_exp [of 31 "uint x"] unfolding eq .
  then have "int (unat x) < int (2 ^ 31)" by simp
  then show "unat x < 2 ^ 31" by (simp only: of_nat_less_iff)
  show "(scast x :: u64) = of_nat (unat x)"
  proof -
    have "(scast x :: u64) = of_int (sint x)" by simp
    also have "\<dots> = of_int (uint x)" by (simp only: sx)
    also have "\<dots> = of_nat (unat x)" by simp
    finally show ?thesis .
  qed
qed

lemma ucast_of_nat_u64: "ucast (of_nat k :: u64) = (of_nat k :: u32)"
  by (rule bit_word_eqI) (simp add: bit_simps)

text \<open>What growing a buffer leaves as it is.\<close>

definition same_but_buffers :: "app \<Rightarrow> app \<Rightarrow> bool" where
  "same_but_buffers h h' \<longleftrightarrow> w_os (outside h') = w_os (outside h) \<and> chunks h' = chunks h \<and>
     server_mem (outside h') = server_mem (outside h) \<and> oom h' = oom h \<and> next_buffer (outside h') = next_buffer (outside h)"

text \<open>Growing a buffer that holds what it says, by an amount that does not overflow an int.\<close>

lemma buffer_grow_run:
  assumes b: "buffers (outside h) b = Some x" and ok: "buffer_ok x"
    and sz: "unat (bf_size x) \<le> unat sz" and bound: "unat (bf_size x) + unat sz < 2 ^ 31 - 1024"
    and mem: "\<not> oom h (ticks h)"
  shows "\<exists>h' bs y. av_buffer_grow (Some b) sz h = Ok 0 h' \<and> buffers (outside h') = (buffers (outside h))(b \<mapsto> y) \<and>
    bf_buf y = Some bs \<and> buffer_ok y \<and> unat (bf_size y) = grown (unat (bf_size x) + unat sz) \<and>
    take (unat (bf_size x)) bs = (case bf_buf x of None \<Rightarrow> [] | Some old \<Rightarrow> old) \<and>
    bf_used y = (if bf_buf x = None then 0 else bf_used x) \<and> same_but_buffers h h'"
proof -
  let ?n = "unat (bf_size x)" and ?m = "unat sz"
  let ?old = "case bf_buf x of None \<Rightarrow> [] | Some old \<Rightarrow> old"
  have pos: "0 \<le> sint (bf_size x)" using ok by (simp add: buffer_ok_def)
  have sc: "(scast (bf_size x) :: u64) = of_nat ?n" by (rule buffer_size(1) [OF pos])
  have n: "?n < 2 ^ 31" by (rule buffer_size(2) [OF pos])
  have "unat (of_nat ?n :: u64) = ?n" using n by (simp add: unsigned_ucast_eq take_bit_nat_eq_self)
  then have big: "\<not> sz < scast (bf_size x)" using sz sc by (simp add: word_less_nat_alt not_less)
  have sum: "ucast (scast (bf_size x) + sz :: u64) = (of_nat (?n + ?m) :: u32)"
  proof -
    have "scast (bf_size x) + sz = (of_nat (?n + ?m) :: u64)" by (simp add: sc)
    then show ?thesis by (simp only: ucast_of_nat_u64)
  qed
  let ?g = "grown (?n + ?m)"
  have g: "?n + ?m < ?g" "?g \<le> ?n + ?m + 1024"
    using grown_bounds [of "?n + ?m"] by simp_all
  have nc: "next_chunk (of_nat (?n + ?m)) = int ?g" by (rule next_chunk_grown) (use bound in linarith)
  then have nc': "next_chunk (bf_size x + ucast sz) = int ?g" by simp
  have len: "length ?old = ?n" using ok by (auto simp: buffer_ok_def split: option.splits)
  have g31: "?g < 2 ^ 31" using g(2) bound by linarith
  let ?bs = "take ?g ?old @ map (\<lambda>i. junk h (ticks h + i)) [length ?old..<?g]"
  let ?y = "\<lparr>bf_buf = Some ?bs, bf_used = (if bf_buf x = None then 0 else bf_used x), bf_size = word_of_int (int ?g)\<rparr>"
  have "av_buffer_grow (Some b) sz h = Ok 0 (h\<lparr>ticks := Suc (ticks h), outside :=
      (outside h)\<lparr>buffers := (buffers (outside h))(b \<mapsto> ?y)\<rparr>\<rparr>)"
    using b big mem g31
    by (simp add: av_buffer_grow_def get_buffer_def put_buffer_def heap_block_def sum nc' Let_def prog_defs)
  moreover have size: "unat (word_of_int (int ?g) :: u32) = ?g"
    using g31 by (simp add: unat_of_nat take_bit_nat_eq_self)
  moreover have "length ?bs = ?g" using len g(1) by simp
  moreover have "sint (word_of_int (int ?g) :: u32) = int ?g"
    using g31 by (simp add: signed_of_nat signed_take_bit_int_eq_self)
  moreover have "take ?n ?bs = ?old" using len g(1) by simp
  ultimately show ?thesis by (intro exI conjI) (assumption | simp add: buffer_ok_def same_but_buffers_def)+
qed

lemma buffer_enough:
  assumes b: "buffers (outside h) b = Some x" and ok: "buffer_ok x" and sz: "unat sz < unat (bf_size x)"
  shows "av_buffer_grow (Some b) sz h = Ok 0 h"
proof -
  have pos: "0 \<le> sint (bf_size x)" using ok by (simp add: buffer_ok_def)
  have "unat (of_nat (unat (bf_size x)) :: u64) = unat (bf_size x)"
    using buffer_size(2) [OF pos] by (simp add: unsigned_ucast_eq take_bit_nat_eq_self)
  then have "sz < scast (bf_size x)" using sz buffer_size(1) [OF pos] by (simp add: word_less_nat_alt)
  then show ?thesis using b by (simp add: av_buffer_grow_def get_buffer_def prog_defs)
qed

text \<open>Growing a buffer whose contents fit it, whether or not the block changes.\<close>

definition contents :: "av_buffer \<Rightarrow> u8 list" where
  "contents x = (case bf_buf x of None \<Rightarrow> [] | Some bs \<Rightarrow> take (unat (bf_used x)) bs)"

definition fits :: "av_buffer \<Rightarrow> bool" where
  "fits x \<longleftrightarrow> buffer_ok x \<and> 0 \<le> sint (bf_used x) \<and> unat (bf_used x) \<le> unat (bf_size x)"

lemma fits_grow:
  assumes b: "buffers (outside h) b = Some x" and x: "fits x"
    and bound: "unat (bf_size x) + unat sz < 2 ^ 31 - 1024" and mem: "\<not> oom h (ticks h)"
  obtains h' y bs where "av_buffer_grow (Some b) sz h = Ok 0 h'" and "same_but_buffers h h'"
    and "buffers (outside h') = (buffers (outside h))(b \<mapsto> y)" and "bf_buf y = Some bs" and "bf_used y = bf_used x"
    and "length bs = (if unat sz < unat (bf_size x) then unat (bf_size x) else grown (unat (bf_size x) + unat sz))"
    and "take (unat (bf_used x)) bs = contents x" and "buffer_ok y"
proof (cases "unat sz < unat (bf_size x)")
  case True
  have ok: "buffer_ok x" using x by (simp add: fits_def)
  have "av_buffer_grow (Some b) sz h = Ok 0 h" by (rule buffer_enough [OF b ok True])
  moreover obtain bs where "bf_buf x = Some bs" "length bs = unat (bf_size x)"
    using ok True by (auto simp: buffer_ok_def split: option.splits)
  moreover have "(buffers (outside h))(b \<mapsto> x) = buffers (outside h)" using b by (rule fun_upd_idem)
  ultimately show thesis using that [of h x bs] True ok by (simp add: contents_def same_but_buffers_def)
next
  case False
  have ok: "buffer_ok x" using x by (simp add: fits_def)
  obtain h' bs y where g: "av_buffer_grow (Some b) sz h = Ok 0 h'" "buffers (outside h') = (buffers (outside h))(b \<mapsto> y)"
    "bf_buf y = Some bs" "buffer_ok y" "unat (bf_size y) = grown (unat (bf_size x) + unat sz)"
    "take (unat (bf_size x)) bs = (case bf_buf x of None \<Rightarrow> [] | Some old \<Rightarrow> old)"
    "bf_used y = (if bf_buf x = None then 0 else bf_used x)" "same_but_buffers h h'"
    using buffer_grow_run [OF b ok _ bound mem] False by (auto simp: not_less)
  have used: "bf_used x = 0" if "bf_buf x = None"
    using x that by (auto simp: fits_def buffer_ok_def unsigned_eq_0_iff)
  have "take (unat (bf_used x)) bs = take (unat (bf_used x)) (take (unat (bf_size x)) bs)"
    using x by (simp add: fits_def min_def)
  then have "take (unat (bf_used x)) bs = contents x"
    by (simp add: g(6) contents_def split: option.split)
  moreover have "length bs = unat (bf_size y)" using g(3,4) by (simp add: buffer_ok_def)
  ultimately show thesis using that [OF g(1,8,2,3)] g(4,5,7) False used by simp
qed

end
