(* ===== verification/Server.thy ===== *)
theory Server
  imports Buffer
begin

text \<open>
  src/server.c: creating the server, and the table of its clients with the set of descriptors
  \<open>select\<close> watches and the greatest of them. The functions on clients are disabled in the source by
  \<open>#if 0\<close>; those that the compiler could accept are modelled as they are written.
\<close>

text \<open>\<open>sizeof(struct av_server)\<close> on the LP64 target.\<close>

definition sizeof_av_server :: u64 where
  "sizeof_av_server = 16776"

definition av_server_new :: "(app, addr option) prog" where
  "av_server_new =
     pbind (talloc_named_const None sizeof_av_server (N_const ''struct av_server'')) (\<lambda>srv.
     if below_null srv then pthen (talloc_free srv) (pret None)
     else
       pbind (pvalid srv) (\<lambda>s.
       pthen (talloc_set_destructor s (D_user DESTROY_server))
      (pthen (upd_server s (\<lambda>_. zero_server))
        (pret srv))))"

text \<open>\<open>FD_SET\<close>, \<open>FD_CLR\<close> and \<open>FD_ISSET\<close>: a descriptor outside the set is undefined.\<close>

definition fd_valid :: "int \<Rightarrow> bool" where
  "fd_valid fd \<longleftrightarrow> 0 \<le> fd \<and> fd < 1024"

definition FD_ISSET :: "int \<Rightarrow> 1024 word \<Rightarrow> bool" where
  "FD_ISSET fd s = bit s (nat fd)"

definition FD_SET :: "int \<Rightarrow> 1024 word \<Rightarrow> 1024 word" where
  "FD_SET fd s = set_bit (nat fd) s"

definition FD_CLR :: "int \<Rightarrow> 1024 word \<Rightarrow> 1024 word" where
  "FD_CLR fd s = unset_bit (nat fd) s"

text \<open>
  \<open>av_server_client_add_by_fd\<close>: the descriptor indexes an array of 32 clients; the variable that is
  returned is never set, its value is whatever memory holds.
\<close>

definition uninitialised :: "(app, int) prog" where
  "uninitialised = pgets (\<lambda>h. sint (int_of_bytes (junk h (ticks h)) (junk h (ticks h + 1))
     (junk h (ticks h + 2)) (junk h (ticks h + 3))))"

definition av_server_client_add_by_fd :: "addr \<Rightarrow> int \<Rightarrow> (app, int) prog" where
  "av_server_client_add_by_fd srv fd =
     pthen (if fd_valid fd then pret () else pstop Segv)
    (pthen (upd_server srv (\<lambda>s. s\<lparr>sv_set := FD_SET fd (sv_set s)\<rparr>))
    (pthen (upd_server srv (\<lambda>s. if sv_max s < fd then s\<lparr>sv_max := fd\<rparr> else s))
    (pthen (if fd < int AV_MAX_CLIENTS then pret () else pstop Segv)
    (pthen (upd_server srv (\<lambda>s. s\<lparr>sv_clients := (sv_clients s)[nat fd := (sv_clients s ! nat fd)\<lparr>cl_fd := fd\<rparr>]\<rparr>))
    (pbind buffer_init (\<lambda>b.
     pthen (upd_server srv (\<lambda>s. s\<lparr>sv_clients := (sv_clients s)[nat fd := (sv_clients s ! nat fd)\<lparr>cl_msg := Some b\<rparr>]\<rparr>))
       uninitialised))))))"

text \<open>The loop looks for the greatest descriptor left; it visits \<open>i\<close>, \<open>i - 1\<close>, down to 0.\<close>

fun find_max :: "1024 word \<Rightarrow> nat \<Rightarrow> int option" where
  "find_max s 0 = None"
| "find_max s (Suc i) = (if FD_ISSET (int i) s then Some (int i) else find_max s i)"

definition av_server_client_remove_by_fd :: "addr \<Rightarrow> int \<Rightarrow> (app, unit) prog" where
  "av_server_client_remove_by_fd srv fd =
     pthen (if fd_valid fd then pret () else pstop Segv)
    (pthen (upd_server srv (\<lambda>s. s\<lparr>sv_set := FD_CLR fd (sv_set s)\<rparr>))
    (pbind (get_server srv) (\<lambda>s.
     if fd \<noteq> sv_max s then pret ()
     else
       (case find_max (sv_set s) (nat (sv_max s)) of
          None \<Rightarrow> pret ()
        | Some i \<Rightarrow> upd_server srv (\<lambda>s. s\<lparr>sv_max := i\<rparr>)))))"

section \<open>The set and its maximum\<close>

lemma fd_simps:
  "0 \<le> i \<Longrightarrow> 0 \<le> j \<Longrightarrow> FD_ISSET i (FD_SET j s) \<longleftrightarrow> FD_ISSET i s \<or> (i = j \<and> j < 1024)"
  "0 \<le> i \<Longrightarrow> 0 \<le> j \<Longrightarrow> FD_ISSET i (FD_CLR j s) \<longleftrightarrow> FD_ISSET i s \<and> i \<noteq> j"
  by (auto simp: FD_ISSET_def FD_SET_def FD_CLR_def bit_simps nat_eq_iff)

lemma fd_none [simp]: "\<not> FD_ISSET i 0"
  by (simp add: FD_ISSET_def)

lemma fd_in_range: "0 \<le> i \<Longrightarrow> FD_ISSET i s \<Longrightarrow> i < 1024"
  using bit_imp_le_length [of s "nat i"] by (auto simp: FD_ISSET_def)

lemma find_max_None: "find_max s n = None \<longleftrightarrow> (\<forall>i. 0 \<le> i \<and> i < int n \<longrightarrow> \<not> FD_ISSET i s)"
proof (induction n)
  case (Suc n)
  have "i < int (Suc n) \<longleftrightarrow> i = int n \<or> i < int n" for i by auto
  then show ?case using Suc by (auto intro: exI [of _ "int n"])
qed auto

lemma find_max_Some:
  "find_max s n = Some m \<Longrightarrow> 0 \<le> m \<and> m < int n \<and> FD_ISSET m s \<and> (\<forall>i. m < i \<and> i < int n \<longrightarrow> \<not> FD_ISSET i s)"
proof (induction n)
  case (Suc n)
  show ?case
  proof (cases "FD_ISSET (int n) s")
    case True
    then show ?thesis using Suc.prems by auto
  next
    case False
    then have "find_max s n = Some m" using Suc.prems by simp
    from Suc.IH [OF this] False show ?thesis
      by (metis int_ops(4) less_add_one nless_le order_less_trans zle_add1_eq_le add.commute)
  qed
qed simp

text \<open>
  \<open>max\<close> bounds the set, which is what \<open>select\<close> needs; it is a member of the set as long as the set
  has not become empty.
\<close>

definition covers :: "av_server \<Rightarrow> bool" where
  "covers s \<longleftrightarrow> 0 \<le> sv_max s \<and> (\<forall>i \<ge> 0. FD_ISSET i (sv_set s) \<longrightarrow> i \<le> sv_max s)"

definition max_member :: "av_server \<Rightarrow> bool" where
  "max_member s \<longleftrightarrow> FD_ISSET (sv_max s) (sv_set s)"

definition added :: "int \<Rightarrow> av_server \<Rightarrow> av_server" where
  "added fd s = s\<lparr>sv_set := FD_SET fd (sv_set s), sv_max := max (sv_max s) fd\<rparr>"

definition removed :: "int \<Rightarrow> av_server \<Rightarrow> av_server" where
  "removed fd s = (let s' = s\<lparr>sv_set := FD_CLR fd (sv_set s)\<rparr> in
     if fd \<noteq> sv_max s then s'
     else case find_max (sv_set s') (nat (sv_max s)) of None \<Rightarrow> s' | Some i \<Rightarrow> s'\<lparr>sv_max := i\<rparr>)"

lemma added_covers: "covers s \<Longrightarrow> 0 \<le> fd \<Longrightarrow> fd < 1024 \<Longrightarrow> covers (added fd s)"
  by (auto simp: covers_def added_def fd_simps max_def)

lemma removed_covers:
  assumes c: "covers s" and fd: "0 \<le> fd"
  shows "covers (removed fd s) \<and> sv_set (removed fd s) = FD_CLR fd (sv_set s) \<and>
    (max_member s \<longrightarrow> (\<exists>i \<ge> 0. FD_ISSET i (FD_CLR fd (sv_set s))) \<longrightarrow> max_member (removed fd s)) \<and>
    ((\<forall>i \<ge> 0. \<not> FD_ISSET i (FD_CLR fd (sv_set s))) \<longrightarrow> sv_max (removed fd s) = sv_max s)"
proof -
  let ?S = "FD_CLR fd (sv_set s)" and ?f = "find_max (FD_CLR fd (sv_set s)) (nat (sv_max s))"
  have le: "i \<le> sv_max s" "i \<noteq> fd" if "0 \<le> i" "FD_ISSET i ?S" for i
    using c fd that by (auto simp: covers_def fd_simps)
  have m: "0 \<le> sv_max s" using c by (simp add: covers_def)
  show ?thesis
  proof (cases "fd = sv_max s")
    case False
    then show ?thesis using c fd m
      by (auto simp: removed_def covers_def max_member_def fd_simps)
  next
    case True
    show ?thesis
    proof (cases ?f)
      case None
      have "\<not> FD_ISSET i ?S" if "0 \<le> i" for i
        using le [OF that] None True that by (auto simp: find_max_None)
      then show ?thesis using True None m by (auto simp: removed_def covers_def)
    next
      case (Some i)
      note f = find_max_Some [OF Some]
      have "j \<le> i" if "0 \<le> j" "FD_ISSET j ?S" for j
      proof (rule ccontr)
        assume "\<not> j \<le> i"
        moreover have "j < int (nat (sv_max s))" using le [OF that] True m by simp
        ultimately show False using f that(2) by auto
      qed
      then show ?thesis using True Some f by (auto simp: removed_def covers_def max_member_def)
    qed
  qed
qed

lemma server_new_spec:
  assumes ok: "app_ok h K"
  shows "wp (\<lambda>e. e = Segv \<and> oom h (ticks h)) av_server_new (\<lambda>r h'.
    \<not> oom h (ticks h) \<and> r = Some (next_addr h) \<and> new_object DESTROY_server None h K (next_addr h) h' \<and>
    outside h' = (outside h)\<lparr>server_mem := (server_mem (outside h))(next_addr h := zero_server)\<rparr>) h"
proof -
  have sz: "sizeof_av_server < MAX_TALLOC_SIZE" by (simp add: sizeof_av_server_def MAX_TALLOC_SIZE_def)
  have ctxt: "p \<in> dom (chunks h)" if "context_of h None = Some p" for p
    using that rep_world(3) [OF app_okD(1) [OF ok], of p] by (auto simp: context_of_def)
  show ?thesis
    unfolding av_server_new_def
    by (rule new_cleared_spec [OF ok ctxt sz _ refl,
        where g = "\<lambda>w. w\<lparr>server_mem := (server_mem w)(next_addr h := zero_server)\<rparr>"])
      (auto simp: upd_server_def on_block_def prog_defs)
qed

section \<open>The operations on the table\<close>

definition put_server :: "addr \<Rightarrow> av_server \<Rightarrow> app \<Rightarrow> app" where
  "put_server a s h = h\<lparr>outside := (outside h)\<lparr>server_mem := (server_mem (outside h))(a := s)\<rparr>\<rparr>"

lemma put_server_simps [simp]:
  "chunks (put_server a s h) = chunks h" "oom (put_server a s h) = oom h"
  "server_mem (outside (put_server a s h)) b = (if b = a then s else server_mem (outside h) b)"
  "put_server a s (put_server a t h) = put_server a s h"
  by (simp_all add: put_server_def)

lemma upd_server_run:
  "chunks h a \<noteq> None \<Longrightarrow> upd_server a g h = Ok () (put_server a (g (server_mem (outside h) a)) h)"
  by (simp add: upd_server_def on_block_def prog_defs put_server_def)

lemma remove_by_fd_run:
  assumes "chunks h srv \<noteq> None" and "fd_valid fd"
  shows "av_server_client_remove_by_fd srv fd h =
    Ok () (put_server srv (removed fd (server_mem (outside h) srv)) h)"
  using assms
  by (simp add: av_server_client_remove_by_fd_def upd_server_run get_server_def on_block_def
      removed_def pbind_def pret_def pgets_def Let_def split: option.split)

definition joined :: "int \<Rightarrow> nat \<Rightarrow> av_server \<Rightarrow> av_server" where
  "joined fd b s = (added fd s)\<lparr>sv_clients :=
     (sv_clients s)[nat fd := (sv_clients s ! nat fd)\<lparr>cl_fd := fd, cl_msg := Some b\<rparr>]\<rparr>"

lemma add_by_fd_run:
  assumes al: "chunks h srv \<noteq> None" and fd: "0 \<le> fd" "fd < int AV_MAX_CLIENTS"
    and len: "length (sv_clients (server_mem (outside h) srv)) = AV_MAX_CLIENTS"
    and mem: "\<not> oom h (ticks h)"
  shows "\<exists>r h'. av_server_client_add_by_fd srv fd h = Ok r h' \<and> chunks h' = chunks h \<and> oom h' = oom h \<and>
    server_mem (outside h') = (server_mem (outside h))
      (srv := joined fd (next_buffer (outside h)) (server_mem (outside h) srv)) \<and>
    buffers (outside h') = (buffers (outside h))
      (next_buffer (outside h) \<mapsto> \<lparr>bf_buf = None, bf_used = 0, bf_size = 0\<rparr>) \<and>
    next_buffer (outside h') = Suc (next_buffer (outside h)) \<and> w_os (outside h') = w_os (outside h)"
proof -
  have v: "fd_valid fd" "nat fd < AV_MAX_CLIENTS" using fd by (auto simp: fd_valid_def AV_MAX_CLIENTS_def)
  have eq: "max (sv_max s) fd = (if sv_max s < fd then fd else sv_max s)" for s by (simp add: max_def)
  show ?thesis
    using al fd len mem v
    by (simp add: av_server_client_add_by_fd_def upd_server_run buffer_init_def put_buffer_def
        uninitialised_def pbind_def pret_def pgets_def pmodify_def av_assert_def put_server_def
        joined_def added_def eq)
qed

lemma add_by_fd_outside:
  assumes "chunks h srv \<noteq> None" and "int AV_MAX_CLIENTS \<le> fd"
  shows "av_server_client_add_by_fd srv fd h = Stop Segv"
  using assms by (simp add: av_server_client_add_by_fd_def upd_server_run pbind_def pret_def pstop_def)

section \<open>Clients that come and go\<close>

datatype client_event = Join int | Leave int

fun run_clients :: "addr \<Rightarrow> client_event list \<Rightarrow> (app, unit) prog" where
  "run_clients srv [] = pret ()"
| "run_clients srv (Join fd # es) =
     pthen (av_server_client_add_by_fd srv fd) (run_clients srv es)"
| "run_clients srv (Leave fd # es) =
     pthen (av_server_client_remove_by_fd srv fd) (run_clients srv es)"

text \<open>The abstract server: the set of the clients that are there.\<close>

fun clients_after :: "client_event list \<Rightarrow> int set \<Rightarrow> int set" where
  "clients_after [] A = A"
| "clients_after (Join fd # es) A = clients_after es (insert fd A)"
| "clients_after (Leave fd # es) A = clients_after es (A - {fd})"

fun event_fd :: "client_event \<Rightarrow> int" where
  "event_fd (Join fd) = fd"
| "event_fd (Leave fd) = fd"

text \<open>The table of clients stands for \<open>A\<close>.\<close>

definition table_ok :: "int set \<Rightarrow> world \<Rightarrow> av_server \<Rightarrow> bool" where
  "table_ok A w s \<longleftrightarrow> length (sv_clients s) = AV_MAX_CLIENTS \<and> A \<subseteq> {0..<int AV_MAX_CLIENTS} \<and> covers s \<and>
     (\<forall>i \<ge> 0. FD_ISSET i (sv_set s) \<longleftrightarrow> i \<in> A) \<and>
     (\<forall>i \<in> A. cl_fd (sv_clients s ! nat i) = i \<and>
        (\<exists>b < next_buffer w. cl_msg (sv_clients s ! nat i) = Some b \<and> buffers w b \<noteq> None)) \<and>
     inj_on (\<lambda>i. cl_msg (sv_clients s ! nat i)) A"

lemma table_added:
  assumes t: "table_ok A w s" and fd: "0 \<le> fd" "fd < int AV_MAX_CLIENTS"
    and w: "buffers w' = (buffers w)(next_buffer w \<mapsto> x)" "next_buffer w' = Suc (next_buffer w)"
  shows "table_ok (insert fd A) w' (joined fd (next_buffer w) s)"
proof -
  let ?s = "joined fd (next_buffer w) s"
  have lim: "fd < 1024" "nat fd < length (sv_clients s)" using t fd by (simp_all add: table_ok_def AV_MAX_CLIENTS_def)
  have "A \<subseteq> {0..<int AV_MAX_CLIENTS}" using t by (simp add: table_ok_def)
  then have A: "0 \<le> i" "nat i = nat fd \<longleftrightarrow> i = fd" if "i \<in> A" for i
    using fd that eq_nat_nat_iff [of i fd] by auto
  have here: "sv_clients ?s ! nat fd = (sv_clients s ! nat fd)\<lparr>cl_fd := fd, cl_msg := Some (next_buffer w)\<rparr>"
    using lim by (simp add: joined_def)
  have there: "sv_clients ?s ! nat i = sv_clients s ! nat i" if "i \<in> A" "i \<noteq> fd" for i
    using A [OF that(1)] that(2) by (simp add: joined_def)
  have "covers ?s" using added_covers [of s fd] t fd lim by (simp add: table_ok_def joined_def covers_def)
  moreover have "FD_ISSET i (sv_set ?s) \<longleftrightarrow> i \<in> insert fd A" if "0 \<le> i" for i
    using t that fd lim by (auto simp: table_ok_def joined_def added_def fd_simps)
  moreover have "cl_fd (sv_clients ?s ! nat i) = i \<and>
      (\<exists>b < next_buffer w'. cl_msg (sv_clients ?s ! nat i) = Some b \<and> buffers w' b \<noteq> None)" if "i \<in> insert fd A" for i
  proof (cases "i = fd")
    case True
    then show ?thesis using here w by simp
  next
    case False
    then have i: "i \<in> A" using that by simp
    then obtain b where "cl_fd (sv_clients s ! nat i) = i" "b < next_buffer w"
      "cl_msg (sv_clients s ! nat i) = Some b" "buffers w b \<noteq> None"
      using t unfolding table_ok_def by blast
    then show ?thesis using there [OF i False] w by simp
  qed
  moreover have "inj_on (\<lambda>i. cl_msg (sv_clients ?s ! nat i)) (insert fd A)"
  proof -
    have "cl_msg (sv_clients s ! nat k) \<noteq> Some (next_buffer w)" if "k \<in> A" for k
      using t that unfolding table_ok_def by (metis nat_neq_iff option.inject)
    then have "Some (next_buffer w) \<notin> (\<lambda>i. cl_msg (sv_clients ?s ! nat i)) ` (A - {fd})"
      using there by (metis (no_types, lifting) DiffE imageE singletonI)
    moreover have "inj_on (\<lambda>i. cl_msg (sv_clients s ! nat i)) (A - {fd})"
      using t by (auto simp: table_ok_def inj_on_def)
    then have "inj_on (\<lambda>i. cl_msg (sv_clients ?s ! nat i)) (A - {fd})"
      using there by (subst inj_on_cong [where g = "\<lambda>i. cl_msg (sv_clients s ! nat i)"]) auto
    ultimately have "inj_on (\<lambda>i. cl_msg (sv_clients ?s ! nat i)) (insert fd (A - {fd}))"
      unfolding inj_on_insert using here by (simp del: insert_Diff_single)
    then show ?thesis by (simp only: insert_Diff_single)
  qed
  ultimately show ?thesis using t fd by (simp add: table_ok_def joined_def)
qed

lemma table_removed:
  assumes t: "table_ok A w s" and fd: "0 \<le> fd"
  shows "table_ok (A - {fd}) w (removed fd s)"
proof -
  have same: "sv_clients (removed fd s) = sv_clients s"
    by (simp add: removed_def Let_def split: option.split)
  have "covers (removed fd s)" "sv_set (removed fd s) = FD_CLR fd (sv_set s)"
    using removed_covers [OF _ fd, of s] t by (simp_all add: table_ok_def)
  then show ?thesis
    using t fd by (auto simp: table_ok_def same fd_simps inj_on_def)
qed

lemma run_clients_table:
  assumes "table_ok A (outside h) (server_mem (outside h) srv)" and "chunks h srv \<noteq> None"
    and "\<And>n. \<not> oom h n" and "\<And>e. e \<in> set es \<Longrightarrow> 0 \<le> event_fd e \<and> event_fd e < int AV_MAX_CLIENTS"
  shows "\<exists>h'. run_clients srv es h = Ok () h' \<and> table_ok (clients_after es A) (outside h') (server_mem (outside h') srv)"
  using assms
proof (induction es arbitrary: A h)
  case (Cons e es)
  show ?case
  proof (cases e)
    case (Join fd)
    have fd: "0 \<le> fd" "fd < int AV_MAX_CLIENTS" using Cons.prems(4) [of e] Join by simp_all
    have len: "length (sv_clients (server_mem (outside h) srv)) = AV_MAX_CLIENTS"
      using Cons.prems(1) by (simp add: table_ok_def)
    obtain r g where g: "av_server_client_add_by_fd srv fd h = Ok r g" "chunks g = chunks h" "oom g = oom h"
      "server_mem (outside g) = (server_mem (outside h))
         (srv := joined fd (next_buffer (outside h)) (server_mem (outside h) srv))"
      "buffers (outside g) = (buffers (outside h))
         (next_buffer (outside h) \<mapsto> \<lparr>bf_buf = None, bf_used = 0, bf_size = 0\<rparr>)"
      "next_buffer (outside g) = Suc (next_buffer (outside h))"
      using add_by_fd_run [OF Cons.prems(2) fd len Cons.prems(3)] by blast
    have "table_ok (insert fd A) (outside g) (server_mem (outside g) srv)"
      using table_added [OF Cons.prems(1) fd g(5,6)] g(4) by simp
    from Cons.IH [OF this] Cons.prems g Join show ?thesis by (simp add: pbind_def)
  next
    case (Leave fd)
    have fd: "0 \<le> fd" "fd_valid fd" using Cons.prems(4) [of e] Leave by (simp_all add: fd_valid_def AV_MAX_CLIENTS_def)
    let ?g = "put_server srv (removed fd (server_mem (outside h) srv)) h"
    have "buffers (outside ?g) = buffers (outside h)" "next_buffer (outside ?g) = next_buffer (outside h)"
      by (simp_all add: put_server_def)
    then have "table_ok (A - {fd}) (outside ?g) (server_mem (outside ?g) srv)"
      using table_removed [OF Cons.prems(1) fd(1)] by (simp add: table_ok_def)
    from Cons.IH [OF this] Cons.prems Leave remove_by_fd_run [OF Cons.prems(2) fd(2)]
    show ?thesis by (simp add: pbind_def)
  qed
qed (simp add: pret_def)

end
