(* ===== verification/Server_Props.thy ===== *)
theory Server_Props
  imports Server Device_Props
begin

text \<open>
  The properties of the server, its table of clients and the message buffers, and of running out
  of memory in the functions that allocate.
\<close>

section \<open>Allocating\<close>

lemma wp_outcome:
  assumes "wp (\<lambda>e. e = Segv \<and> P) m (\<lambda>r h'. \<not> P \<and> r = v \<and> Q h') h"
  shows "if P then m h = Stop Segv else \<exists>h'. m h = Ok v h' \<and> Q h'"
  using assms by (auto simp: wp_def split: outcome.splits)

text \<open>
  C39: \<open>av_device_new\<close>, \<open>av_frame_new_for_device\<close> and \<open>av_server_new\<close> return a cleared block with its
  destructor set, the newest child of its parent, while memory lasts. When it runs out, none of them
  returns null: their test \<open>p < 0\<close> lets the null pointer through, and each stops with an invalid access.
\<close>

theorem new_objects_out_of_memory:
  assumes ok: "app_ok h K" and c: "c \<in> dom (chunks h)"
  defines "a \<equiv> next_addr h"
  shows "if oom h (ticks h)
    then av_device_new (Some c) h = Stop Segv \<and> av_frame_new_for_device (Some c) h = Stop Segv \<and>
      av_server_new h = Stop Segv
    else (\<exists>h'. av_device_new (Some c) h = Ok (Some a) h' \<and> new_object DESTROY_device (Some c) h K a h' \<and>
        dev_mem (outside h') a = zero_device) \<and>
      (\<exists>h'. av_frame_new_for_device (Some c) h = Ok (Some a) h' \<and> new_object DESTROY_frame (Some c) h K a h' \<and>
        frame_mem (outside h') a = zero_frame) \<and>
      (\<exists>h'. av_server_new h = Ok (Some a) h' \<and> new_object DESTROY_server None h K a h' \<and>
        server_mem (outside h') a = zero_server)"
proof -
  have ctxt: "p \<in> dom (chunks h)" if "context_of h (Some c) = Some p" for p
    using that c by (simp add: context_of_def)
  note d = wp_outcome [OF device_new_spec [OF ok, where server = "Some c", OF ctxt]]
    and f = wp_outcome [OF frame_new_spec [OF ok c]] and s = wp_outcome [OF server_new_spec [OF ok]]
  show ?thesis
  proof (cases "oom h (ticks h)")
    case True
    then show ?thesis using d f s by (simp add: av_frame_new_for_device_def)
  next
    case False
    have "\<exists>h'. av_device_new (Some c) h = Ok (Some a) h' \<and> new_object DESTROY_device (Some c) h K a h' \<and>
        dev_mem (outside h') a = zero_device" using d False unfolding a_def by auto
    moreover have "\<exists>h'. av_frame_new_for_device (Some c) h = Ok (Some a) h' \<and>
        new_object DESTROY_frame (Some c) h K a h' \<and> frame_mem (outside h') a = zero_frame"
      using f False unfolding a_def av_frame_new_for_device_def by auto
    moreover have "\<exists>h'. av_server_new h = Ok (Some a) h' \<and> new_object DESTROY_server None h K a h' \<and>
        server_mem (outside h') a = zero_server" using s False unfolding a_def by auto
    ultimately show ?thesis using False by simp
  qed
qed

lemma new_objects_out_of_memory_witness:
  "av_device_new (Some 0) (demo_app DESTROY_server (\<lambda>_. True)) = Stop Segv \<and>
   (\<exists>h'. av_server_new (demo_app DESTROY_server (\<lambda>_. False)) = Ok (Some 1) h')"
  using new_objects_out_of_memory [OF demo_app_ok, of 0 DESTROY_server "\<lambda>_. True"]
    new_objects_out_of_memory [OF demo_app_ok, of 0 DESTROY_server "\<lambda>_. False"]
  by auto

section \<open>Clients\<close>



text \<open>
  When \<open>max\<close> is the greatest descriptor of the set, it is so again after a client has been
  removed, whichever it was, unless the set has become empty: then \<open>max\<close> keeps its old value.
\<close>

lemma client_remove_max:
  assumes al: "chunks h srv \<noteq> None" and fd: "fd_valid fd"
    and s: "s = server_mem (outside h) srv" "covers s" "max_member s"
  shows "\<exists>h' s'. av_server_client_remove_by_fd srv fd h = Ok () h' \<and> s' = server_mem (outside h') srv \<and>
    sv_set s' = FD_CLR fd (sv_set s) \<and>
    (if \<exists>i \<ge> 0. FD_ISSET i (sv_set s') then covers s' \<and> max_member s' else sv_max s' = sv_max s)"
proof -
  have pos: "0 \<le> fd" using fd by (simp add: fd_valid_def)
  show ?thesis
    using remove_by_fd_run [OF al fd] removed_covers [OF s(2) pos] s(1,3)
    by (intro exI [of _ "put_server srv (removed fd s) h"] exI [of _ "removed fd s"]) auto
qed

section \<open>Message buffers\<close>

text \<open>
  C36: \<open>av_buffer_grow\<close> on a buffer whose block is as long as it says: an amount below its whole
  size changes nothing, however much of it is in use. Otherwise the block has afterwards room for the
  old size and the amount, rounded up to the next chunk of 1024 bytes (a whole chunk more when it fits
  exactly), its old bytes are kept, and the buffer again says how long its block is.
\<close>

theorem buffer_grow_correct:
  assumes b: "buffers (outside h) b = Some x" and ok: "buffer_ok x"
    and bound: "unat (bf_size x) + unat sz < 2 ^ 31 - 1024" and mem: "\<not> oom h (ticks h)"
  shows "if unat sz < unat (bf_size x) then av_buffer_grow (Some b) sz h = Ok 0 h
    else \<exists>h' bs y. av_buffer_grow (Some b) sz h = Ok 0 h' \<and>
      buffers (outside h') = (buffers (outside h))(b \<mapsto> y) \<and> bf_buf y = Some bs \<and> buffer_ok y \<and>
      unat (bf_size y) = ((unat (bf_size x) + unat sz) div 1024 + 1) * 1024 \<and>
      take (unat (bf_size x)) bs = (case bf_buf x of None \<Rightarrow> [] | Some old \<Rightarrow> old)"
proof (cases "unat sz < unat (bf_size x)")
  case True
  then show ?thesis using buffer_enough [OF b ok] by simp
next
  case False
  then show ?thesis using buffer_grow_run [OF b ok _ bound mem] by (auto simp: grown_def)
qed

lemma buffer_grow_correct_witness:
  "\<exists>h' y. av_buffer_grow (Some 0) 1024 ((demo_app DESTROY_server (\<lambda>_. False))\<lparr>outside :=
       (outside (demo_app DESTROY_server (\<lambda>_. False)))\<lparr>buffers := [0 \<mapsto> \<lparr>bf_buf = None, bf_used = 0, bf_size = 0\<rparr>]\<rparr>\<rparr>) =
     Ok 0 h' \<and> buffers (outside h') 0 = Some y \<and> unat (bf_size y) = 2048"
proof -
  let ?x = "\<lparr>bf_buf = None, bf_used = 0, bf_size = 0\<rparr>"
  let ?h = "(demo_app DESTROY_server (\<lambda>_. False))\<lparr>outside :=
       (outside (demo_app DESTROY_server (\<lambda>_. False)))\<lparr>buffers := [0 \<mapsto> ?x]\<rparr>\<rparr>"
  have "buffers (outside ?h) 0 = Some ?x" "buffer_ok ?x" "\<not> oom ?h (ticks ?h)"
    "unat (bf_size ?x) + unat (1024 :: u64) < 2 ^ 31 - 1024" by (simp_all add: buffer_ok_def)
  from buffer_grow_correct [OF this(1,2,4,3)] show ?thesis by auto
qed

end
