(* ===== verification/Sockets.thy ===== *)
theory Sockets
  imports Posix
begin

text \<open>
  The system calls on Unix sockets that src/server.c makes. Like the other calls of the environment
  each asks the oracle whether it fails. A connection that is accepted has some bytes to deliver:
  what they are is the parameter \<open>peers\<close>, by the time of the call.
\<close>

definition new_socket :: "u8 list \<Rightarrow> fobj" where
  "new_socket bs = \<lparr>f_kind = F_sock, f_in = bs, f_out = [], f_write = True\<rparr>"

definition sys_socket :: "os \<Rightarrow> int \<times> os" where
  "sys_socket = syscall (-1) (new_fd (new_socket []))"

text \<open>The call runs on a descriptor that is a socket.\<close>

definition on_socket :: "int \<Rightarrow> 'r \<Rightarrow> (fobj \<Rightarrow> os \<Rightarrow> 'r \<times> os) \<Rightarrow> os \<Rightarrow> 'r \<times> os" where
  "on_socket fd failed act = syscall failed (\<lambda>w. case fds w fd of
     None \<Rightarrow> fail_with failed EBADF w
   | Some f \<Rightarrow> if f_kind f = F_sock then act f w else fail_with failed ENOTSOCK w)"

definition sys_bind :: "int \<Rightarrow> string \<Rightarrow> os \<Rightarrow> int \<times> os" where
  "sys_bind fd path = on_socket fd (-1) (\<lambda>f w. (0, w))"

definition sys_listen :: "int \<Rightarrow> nat \<Rightarrow> os \<Rightarrow> int \<times> os" where
  "sys_listen fd backlog = on_socket fd (-1) (\<lambda>f w. (0, w))"

text \<open>\<open>unlink\<close> of a name outside of /dev/shm, of which the model keeps no record.\<close>

definition sys_unlink :: "string \<Rightarrow> os \<Rightarrow> int \<times> os" where
  "sys_unlink path = syscall (-1) (\<lambda>w. (0, w))"

definition sys_accept :: "(nat \<Rightarrow> u8 list) \<Rightarrow> int \<Rightarrow> os \<Rightarrow> int \<times> os" where
  "sys_accept peers fd = on_socket fd (-1) (\<lambda>f w. new_fd (new_socket (peers (clock w))) w)"

text \<open>\<open>ioctl(fd, FIONREAD, &n)\<close> counts the bytes that have arrived.\<close>

definition sys_fionread :: "int \<Rightarrow> os \<Rightarrow> (int \<times> int) \<times> os" where
  "sys_fionread fd = on_socket fd (-1, 0) (\<lambda>f w. ((0, int (length (f_in f))), w))"

definition sys_recv :: "int \<Rightarrow> nat \<Rightarrow> os \<Rightarrow> (int \<times> u8 list) \<times> os" where
  "sys_recv fd count = on_socket fd (-1, []) (\<lambda>f w.
     let n = xfer_len count (length (f_in f)) w
     in ((int n, take n (f_in f)), w\<lparr>fds := (fds w)(fd := Some (f\<lparr>f_in := drop n (f_in f)\<rparr>))\<rparr>))"

lemmas socket_defs = sys_socket_def on_socket_def sys_bind_def sys_listen_def sys_unlink_def
  sys_accept_def sys_fionread_def sys_recv_def syscall_def act_defs

text \<open>What the calls do when the oracle lets them.\<close>

lemma socket_calls:
  assumes "\<And>n. fault (env w) n = None"
  shows "sys_socket w = new_fd (new_socket []) (w\<lparr>clock := Suc (clock w)\<rparr>)"
    and "fds w fd = Some f \<Longrightarrow> f_kind f = F_sock \<Longrightarrow> on_socket fd r act w = act f (w\<lparr>clock := Suc (clock w)\<rparr>)"
  using assms by (simp_all add: sys_socket_def on_socket_def syscall_def)

end
