(* ===== verification/Server_Socket.thy ===== *)
theory Server_Socket
  imports Server Sockets Device
begin

text \<open>
  The functions of src/server.c on sockets: creating the socket the server listens on, accepting a
  client, and reading a request of a client into its message buffer. They are disabled by \<open>#if 0\<close>;
  \<open>av_server_client_handle_request\<close> moreover calls functions that no file of the repository declares
  and uses an undeclared variable \<open>cls\<close>: what these stand for are its parameters.
\<close>

section \<open>Listening and accepting\<close>

text \<open>The length of \<open>sun_path\<close> on Linux; \<open>strcpy\<close> of a longer path writes past its end.\<close>

definition SUN_PATH_SIZE :: nat where
  "SUN_PATH_SIZE = 108"

definition av_server_socket_create :: "string \<Rightarrow> (app, int) prog" where
  "av_server_socket_create path =
     pbind (on_os (pcall sys_socket)) (\<lambda>s.
     if s = -1 then pstop (Exit 1)
     else
     pthen (if length path < SUN_PATH_SIZE then pret () else pstop Segv)
    (pthen (on_os (pcall (sys_unlink path)))
    (pbind (on_os (pcall (sys_bind s path))) (\<lambda>r.
     if r = -1 then pstop (Exit 1)
     else
     pbind (on_os (pcall (sys_listen s 5))) (\<lambda>r.
     if r = -1 then pstop (Exit 1)
     else pret s)))))"

definition av_server_client_accept :: "(nat \<Rightarrow> u8 list) \<Rightarrow> addr \<Rightarrow> (app, int) prog" where
  "av_server_client_accept peers srv =
     pbind (get_server srv) (\<lambda>s.
     pbind (on_os (pcall (sys_accept peers (sv_fd s)))) (\<lambda>ret.
     if ret = -1 then pstop (Exit 1)
     else
     pthen (av_server_client_add_by_fd srv ret)
    (pthen (log_debug ''av_server_client_accept'' ''Connected client %i.\<newline>'')
       (pret ret))))"

section \<open>Requests\<close>

definition MAX_MSG_SIZE :: int where
  "MAX_MSG_SIZE = 8192"

text \<open>
  A sum of two ints, undefined when it overflows, and accesses to the block of a buffer, undefined
  outside of it.
\<close>

definition int_add :: "int \<Rightarrow> int \<Rightarrow> (app, int) prog" where
  "int_add a b = (if - (2 ^ 31) \<le> a + b \<and> a + b < 2 ^ 31 then pret (a + b) else pstop Segv)"

definition store_block :: "nat \<Rightarrow> int \<Rightarrow> u8 list \<Rightarrow> (app, unit) prog" where
  "store_block b off bs =
     (if bs = [] then pret ()
      else
        pbind (get_buffer b) (\<lambda>x.
        pbind (pvalid (bf_buf x)) (\<lambda>block.
        if off < 0 \<or> int (length block) < off + int (length bs) then pstop Segv
        else put_buffer b (Some (x\<lparr>bf_buf :=
               Some (take (nat off) block @ bs @ drop (nat off + length bs) block)\<rparr>)))))"

definition load_block :: "nat \<Rightarrow> int \<Rightarrow> (app, u8) prog" where
  "load_block b off =
     pbind (get_buffer b) (\<lambda>x.
     pbind (pvalid (bf_buf x)) (\<lambda>block.
     if off < 0 \<or> int (length block) \<le> off then pstop Segv else pret (block ! nat off)))"

definition set_used :: "nat \<Rightarrow> int \<Rightarrow> (app, unit) prog" where
  "set_used b n = pbind (get_buffer b) (\<lambda>x. put_buffer b (Some (x\<lparr>bf_used := word_of_int n\<rparr>)))"

text \<open>\<open>malloc(MAX_MSG_SIZE)\<close>, whose result is only tested and freed.\<close>

definition scratch :: "(app, unit) prog" where
  "scratch = pmodify (\<lambda>h. h\<lparr>ticks := Suc (ticks h)\<rparr>)"

text \<open>
  The parameters: \<open>drop_client\<close> is \<open>av_client_remove_by_fd(srv, fd)\<close>, \<open>drop_client'\<close> is
  \<open>client_remove(cls, fd)\<close>, \<open>grow\<close> is \<open>buffer_grow(buffer, toread)\<close>, and \<open>proxy\<close> is the \<open>ioctl\<close> on
  \<open>cls->device\<close> with what the buffer holds. Two paths return no value. The first definition is the part
  of the function that follows the growth of the buffer.
\<close>

definition av_server_client_receive ::
    "(int \<Rightarrow> (app, unit) prog) \<Rightarrow> (nat \<Rightarrow> (app, unit) prog) \<Rightarrow> int \<Rightarrow> nat \<Rightarrow> (app, int) prog" where
  "av_server_client_receive drop_client' proxy fd b =
     pbind (get_buffer b) (\<lambda>x.
     pbind (int_add MAX_MSG_SIZE (- sint (bf_used x))) (\<lambda>room.
     pbind (on_os (pcall (sys_recv fd (unat (word_of_int room :: u64))))) (\<lambda>(n, bs).
     pthen (store_block b (sint (bf_used x)) bs)
    (pbind (int_add (sint (bf_used x)) n) (\<lambda>used.
     pthen (set_used b used)
    (if n \<le> 0
     then
       pthen (drop_client' fd)
      (pthen (on_os (pcall (sys_close fd)))
         uninitialised)
     else
     pbind (load_block b (used - 1)) (\<lambda>c.
     if c \<noteq> 10 then pret 0
     else
     pthen (store_block b used [0])
    (pthen scratch
    (pthen (log_debug ''av_server_client_handle_request'' ''IOCTL %d\<newline>'')
    (pthen (proxy b)
    (pthen (set_used b 0)
       uninitialised)))))))))))"

definition av_server_client_handle_request ::
    "(addr \<Rightarrow> int \<Rightarrow> (app, unit) prog) \<Rightarrow> (int \<Rightarrow> (app, unit) prog) \<Rightarrow>
     (nat option \<Rightarrow> int \<Rightarrow> (app, int) prog) \<Rightarrow> (nat \<Rightarrow> (app, unit) prog) \<Rightarrow>
     addr \<Rightarrow> int \<Rightarrow> (app, int) prog" where
  "av_server_client_handle_request drop_client drop_client' grow proxy srv fd =
     pthen (if 0 \<le> fd \<and> fd < int AV_MAX_CLIENTS then pret () else pstop Segv)
    (pbind (get_server srv) (\<lambda>s.
     let buffer = cl_msg (sv_clients s ! nat fd) in
     pbind (on_os (pcall (sys_fionread fd))) (\<lambda>(r, toread).
     if r \<noteq> 0
     then pthen (log_debug ''av_server_client_handle_request'' ''%i: FIONREAD\<newline>'') (pret (-1))
     else
     pbind (pvalid buffer) (\<lambda>b.
     pbind (get_buffer b) (\<lambda>x.
     pbind (int_add (sint (bf_used x)) toread) (\<lambda>total.
     if MAX_MSG_SIZE \<le> total
     then
       pthen (log_debug ''av_server_client_handle_request'' ''client sent %d bytes, too much data!\<newline>'')
      (pthen (drop_client srv fd)
      (pthen (on_os (pcall (sys_close fd)))
         (pret (-1))))
     else
     pthen (grow buffer toread)
       (av_server_client_receive drop_client' proxy fd b)))))))"

end
