(* ===== verification/Main_Loop.thy ===== *)
theory Main_Loop
  imports Server_Socket
begin

text \<open>
  src/anekvideo.c: the main loop, which waits with \<open>select\<close> for the descriptors of the clients and
  dispatches those that are ready. The structure \<open>av_clients\<close>, the functions on it and the two paths
  are declared nowhere in the repository. Of the structure the loop uses four fields; the functions
  are parameters, gathered in a record. \<open>src/server.c\<close> holds functions that do what their names say:
  they are the instance for which the properties are proved.
\<close>

section \<open>The program\<close>

record av_clients =
  cs_set :: "1024 word"
  cs_max :: int
  cs_self :: int
  cs_device :: int

record 's parts =
  cli :: "'s \<Rightarrow> av_clients"
  set_cli :: "av_clients \<Rightarrow> 's \<Rightarrow> 's"
  client_init :: "('s, unit) prog"
  av_server_socket_setup :: "('s, int) prog"
  video_setup :: "('s, int) prog"
  client_add :: "int \<Rightarrow> ('s, unit) prog"
  client_accept :: "int \<Rightarrow> ('s, unit) prog"
  client_handle_request :: "int \<Rightarrow> ('s, unit) prog"
  wait_ready :: "int \<Rightarrow> 1024 word \<Rightarrow> ('s, int \<times> 1024 word) prog"   \<comment> \<open>\<open>select\<close> on a set to read from\<close>

definition upd_cli :: "'s parts \<Rightarrow> (av_clients \<Rightarrow> av_clients) \<Rightarrow> ('s, unit) prog" where
  "upd_cli P f = pmodify (\<lambda>h. set_cli P (f (cli P h)) h)"

definition main_setup :: "'s parts \<Rightarrow> ('s, int \<times> int) prog" where
  "main_setup P =
     pthen (client_init P)
    (pbind (av_server_socket_setup P) (\<lambda>s.
     pbind (video_setup P) (\<lambda>v.
     pthen (upd_cli P (\<lambda>c. c\<lparr>cs_self := s\<rparr>))
    (pthen (client_add P s)
    (pthen (upd_cli P (\<lambda>c. c\<lparr>cs_device := v\<rparr>))
    (pthen (client_add P v)
      (pret (s, v))))))))"

text \<open>The body of the inner loop, after the test of \<open>FD_ISSET\<close>; \<open>debugprintf\<close> prints.\<close>

definition handle_ready :: "'s parts \<Rightarrow> int \<Rightarrow> int \<Rightarrow> ('s, unit) prog" where
  "handle_ready P s i =
     pbind (pgets (cli P)) (\<lambda>c.
     if i = cs_self c then client_accept P s
     else if i = cs_device c then pret ()
     else client_handle_request P i)"

text \<open>
  The inner loop from \<open>i\<close> on. It reads \<open>cli.max\<close> anew each time round; \<open>FD_ISSET\<close> of a descriptor that
  no \<open>fd_set\<close> can hold is undefined.
\<close>

function dispatch :: "'s parts \<Rightarrow> int \<Rightarrow> 1024 word \<Rightarrow> nat \<Rightarrow> ('s, unit) prog" where
  "dispatch P s readable i =
     (if 1024 \<le> i then
        pbind (pgets (cli P)) (\<lambda>c. if cs_max c < int i then pret () else pstop Segv)
      else
        pbind (pgets (cli P)) (\<lambda>c.
        if cs_max c < int i then pret ()
        else
          pthen (if \<not> FD_ISSET (int i) readable then pret () else handle_ready P s (int i))
            (dispatch P s readable (Suc i))))"
  by auto
termination by (relation "measure (\<lambda>(P, s, readable, i). 1024 - i)") auto

declare dispatch.simps [simp del]

definition main_round :: "'s parts \<Rightarrow> int \<Rightarrow> ('s, unit) prog" where
  "main_round P s =
     pbind (pgets (cli P)) (\<lambda>c.
     pbind (wait_ready P (cs_max c + 1) (cs_set c)) (\<lambda>(r, readable).
     if r = -1 then pstop (Exit 1)
     else dispatch P s readable 0))"

text \<open>\<open>main\<close> up to the end of its \<open>n\<close>-th round; the loop itself has no end.\<close>

fun main_rounds :: "nat \<Rightarrow> 's parts \<Rightarrow> int \<Rightarrow> ('s, unit) prog" where
  "main_rounds 0 P s = pret ()"
| "main_rounds (Suc n) P s = pthen (main_round P s) (main_rounds n P s)"

definition main_prog :: "nat \<Rightarrow> 's parts \<Rightarrow> ('s, unit) prog" where
  "main_prog n P = pbind (main_setup P) (\<lambda>(s, v). main_rounds n P s)"

section \<open>What the loop needs of the functions on clients\<close>

text \<open>The descriptors of a set in ascending order, and the handlers run on a list of them.\<close>

definition members :: "1024 word \<Rightarrow> int list" where
  "members readable = map int (filter (\<lambda>i. FD_ISSET (int i) readable) [0..<1024])"

lemma set_members: "set (members s) = {i. 0 \<le> i \<and> FD_ISSET i s}"
proof -
  have "\<exists>n < 1024. FD_ISSET (int n) s \<and> i = int n" if "0 \<le> i" "FD_ISSET i s" for i
    using that fd_in_range [OF that] by (intro exI [of _ "nat i"]) simp
  then show ?thesis by (auto simp: members_def image_iff)
qed

fun handle_all :: "'s parts \<Rightarrow> int \<Rightarrow> int list \<Rightarrow> ('s, unit) prog" where
  "handle_all P s [] = pret ()"
| "handle_all P s (i # is) = pthen (handle_ready P s i) (handle_all P s is)"

text \<open>
  \<open>max\<close> bounds the set, also after each call, and a call on the client \<open>i\<close> takes no other client out of
  the set.
\<close>

locale client_functions =
  fixes P :: "'s parts" and valid :: "'s \<Rightarrow> bool"
  assumes bounded: "valid h \<Longrightarrow> 0 \<le> i \<Longrightarrow> FD_ISSET i (cs_set (cli P h)) \<Longrightarrow> i \<le> cs_max (cli P h)"
    and max_limit: "valid h \<Longrightarrow> cs_max (cli P h) < 1024"
    and accept_keeps: "valid h \<Longrightarrow> client_accept P s h = Ok () h' \<Longrightarrow>
      valid h' \<and> (\<forall>j \<ge> 0. FD_ISSET j (cs_set (cli P h)) \<longrightarrow> FD_ISSET j (cs_set (cli P h')))"
    and request_keeps: "valid h \<Longrightarrow> 0 \<le> i \<Longrightarrow> FD_ISSET i (cs_set (cli P h)) \<Longrightarrow> client_handle_request P i h = Ok () h' \<Longrightarrow>
      valid h' \<and> (\<forall>j \<ge> 0. j \<noteq> i \<longrightarrow> FD_ISSET j (cs_set (cli P h)) \<longrightarrow> FD_ISSET j (cs_set (cli P h')))"
begin

lemma handle_keeps:
  assumes "valid h" and "0 \<le> i" and "FD_ISSET i (cs_set (cli P h))" and "handle_ready P s i h = Ok () h'"
  shows "valid h' \<and> (\<forall>j \<ge> 0. j \<noteq> i \<longrightarrow> FD_ISSET j (cs_set (cli P h)) \<longrightarrow> FD_ISSET j (cs_set (cli P h')))"
  using assms accept_keeps [of h s h'] request_keeps [of h i h']
  by (auto simp: handle_ready_def pbind_def pgets_def pret_def split: if_splits)

text \<open>The loop from \<open>i\<close> on handles the ready descriptors from \<open>i\<close> on, whatever becomes of \<open>max\<close>.\<close>

lemma dispatch_from:
  assumes "valid h" and "\<And>j. int i \<le> j \<Longrightarrow> FD_ISSET j readable \<Longrightarrow> FD_ISSET j (cs_set (cli P h))"
  shows "dispatch P s readable i h = handle_all P s (map int (filter (\<lambda>j. FD_ISSET (int j) readable) [i..<1024])) h"
  using assms
proof (induction "1024 - i" arbitrary: i h)
  case 0
  then show ?case using max_limit [of h] by (simp add: dispatch.simps [of P s readable i] pbind_def pgets_def pret_def)
next
  case (Suc d)
  then have i: "i < 1024" and d: "d = 1024 - Suc i" by simp_all
  have list: "[i..<1024] = i # [Suc i..<1024]" using i by (rule upt_conv_Cons)
  show ?case
  proof (cases "cs_max (cli P h) < int i")
    case True
    have "\<not> FD_ISSET (int j) readable" if "i \<le> j" for j
      using Suc.prems(2) [of "int j"] bounded [OF Suc.prems(1), of "int j"] True that by auto
    then have none: "filter (\<lambda>j. FD_ISSET (int j) readable) [i..<1024] = []" by (simp add: filter_empty_conv)
    show ?thesis using i True unfolding none by (simp add: dispatch.simps [of P s readable i] pbind_def pgets_def pret_def)
  next
    case False
    show ?thesis
    proof (cases "FD_ISSET (int i) readable")
      case out: False
      have "dispatch P s readable i h = dispatch P s readable (Suc i) h"
        using i False out by (simp add: dispatch.simps [of P s readable i] pbind_def pgets_def pret_def)
      also have "\<dots> = handle_all P s (map int (filter (\<lambda>j. FD_ISSET (int j) readable) [Suc i..<1024])) h"
        using Suc.prems by (intro Suc.hyps(1) [OF d]) auto
      finally show ?thesis using out by (simp add: list)
    next
      case True
      have step: "dispatch P s readable i h = pthen (handle_ready P s (int i)) (dispatch P s readable (Suc i)) h"
        using i False True by (simp add: dispatch.simps [of P s readable i] pbind_def pgets_def)
      show ?thesis
      proof (cases "handle_ready P s (int i) h")
        case (Ok u g)
        have "valid g \<and> (\<forall>j \<ge> 0. j \<noteq> int i \<longrightarrow> FD_ISSET j (cs_set (cli P h)) \<longrightarrow> FD_ISSET j (cs_set (cli P g)))"
          using handle_keeps [OF Suc.prems(1), of "int i" s g] Suc.prems(2) [of "int i"] True Ok by simp
        then have "dispatch P s readable (Suc i) g = handle_all P s (map int (filter (\<lambda>j. FD_ISSET (int j) readable) [Suc i..<1024])) g"
          using Suc.prems(2) by (intro Suc.hyps(1) [OF d]) auto
        then show ?thesis using Ok True by (simp add: step list pbind_def)
      qed (use True in \<open>simp add: step list pbind_def\<close>)
    qed
  qed
qed

lemma round_handles_all:
  assumes v: "valid h" and w: "wait_ready P (cs_max (cli P h) + 1) (cs_set (cli P h)) h = Ok (r, readable) g"
    and g: "valid g" "cli P g = cli P h" and sub: "\<And>j. 0 \<le> j \<Longrightarrow> FD_ISSET j readable \<Longrightarrow> FD_ISSET j (cs_set (cli P h))"
  shows "main_round P s h = (if r = -1 then Stop (Exit 1) else handle_all P s (members readable) g)"
  using w dispatch_from [OF g(1), of 0 readable s] sub g(2)
  by (simp add: main_round_def pbind_def pgets_def pstop_def members_def)

end

section \<open>The functions of the server as an instance\<close>

text \<open>
  \<open>select\<close> on a set of descriptors below \<open>nfds\<close>. Which of them can be read is not up to the program:
  the parameter \<open>pending\<close> says so by the time of the call.
\<close>

definition sys_select :: "(nat \<Rightarrow> 1024 word) \<Rightarrow> int \<Rightarrow> 1024 word \<Rightarrow> os \<Rightarrow> (int \<times> 1024 word) \<times> os" where
  "sys_select pending nfds s = syscall (-1, s) (\<lambda>w.
     if list_ex (\<lambda>i. bit s i \<and> fds w (int i) = None) [0..<nat nfds] then fail_with (-1, s) EBADF w
     else
       let r = take_bit (nat nfds) (s AND pending (clock w))
       in ((int (length (filter (bit r) [0..<1024])), r), w))"

text \<open>
  The table of clients of the server \<open>srv\<close> as \<open>av_clients\<close>, with its socket as \<open>self\<close>. The device, whose
  descriptor a server has no field for, is the parameter \<open>v\<close>. \<open>av_server_client_handle_request\<close> is
  used with \<open>av_server_client_remove_by_fd\<close> for both calls that remove a client and with
  \<open>av_buffer_grow\<close>; its \<open>ioctl\<close> has a truncated pointer as its request, which no device knows.
\<close>

definition srv_cli :: "addr \<Rightarrow> int \<Rightarrow> app \<Rightarrow> av_clients" where
  "srv_cli srv v h = (let s = server_mem (outside h) srv in
     \<lparr>cs_set = sv_set s, cs_max = sv_max s, cs_self = sv_fd s, cs_device = v\<rparr>)"

definition unknown_ioctl :: "int \<Rightarrow> nat \<Rightarrow> (app, unit) prog" where
  "unknown_ioctl v b = pthen (on_os (pcall (syscall (-1) (fail_with (-1 :: int) ENOTTY)))) (pret ())"

definition srv_parts :: "(nat \<Rightarrow> u8 list) \<Rightarrow> (nat \<Rightarrow> 1024 word) \<Rightarrow> addr \<Rightarrow> int \<Rightarrow> app parts" where
  "srv_parts peers pending srv v =
     \<lparr>cli = srv_cli srv v,
      set_cli = (\<lambda>c h. put_server srv ((server_mem (outside h) srv)\<lparr>sv_set := cs_set c, sv_max := cs_max c,
        sv_fd := cs_self c\<rparr>) h),
      client_init = upd_server srv (\<lambda>_. zero_server),
      av_server_socket_setup = av_server_socket_create ''/tmp/v4lproxy.sock'',
      video_setup = pret v,
      client_add = (\<lambda>fd. pthen (av_server_client_add_by_fd srv fd) (pret ())),
      client_accept = (\<lambda>_. pthen (av_server_client_accept peers srv) (pret ())),
      client_handle_request = (\<lambda>i. pthen (av_server_client_handle_request av_server_client_remove_by_fd
        (av_server_client_remove_by_fd srv) (\<lambda>b n. av_buffer_grow b (word_of_int n)) (unknown_ioctl v) srv i) (pret ())),
      wait_ready = (\<lambda>nfds s. on_os (pcall (sys_select pending nfds s)))\<rparr>"

definition srv_valid :: "addr \<Rightarrow> app \<Rightarrow> bool" where
  "srv_valid srv h \<longleftrightarrow> covers (server_mem (outside h) srv) \<and> sv_max (server_mem (outside h) srv) < 1024"

text \<open>How a call may change the server: it keeps it valid and every client but \<open>i\<close>.\<close>

definition srv_keeps :: "addr \<Rightarrow> int option \<Rightarrow> app \<Rightarrow> app \<Rightarrow> bool" where
  "srv_keeps srv i h h' \<longleftrightarrow> (srv_valid srv h \<longrightarrow> srv_valid srv h' \<and>
     (\<forall>j \<ge> 0. Some j \<noteq> i \<longrightarrow> FD_ISSET j (sv_set (server_mem (outside h) srv)) \<longrightarrow>
        FD_ISSET j (sv_set (server_mem (outside h') srv))))"

definition changes :: "(app \<Rightarrow> app \<Rightarrow> bool) \<Rightarrow> (app, 'a) prog \<Rightarrow> bool" where
  "changes Q m \<longleftrightarrow> (\<forall>h a h'. m h = Ok a h' \<longrightarrow> Q h h')"

lemma srv_keeps_refl: "server_mem (outside h') = server_mem (outside h) \<Longrightarrow> srv_keeps srv i h h'"
  by (simp add: srv_keeps_def srv_valid_def)

lemma srv_keeps_trans: "srv_keeps srv i h h' \<Longrightarrow> srv_keeps srv i h' h'' \<Longrightarrow> srv_keeps srv i h h''"
  by (auto simp: srv_keeps_def)

named_theorems changes_intro \<open>calls that keep the clients of a server\<close>

lemma changes_bind [changes_intro]:
  "changes (srv_keeps srv i) m \<Longrightarrow> (\<And>a. changes (srv_keeps srv i) (f a)) \<Longrightarrow> changes (srv_keeps srv i) (pbind m f)"
  unfolding changes_def pbind_def by (fastforce split: outcome.splits intro: srv_keeps_trans)

lemma changes_if [changes_intro]:
  "changes Q m \<Longrightarrow> changes Q n \<Longrightarrow> changes Q (if c then m else n)"
  by simp

lemma changes_let [changes_intro]: "changes Q (f x) \<Longrightarrow> changes Q (let y = x in f y)"
  by (simp add: Let_def)

lemma changes_prod [changes_intro]: "(\<And>a b. changes Q (f a b)) \<Longrightarrow> changes Q (case x of (a, b) \<Rightarrow> f a b)"
  by (cases x) simp

lemma changes_option [changes_intro]:
  "changes Q m \<Longrightarrow> (\<And>a. changes Q (f a)) \<Longrightarrow> changes Q (case x of None \<Rightarrow> m | Some a \<Rightarrow> f a)"
  by (cases x) simp_all

text \<open>Calls that do not touch the server.\<close>

lemma changes_same:
  "(\<And>h a h'. m h = Ok a h' \<Longrightarrow> server_mem (outside h') = server_mem (outside h)) \<Longrightarrow> changes (srv_keeps srv i) m"
  by (simp add: changes_def srv_keeps_refl)

lemma changes_steps [changes_intro]:
  "changes (srv_keeps srv i) (pret x)" "changes (srv_keeps srv i) (pstop e)"
  "changes (srv_keeps srv i) (on_os p)" "changes (srv_keeps srv i) (log_debug func fmt)"
  "changes (srv_keeps srv i) (pgets g)" "changes (srv_keeps srv i) (av_assert c)" "changes (srv_keeps srv i) (pvalid y)"
  "changes (srv_keeps srv i) (get_server srv)" "changes (srv_keeps srv i) (put_buffer b z)"
  "changes (srv_keeps srv i) scratch" "changes (srv_keeps srv i) (int_add m n)"
  by (auto intro!: changes_same simp: prog_defs on_os_def log_debug_def get_server_def on_block_def put_buffer_def
      scratch_def int_add_def split: outcome.splits if_splits option.splits)

lemma changes_buffers [changes_intro]:
  "changes (srv_keeps srv i) (get_buffer b)" "changes (srv_keeps srv i) (set_used b n)"
  "changes (srv_keeps srv i) (store_block b m bs)" "changes (srv_keeps srv i) (load_block b m)"
  "changes (srv_keeps srv i) uninitialised"
  unfolding get_buffer_def set_used_def store_block_def load_block_def uninitialised_def
  by (auto intro!: changes_intro)

lemma heap_block_changes [changes_intro]: "changes (srv_keeps srv i) (heap_block old sz)"
  by (rule changes_same) (auto simp: heap_block_def prog_defs split: if_splits)

lemma grow_changes [changes_intro]: "changes (srv_keeps srv i) (av_buffer_grow b sz)"
  unfolding av_buffer_grow_def by (auto intro!: changes_intro)

lemma ioctl_changes [changes_intro]: "changes (srv_keeps srv i) (unknown_ioctl v b)"
  unfolding unknown_ioctl_def by (auto intro!: changes_intro)

text \<open>Adding and removing a client.\<close>

lemma add_changes [changes_intro]: "changes (srv_keeps srv i) (av_server_client_add_by_fd srv fd)"
  unfolding changes_def
proof (intro allI impI)
  fix h r h'
  assume exec: "av_server_client_add_by_fd srv fd h = Ok r h'"
  then have "fd_valid fd" "sv_set (server_mem (outside h') srv) = sv_set (added fd (server_mem (outside h) srv))"
    "sv_max (server_mem (outside h') srv) = sv_max (added fd (server_mem (outside h) srv))"
    by (auto simp: av_server_client_add_by_fd_def upd_server_def on_block_def buffer_init_def put_buffer_def
        uninitialised_def prog_defs added_def max_def split: if_splits)
  then show "srv_keeps srv i h h'"
    using added_covers [of "server_mem (outside h) srv" fd]
    by (auto simp: srv_keeps_def srv_valid_def covers_def fd_valid_def added_def fd_simps)
qed

lemma removed_max: "0 \<le> fd \<Longrightarrow> sv_max (removed fd s) \<le> sv_max s \<or> sv_max s < 0"
  using find_max_Some [of "FD_CLR fd (sv_set s)" "nat (sv_max s)"]
  by (auto simp: removed_def Let_def split: option.split)

lemma remove_changes [changes_intro]: "changes (srv_keeps srv (Some fd)) (av_server_client_remove_by_fd srv fd)"
  unfolding changes_def
proof (intro allI impI)
  fix h r h'
  assume exec: "av_server_client_remove_by_fd srv fd h = Ok r h'"
  then have fd: "fd_valid fd" "chunks h srv \<noteq> None"
    by (auto simp: av_server_client_remove_by_fd_def upd_server_def on_block_def prog_defs split: if_splits)
  then have h': "h' = put_server srv (removed fd (server_mem (outside h) srv)) h"
    using exec remove_by_fd_run [of h srv fd] by simp
  have pos: "0 \<le> fd" using fd by (simp add: fd_valid_def)
  show "srv_keeps srv (Some fd) h h'"
    using removed_covers [OF _ pos, of "server_mem (outside h) srv"] removed_max [OF pos, of "server_mem (outside h) srv"] pos
    by (auto simp: srv_keeps_def srv_valid_def h' fd_simps covers_def)
qed

lemma accept_changes [changes_intro]: "changes (srv_keeps srv i) (av_server_client_accept peers srv)"
  unfolding av_server_client_accept_def by (auto intro!: changes_intro)

lemma request_changes [changes_intro]:
  "changes (srv_keeps srv (Some fd)) (av_server_client_handle_request av_server_client_remove_by_fd
     (av_server_client_remove_by_fd srv) (\<lambda>b n. av_buffer_grow b (word_of_int n)) (unknown_ioctl v) srv fd)"
  unfolding av_server_client_handle_request_def av_server_client_receive_def by (auto intro!: changes_intro)

interpretation sv: client_functions "srv_parts peers pending srv v" "srv_valid srv"
proof
  fix h i s h'
  let ?P = "srv_parts peers pending srv v"
  assume valid: "srv_valid srv h"
  show "i \<le> cs_max (cli ?P h)" if "0 \<le> i" "FD_ISSET i (cs_set (cli ?P h))"
    using valid that by (simp add: srv_valid_def covers_def srv_parts_def srv_cli_def Let_def)
  show "cs_max (cli ?P h) < 1024"
    using valid by (simp add: srv_valid_def srv_parts_def srv_cli_def Let_def)
  show "srv_valid srv h' \<and> (\<forall>j \<ge> 0. FD_ISSET j (cs_set (cli ?P h)) \<longrightarrow> FD_ISSET j (cs_set (cli ?P h')))"
    if "client_accept ?P s h = Ok () h'"
  proof -
    have "changes (srv_keeps srv None) (client_accept ?P s)" by (auto simp: srv_parts_def intro!: changes_intro)
    then show ?thesis using that valid
      by (auto simp: changes_def srv_keeps_def srv_parts_def srv_cli_def Let_def)
  qed
  show "srv_valid srv h' \<and> (\<forall>j \<ge> 0. j \<noteq> i \<longrightarrow> FD_ISSET j (cs_set (cli ?P h)) \<longrightarrow> FD_ISSET j (cs_set (cli ?P h')))"
    if "client_handle_request ?P i h = Ok () h'"
  proof -
    have "changes (srv_keeps srv (Some i)) (client_handle_request ?P i)" by (auto simp: srv_parts_def intro!: changes_intro)
    then show ?thesis using that valid
      by (auto simp: changes_def srv_keeps_def srv_parts_def srv_cli_def Let_def)
  qed
qed

end
