(* ===== verification/Socket_Props.thy ===== *)
theory Socket_Props
  imports Main_Loop Server_Props
begin

text \<open>
  The properties of the functions of src/server.c on sockets: what becomes of a request, and the
  descriptors that the server can take.
\<close>

section \<open>Steps\<close>

lemma socket_run [run]:
  assumes "\<And>n. fault (env (w_os (outside h))) n = None"
    and "fds (w_os (outside h)) fd = Some f" and "f_kind f = F_sock"
  shows "pbind (on_os (pcall (on_socket fd r act))) k h =
    (case act f ((w_os (outside h))\<lparr>clock := Suc (clock (w_os (outside h)))\<rparr>) of (a, s) \<Rightarrow> k a (put_os s h))"
  using assms by (simp add: on_os_def put_os_def prog_defs socket_calls(2) split: prod.split)

definition logged :: "string \<Rightarrow> string \<Rightarrow> app \<Rightarrow> app" where
  "logged func fmt h = put_os ((w_os (outside h))\<lparr>logs := logs (w_os (outside h)) @
     [Log_msg (level_num AV_LOG_DEBUG) func fmt]\<rparr>) h"

lemma log_run [run]: "pbind (log_debug func fmt) k h = k () (logged func fmt h)"
  by (simp add: log_debug_def av_log_def put_log_def on_os_def logged_def put_os_def prog_defs)

definition with_buffer :: "nat \<Rightarrow> av_buffer \<Rightarrow> app \<Rightarrow> app" where
  "with_buffer b x h = h\<lparr>outside := (outside h)\<lparr>buffers := (buffers (outside h))(b \<mapsto> x)\<rparr>\<rparr>"

definition ticked :: "app \<Rightarrow> app" where
  "ticked h = h\<lparr>ticks := Suc (ticks h)\<rparr>"

lemma with_buffer_simps [simp]:
  "buffers (outside (with_buffer b x h)) = (buffers (outside h))(b \<mapsto> x)"
  "w_os (outside (with_buffer b x h)) = w_os (outside h)"
  "buffers (outside (put_os s h)) = buffers (outside h)"
  "buffers (outside (logged func fmt h)) = buffers (outside h)"
  "buffers (outside (ticked h)) = buffers (outside h)" "w_os (outside (ticked h)) = w_os (outside h)"
  "with_buffer b x (with_buffer b y h) = with_buffer b x h"
  "chunks (with_buffer b x h) = chunks h" "chunks (ticked h) = chunks h" "chunks (logged func fmt h) = chunks h"
  "server_mem (outside (with_buffer b x h)) = server_mem (outside h)"
  "server_mem (outside (ticked h)) = server_mem (outside h)"
  "server_mem (outside (logged func fmt h)) = server_mem (outside h)"
  "oom (put_os s h) = oom h" "ticks (put_os s h) = ticks h"
  "server_mem (outside (put_os s h)) = server_mem (outside h)"
  "next_buffer (outside (put_os s h)) = next_buffer (outside h)"
  by (simp_all add: with_buffer_def put_os_def logged_def ticked_def)

lemma scratch_run [run]: "pbind scratch k h = k () (ticked h)"
  by (simp add: scratch_def ticked_def prog_defs)

lemma server_steps [run]:
  "chunks h srv \<noteq> None \<Longrightarrow> pbind (get_server srv) k h = k (server_mem (outside h) srv) h"
  "buffers (outside h) b = Some x \<Longrightarrow> pbind (get_buffer b) j h = j x h"
  "- (2 ^ 31) \<le> m + n \<Longrightarrow> m + n < 2 ^ 31 \<Longrightarrow> pbind (int_add m n) i h = i (m + n) h"
  "buffers (outside h) b = Some x \<Longrightarrow>
     pbind (set_used b n) g h = g () (with_buffer b (x\<lparr>bf_used := word_of_int n\<rparr>) h)"
  by (auto simp: get_server_def on_block_def get_buffer_def int_add_def set_used_def put_buffer_def
      with_buffer_def prog_defs)

lemma block_steps [run]:
  assumes "buffers (outside h) b = Some x" and "bf_buf x = Some block"
  shows "bs \<noteq> [] \<Longrightarrow> pbind (store_block b (int n) bs) k h =
      (if length block < n + length bs then Stop Segv
       else k () (with_buffer b (x\<lparr>bf_buf := Some (take n block @ bs @ drop (n + length bs) block)\<rparr>) h))"
    and "pbind (load_block b (int n)) j h = (if length block \<le> n then Stop Segv else j (block ! n) h)"
  using assms
  by (auto simp: store_block_def load_block_def get_buffer_def put_buffer_def with_buffer_def prog_defs
      nat_plus_as_int)

section \<open>Requests\<close>

text \<open>The bytes that the next transfer from the socket moves.\<close>

definition arriving :: "fobj \<Rightarrow> os \<Rightarrow> u8 list" where
  "arriving f w = take (xfer_len (length (f_in f)) (length (f_in f)) w) (f_in f)"

lemma arriving_simps:
  "f_in f \<noteq> [] \<Longrightarrow> arriving f w \<noteq> []" "length (arriving f w) \<le> length (f_in f)"
  by (simp_all add: arriving_def xfer_len_def)

lemma buffer_update_order: "y\<lparr>bf_buf := v, bf_used := n\<rparr> = y\<lparr>bf_used := n, bf_buf := v\<rparr>"
  by simp

lemma unat_word_of_int: "n < 2 ^ 64 \<Longrightarrow> unat (word_of_int (int n) :: u64) = n"
  by (simp add: unat_of_nat take_bit_nat_eq_self)

lemma recv_run:
  assumes nf: "\<And>n. fault (env (w_os (outside h))) n = None"
    and f: "fds (w_os (outside h)) fd = Some f" "f_kind f = F_sock" and count: "length (f_in f) \<le> count"
  defines "w \<equiv> (w_os (outside h))\<lparr>clock := Suc (clock (w_os (outside h)))\<rparr>"
  defines "got \<equiv> arriving f w"
  shows "pbind (on_os (pcall (sys_recv fd count))) k h = k (int (length got), got)
    (put_os (w\<lparr>fds := (fds w)(fd \<mapsto> f\<lparr>f_in := drop (length got) (f_in f)\<rparr>)\<rparr>) h)"
proof -
  have "xfer_len count (length (f_in f)) w = xfer_len (length (f_in f)) (length (f_in f)) w"
    using count by (simp add: xfer_len_def)
  moreover have "xfer_len (length (f_in f)) (length (f_in f)) w = length got"
    by (simp add: got_def arriving_def xfer_len_def)
  ultimately have len: "xfer_len count (length (f_in f)) w = length got" by simp
  have "take (length got) (f_in f) = got" by (simp add: got_def arriving_def xfer_len_def)
  then show ?thesis
    unfolding sys_recv_def
    by (subst socket_run [where f = f]) (simp_all add: nf f w_def [symmetric] Let_def len)
qed

lemma receive_run:
  assumes nf: "\<And>n. fault (env (w_os (outside h))) n = None"
    and f: "fds (w_os (outside h)) fd = Some f" "f_kind f = F_sock"
    and y: "buffers (outside h) b = Some y" "bf_buf y = Some bs" "sint (bf_used y) = int u" "u \<le> length bs"
    and lim: "f_in f \<noteq> []" "u + length (f_in f) < 8192"
  defines "w \<equiv> (w_os (outside h))\<lparr>clock := Suc (clock (w_os (outside h)))\<rparr>"
  defines "got \<equiv> arriving f w"
  defines "n \<equiv> u + length got"
  defines "bs' \<equiv> take u bs @ got @ drop n bs"
  defines "s \<equiv> w\<lparr>fds := (fds w)(fd \<mapsto> f\<lparr>f_in := drop (length got) (f_in f)\<rparr>)\<rparr>"
  shows "av_server_client_receive leave proxy fd b h =
    (if length bs < n then Stop Segv
     else if last got \<noteq> 10
     then Ok 0 (with_buffer b (y\<lparr>bf_used := word_of_int (int n), bf_buf := Some bs'\<rparr>) (put_os s h))
     else if length bs = n then Stop Segv
     else (pthen (proxy b) (pthen (set_used b 0) uninitialised))
       (logged ''av_server_client_handle_request'' ''IOCTL %d\<newline>''
         (ticked (with_buffer b (y\<lparr>bf_used := word_of_int (int n),
            bf_buf := Some (take n bs' @ [0] @ drop (n + 1) bs')\<rparr>) (put_os s h)))))"
proof -
  let ?s = "w\<lparr>fds := (fds w)(fd \<mapsto> f\<lparr>f_in := drop (length got) (f_in f)\<rparr>)\<rparr>"
  have got: "got \<noteq> []" "length got \<le> length (f_in f)"
    using lim f by (simp_all add: got_def w_def arriving_simps)
  then obtain m where m: "n = Suc m" unfolding n_def by (cases "u + length got") auto
  have count: "length (f_in f) \<le> unat (word_of_int (8192 + - int u) :: u64)"
  proof -
    have eq: "8192 + - int u = int (8192 - u)" using lim by simp
    show ?thesis unfolding eq using lim by (subst unat_word_of_int) simp_all
  qed
  have nums: "int u + int (length got) = int n" "int n - 1 = int m" "n < 8192" "u < 8192" "0 < n"
    using lim got(2) m by (simp_all add: n_def)
  have recv: "pbind (on_os (pcall (sys_recv fd (unat (word_of_int (8192 + - int u) :: u64))))) k h =
    k (int (length got), got) (put_os ?s h)" for k :: "int \<times> u8 list \<Rightarrow> (app, int) prog"
    unfolding got_def w_def by (rule recv_run [OF nf f count])
  have rest: "av_server_client_receive leave proxy fd b h =
    pthen (store_block b (int u) got)
    (pbind (int_add (int u) (int (length got))) (\<lambda>used.
     pthen (set_used b used)
    (pbind (load_block b (used - 1)) (\<lambda>c.
     if c \<noteq> 10 then pret 0
     else
     pthen (store_block b used [0])
    (pthen scratch
    (pthen (log_debug ''av_server_client_handle_request'' ''IOCTL %d\<newline>'')
    (pthen (proxy b)
    (pthen (set_used b 0)
       uninitialised)))))))) (put_os ?s h)"
    using recv y(1,3) nums(4) got(1)
    by (simp add: av_server_client_receive_def MAX_MSG_SIZE_def run)
  show ?thesis
  proof (cases "length bs < n")
    case True
    then show ?thesis using y(1,2) got(1) by (simp add: rest run n_def)
  next
    case False
    have len: "length bs' = length bs" using False y(4) by (simp add: bs'_def n_def)
    have store: "pbind (store_block b (int u) got) k (put_os ?s h) =
        k () (with_buffer b (y\<lparr>bf_buf := Some bs'\<rparr>) (put_os ?s h))" for k :: "unit \<Rightarrow> (app, int) prog"
      using y(1,2) got(1) False by (simp add: run n_def bs'_def)
    have m_len: "m < length bs" using False m by simp
    have "m = length (take u bs) + (length got - 1)"
      using y(4) got(1) m by (cases got) (simp_all add: n_def)
    then have "bs' ! m = (got @ drop n bs) ! (length got - 1)"
      unfolding bs'_def by (simp only: nth_append_length_plus)
    then have "bs' ! m = last got" using got(1) by (simp add: nth_append last_conv_nth)
    then have "av_server_client_receive leave proxy fd b h =
      (if last got \<noteq> 10 then pret 0 else
        pthen (store_block b (int n) [0])
       (pthen scratch
       (pthen (log_debug ''av_server_client_handle_request'' ''IOCTL %d\<newline>'')
       (pthen (proxy b)
       (pthen (set_used b 0)
       uninitialised)))))
      (with_buffer b (y\<lparr>bf_used := word_of_int (int n), bf_buf := Some bs'\<rparr>) (put_os ?s h))"
      using y(1) nums False store len m_len by (simp add: rest run buffer_update_order)
    then show ?thesis using False len by (simp add: run pret_def s_def)
  qed
qed

text \<open>The buffer of a client that stands for the bytes received so far.\<close>

definition client_buffer :: "app \<Rightarrow> addr \<Rightarrow> int \<Rightarrow> nat \<Rightarrow> av_buffer \<Rightarrow> bool" where
  "client_buffer h srv fd b x \<longleftrightarrow> chunks h srv \<noteq> None \<and> 0 \<le> fd \<and> fd < int AV_MAX_CLIENTS \<and>
     cl_msg (sv_clients (server_mem (outside h) srv) ! nat fd) = Some b \<and>
     buffers (outside h) b = Some x \<and> fits x \<and> unat (bf_size x) < 2 ^ 30"

lemma request_start:
  assumes c: "client_buffer h srv fd b x" and nf: "\<And>n. fault (env (w_os (outside h))) n = None"
    and f: "fds (w_os (outside h)) fd = Some f" "f_kind f = F_sock" and m: "length (f_in f) < 2 ^ 30"
  defines "h1 \<equiv> put_os ((w_os (outside h))\<lparr>clock := Suc (clock (w_os (outside h)))\<rparr>) h"
  shows "av_server_client_handle_request drop_client leave grow proxy srv fd h =
    (if 8192 \<le> unat (bf_used x) + length (f_in f)
     then (pthen (drop_client srv fd) (pthen (on_os (pcall (sys_close fd))) (pret (-1))))
       (logged ''av_server_client_handle_request'' ''client sent %d bytes, too much data!\<newline>'' h1)
     else (pthen (grow (Some b) (int (length (f_in f)))) (av_server_client_receive leave proxy fd b)) h1)"
proof -
  define u where "u = unat (bf_used x)"
  have used: "sint (bf_used x) = int u" "u < 2 ^ 30"
    using c buffer_size(3) [of "bf_used x"] by (auto simp: client_buffer_def fits_def u_def)
  have sum: "int u + int (length (f_in f)) < 2 ^ 31" using used(2) m by simp
  have "8192 \<le> int u + int (length (f_in f)) \<longleftrightarrow> 8192 \<le> u + length (f_in f)" by linarith
  with sum show ?thesis
    using c nf f used(1)
    by (simp add: client_buffer_def av_server_client_handle_request_def sys_fionread_def run h1_def
        MAX_MSG_SIZE_def Let_def pvalid_def u_def [symmetric])
qed

lemma received_block:
  fixes bs :: "u8 list"
  assumes u: "u \<le> length bs" "u + length got \<le> length bs"
  defines "n \<equiv> u + length got"
  defines "bs' \<equiv> take u bs @ got @ drop n bs"
  shows "take n bs' = take u bs @ got" and "length bs' = length bs"
    and "n < length bs \<Longrightarrow> take n (take n bs' @ [0] @ drop (n + 1) bs') = take u bs @ got"
    and "n < length bs \<Longrightarrow> (take n bs' @ [0] @ drop (n + 1) bs') ! n = 0"
    and "n < length bs \<Longrightarrow> length (take n bs' @ [0] @ drop (n + 1) bs') = length bs"
proof -
  show t: "take n bs' = take u bs @ got" and l: "length bs' = length bs"
    using u by (simp_all add: bs'_def n_def)
  assume lt: "n < length bs"
  then have len: "length (take n bs') = n" using l by simp
  let ?all = "take n bs' @ [0] @ drop (n + 1) bs'"
  show "?all ! n = 0" using nth_append_length [of "take n bs'" 0 "drop (n + 1) bs'"] unfolding len by simp
  have "take n ?all = take n bs'" unfolding take_append len by simp
  then show "take n ?all = take u bs @ got" unfolding t .
  show "length ?all = length bs" unfolding length_append len using l lt by simp
qed

lemma request_small:
  fixes drop_client leave proxy
  assumes c: "client_buffer h srv fd b x" and nf: "\<And>n. fault (env (w_os (outside h))) n = None"
    and f: "fds (w_os (outside h)) fd = Some f" "f_kind f = F_sock"
    and m: "f_in f \<noteq> []" "length (f_in f) < 2 ^ 30" and mem: "\<And>n. \<not> oom h n"
  defines "u \<equiv> unat (bf_used x)" and "cap \<equiv> unat (bf_size x)" and "waiting \<equiv> length (f_in f)"
  defines "got \<equiv> arriving f ((w_os (outside h))\<lparr>clock := clock (w_os (outside h)) + 2\<rparr>)"
  defines "n \<equiv> u + length got"
  defines "request \<equiv> av_server_client_handle_request drop_client leave
    (\<lambda>b n. av_buffer_grow b (word_of_int n)) proxy srv fd"
  assumes False: "\<not> 8192 \<le> u + waiting"
  obtains g y bs bs1 bs2 s where "bs1 = take u bs @ got @ drop n bs" and "bs2 = take n bs1 @ [0] @ drop (n + 1) bs1"
    and "length bs = (if waiting < cap then cap else grown (cap + waiting))"
    and "take u bs = contents x" and "u \<le> length bs" and "n < 8192" and "n \<le> cap + waiting"
    and "length bs < 2 ^ 30" and "bf_buf y = Some bs" and "buffer_ok y"
    and "same_but_buffers (put_os ((w_os (outside h))\<lparr>clock := Suc (clock (w_os (outside h)))\<rparr>) h) g"
    and "buffers (outside g) = (buffers (outside h))(b \<mapsto> y)"
    and "s = (w_os (outside h))\<lparr>clock := clock (w_os (outside h)) + 2,
      fds := (fds (w_os (outside h)))(fd \<mapsto> f\<lparr>f_in := drop (length got) (f_in f)\<rparr>)\<rparr>"
    and "request h =
    (if length bs < n then Stop Segv
     else if last got \<noteq> 10
     then Ok 0 (with_buffer b (y\<lparr>bf_used := word_of_int (int n), bf_buf := Some bs1\<rparr>) (put_os s g))
     else if length bs = n then Stop Segv
     else (pthen (proxy b) (pthen (set_used b 0) uninitialised))
       (logged ''av_server_client_handle_request'' ''IOCTL %d\<newline>''
         (ticked (with_buffer b (y\<lparr>bf_used := word_of_int (int n), bf_buf := Some bs2\<rparr>) (put_os s g)))))"
proof -
  let ?w = "(w_os (outside h))\<lparr>clock := Suc (clock (w_os (outside h)))\<rparr>"
  have x: "buffers (outside (put_os ?w h)) b = Some x" "fits x" "cap < 2 ^ 30"
    using c by (simp_all add: client_buffer_def cap_def)
  have sz: "unat (word_of_int (int waiting) :: u64) = waiting"
    by (rule unat_word_of_int) (use False in simp)
  have bound: "unat (bf_size x) + unat (word_of_int (int waiting) :: u64) < 2 ^ 31 - 1024"
    unfolding sz cap_def [symmetric] using False x(3) by simp
  obtain g y bs where g: "av_buffer_grow (Some b) (word_of_int (int waiting)) (put_os ?w h) = Ok 0 g"
      "same_but_buffers (put_os ?w h) g" "buffers (outside g) = (buffers (outside h))(b \<mapsto> y)" "bf_buf y = Some bs"
      "bf_used y = bf_used x" "buffer_ok y"
    and len: "length bs = (if waiting < cap then cap else grown (cap + waiting))"
    and keep: "take u bs = contents x"
    by (rule fits_grow [OF x(1,2) bound, unfolded sz, folded u_def cap_def]) (use mem in simp_all)
  have g2: "w_os (outside g) = ?w" "buffers (outside g) b = Some y"
    using g(2,3) by (simp_all add: same_but_buffers_def)
  have u: "sint (bf_used y) = int u" "u \<le> cap"
    using x(2) buffer_size(3) [of "bf_used x"] by (simp_all add: fits_def g(5) u_def cap_def)
  have grown: "cap + waiting < grown (cap + waiting)" using grown_bounds by blast
  have ub: "u \<le> length bs" using len u(2) grown by (simp split: if_splits)
  have got: "length got \<le> waiting" unfolding got_def waiting_def by (rule arriving_simps(2))
  have n: "n < 8192" "n \<le> cap + waiting" using got u(2) False by (simp_all add: n_def)
  have exec: "request h = av_server_client_receive leave proxy fd b g"
    using False g(1) unfolding request_def
    by (simp add: request_start [OF c nf f m(2)] pbind_def u_def waiting_def [symmetric])
  have here: "\<And>n. fault (env (w_os (outside g))) n = None" "fds (w_os (outside g)) fd = Some f"
    "u + length (f_in f) < 8192" using nf f(1) False by (simp_all add: g2(1) waiting_def)
  have gw: "arriving f ((w_os (outside g))\<lparr>clock := Suc (clock (w_os (outside g)))\<rparr>) = got"
    by (simp add: got_def g2(1))
  note R = receive_run [OF here(1,2) f(2) g2(2) g(4) u(1) ub m(1) here(3), unfolded gw]
  have "length bs < 2 ^ 30"
    using len x(3) False grown_bounds [of "cap + waiting"] by (auto split: if_splits)
  from that [OF refl refl len keep ub n this g(4,6,2,3)] show thesis
    using R [folded n_def] unfolding exec g2(1) by simp
qed

lemma client_buffer_filled:
  assumes c: "client_buffer h srv fd b x" and y: "buffer_ok y" "bf_buf y = Some bs" "length bs < 2 ^ 30"
    and n: "n \<le> length bs" "length bs' = length bs"
    and same: "chunks h' = chunks h" "server_mem (outside h') = server_mem (outside h)"
      "buffers (outside h') b = Some (y\<lparr>bf_used := word_of_int (int n), bf_buf := Some bs'\<rparr>)"
  shows "client_buffer h' srv fd b (y\<lparr>bf_used := word_of_int (int n), bf_buf := Some bs'\<rparr>)"
proof -
  have "sint (word_of_int (int n) :: u32) = int n" "unat (word_of_int (int n) :: u32) = n"
    using y(3) n(1) by (simp_all add: signed_of_nat signed_take_bit_int_eq_self unat_of_nat take_bit_nat_eq_self)
  then show ?thesis using c y n same by (simp add: client_buffer_def fits_def buffer_ok_def)
qed

text \<open>What a call on a client leaves as it is.\<close>

definition stays :: "app \<Rightarrow> app \<Rightarrow> bool" where
  "stays h h' \<longleftrightarrow> chunks h' = chunks h \<and> oom h' = oom h \<and> next_buffer (outside h') = next_buffer (outside h) \<and>
     env (w_os (outside h')) = env (w_os (outside h)) \<and> next_fd (w_os (outside h')) = next_fd (w_os (outside h))"

lemma request_kept:
  fixes drop_client leave proxy
  assumes c: "client_buffer h srv fd b x" and nf: "\<And>n. fault (env (w_os (outside h))) n = None"
    and f: "fds (w_os (outside h)) fd = Some f" "f_kind f = F_sock"
    and m: "f_in f \<noteq> []" "length (f_in f) < 2 ^ 30" and mem: "\<And>n. \<not> oom h n"
  defines "u \<equiv> unat (bf_used x)" and "cap \<equiv> unat (bf_size x)" and "waiting \<equiv> length (f_in f)"
  defines "got \<equiv> arriving f ((w_os (outside h))\<lparr>clock := clock (w_os (outside h)) + 2\<rparr>)"
  defines "n \<equiv> u + length got"
  defines "request \<equiv> av_server_client_handle_request drop_client leave
    (\<lambda>b n. av_buffer_grow b (word_of_int n)) proxy srv fd"
  assumes small: "\<not> 8192 \<le> u + waiting" and fit: "\<not> (waiting < cap \<and> (cap < n \<or> cap = n \<and> last got = 10))"
  obtains h1 y bs where "request h = (if last got = 10 then (pthen (proxy b) (pthen (set_used b 0) uninitialised)) h1 else Ok 0 h1)"
    and "buffers (outside h1) = (buffers (outside h))(b \<mapsto> y)" and "sint (bf_used y) = int n" and "bf_buf y = Some bs"
    and "n \<le> length bs" and "take n bs = contents x @ got" and "last got = 10 \<Longrightarrow> n < length bs \<and> bs ! n = 0"
    and "client_buffer h1 srv fd b y" and "length bs = (if waiting < cap then cap else grown (cap + waiting))"
    and "fds (w_os (outside h1)) = (fds (w_os (outside h)))(fd \<mapsto> f\<lparr>f_in := drop (length got) (f_in f)\<rparr>)"
    and "stays h h1" and "server_mem (outside h1) = server_mem (outside h)"
proof -
  note some = request_small [where drop_client = drop_client and leave = leave and proxy = proxy,
      OF c nf f m mem small [unfolded u_def waiting_def],
      folded u_def cap_def waiting_def got_def, folded n_def request_def]
  obtain g y bs bs1 bs2 s where bs1: "bs1 = take u bs @ got @ drop n bs"
    and bs2: "bs2 = take n bs1 @ [0] @ drop (n + 1) bs1"
    and len: "length bs = (if waiting < cap then cap else grown (cap + waiting))"
    and keep: "take u bs = contents x" and ub: "u \<le> length bs" and n: "n < 8192" "n \<le> cap + waiting"
    and y: "length bs < 2 ^ 30" "bf_buf y = Some bs" "buffer_ok y"
    and g: "same_but_buffers (put_os ((w_os (outside h))\<lparr>clock := Suc (clock (w_os (outside h)))\<rparr>) h) g"
      "buffers (outside g) = (buffers (outside h))(b \<mapsto> y)"
    and s: "s = (w_os (outside h))\<lparr>clock := clock (w_os (outside h)) + 2,
      fds := (fds (w_os (outside h)))(fd \<mapsto> f\<lparr>f_in := drop (length got) (f_in f)\<rparr>)\<rparr>"
    and r: "request h =
    (if length bs < n then Stop Segv
     else if last got \<noteq> 10
     then Ok 0 (with_buffer b (y\<lparr>bf_used := word_of_int (int n), bf_buf := Some bs1\<rparr>) (put_os s g))
     else if length bs = n then Stop Segv
     else (pthen (proxy b) (pthen (set_used b 0) uninitialised))
       (logged ''av_server_client_handle_request'' ''IOCTL %d\<newline>''
         (ticked (with_buffer b (y\<lparr>bf_used := word_of_int (int n), bf_buf := Some bs2\<rparr>) (put_os s g)))))"
    by (rule some)
  have grown: "cap + waiting < grown (cap + waiting)" using grown_bounds by blast
  have le: "n \<le> length bs" "last got = 10 \<Longrightarrow> n < length bs"
    using fit len n(2) grown by (auto split: if_splits)
  note blk = received_block [OF ub le(1) [unfolded n_def], folded n_def, folded bs1, folded bs2, unfolded keep]
  have sn: "sint (word_of_int (int n) :: u32) = int n"
    using n(1) by (simp add: signed_of_nat signed_take_bit_int_eq_self)
  have small_g: "chunks g = chunks h" "server_mem (outside g) = server_mem (outside h)" "oom g = oom h"
    "next_buffer (outside g) = next_buffer (outside h)"
    using g(1) by (simp_all add: same_but_buffers_def)
  let ?bs = "if last got = 10 then bs2 else bs1"
  let ?y = "y\<lparr>bf_used := word_of_int (int n), bf_buf := Some ?bs\<rparr>"
  let ?k = "with_buffer b ?y (put_os s g)"
  let ?h = "if last got = 10 then logged ''av_server_client_handle_request'' ''IOCTL %d\<newline>'' (ticked ?k) else ?k"
  have bs: "length ?bs = length bs" "take n ?bs = contents x @ got" "last got = 10 \<Longrightarrow> ?bs ! n = 0"
    using blk le by auto
  have same: "chunks ?h = chunks h" "server_mem (outside ?h) = server_mem (outside h)"
    "buffers (outside ?h) = (buffers (outside h))(b \<mapsto> ?y)" "oom ?h = oom h"
    "next_buffer (outside ?h) = next_buffer (outside h)" "env (w_os (outside ?h)) = env s"
    "fds (w_os (outside ?h)) = fds s" "next_fd (w_os (outside ?h)) = next_fd s"
    using small_g g(2) by (simp_all add: with_buffer_def ticked_def logged_def put_os_def)
  have buf: "client_buffer ?h srv fd b ?y"
    by (rule client_buffer_filled [OF c y(3,2,1) le(1) bs(1)]) (use same in simp_all)
  have req: "request h = (if last got = 10 then (pthen (proxy b) (pthen (set_used b 0) uninitialised)) ?h else Ok 0 ?h)"
    using le by (cases "last got = 10") (simp_all add: r)
  have st: "stays h ?h" using same s by (simp add: stays_def)
  have w: "fds (w_os (outside ?h)) = (fds (w_os (outside h)))(fd \<mapsto> f\<lparr>f_in := drop (length got) (f_in f)\<rparr>)"
    by (rule trans [OF same(7)]) (simp add: s)
  show thesis
    by (rule that [OF req same(3) _ _ _ bs(2) _ buf _ w st same(2)]) (use le sn len bs(1,3) in \<open>simp_all\<close>)
qed


text \<open>1024 bytes of room, 1023 of them used, and five bytes that arrive two at a time.\<close>

definition full_buffer :: av_buffer where
  "full_buffer = \<lparr>bf_buf = Some (replicate 1024 0), bf_used = 1023, bf_size = 1024\<rparr>"

definition demo_client :: app where
  "demo_client = (demo_app DESTROY_server (\<lambda>_. False))\<lparr>outside := (outside (demo_app DESTROY_server (\<lambda>_. False)))
     \<lparr>buffers := [0 \<mapsto> full_buffer], server_mem := (\<lambda>_. zero_server\<lparr>sv_set := FD_SET 3 0, sv_max := 3, sv_fd := 3, sv_clients :=
        (replicate AV_MAX_CLIENTS zero_client)[3 := zero_client\<lparr>cl_msg := Some 0\<rparr>]\<rparr>)\<rparr>\<rparr>"


section \<open>New clients\<close>

lemma accept_run:
  assumes al: "chunks h srv \<noteq> None" and nf: "\<And>n. fault (env (w_os (outside h))) n = None"
    and s: "s = server_mem (outside h) srv" "length (sv_clients s) = AV_MAX_CLIENTS" "covers s"
    and f: "fds (w_os (outside h)) (sv_fd s) = Some f" "f_kind f = F_sock" and mem: "\<And>n. \<not> oom h n"
  defines "w \<equiv> w_os (outside h)"
  defines "fd \<equiv> int (next_fd w)" and "b \<equiv> next_buffer (outside h)"
  defines "x \<equiv> \<lparr>bf_buf = None, bf_used = 0, bf_size = 0\<rparr>"
  shows "\<not> fd < int AV_MAX_CLIENTS \<Longrightarrow> av_server_client_accept peers srv h = Stop Segv"
    and "fd < int AV_MAX_CLIENTS \<Longrightarrow> \<exists>h'. av_server_client_accept peers srv h = Ok fd h' \<and>
      server_mem (outside h') = (server_mem (outside h))(srv := joined fd b s) \<and> client_buffer h' srv fd b x \<and>
      buffers (outside h') = (buffers (outside h))(b \<mapsto> x) \<and> next_buffer (outside h') = Suc b \<and>
      chunks h' = chunks h \<and> oom h' = oom h \<and> env (w_os (outside h')) = env w \<and> next_fd (w_os (outside h')) = Suc (next_fd w) \<and>
      fds (w_os (outside h')) = (fds w)(fd \<mapsto> new_socket (peers (clock w + 1)))"
proof -
  let ?w = "w\<lparr>clock := clock w + 1, fds := (fds w)(fd \<mapsto> new_socket (peers (clock w + 1))), next_fd := next_fd w + 1\<rparr>"
  have start: "av_server_client_accept peers srv h =
    (if fd = -1 then pstop (Exit 1) else
      pthen (av_server_client_add_by_fd srv fd)
     (pthen (log_debug ''av_server_client_accept'' ''Connected client %i.\<newline>'') (pret fd))) (put_os ?w h)"
    using al nf f s(1) by (simp add: av_server_client_accept_def run sys_accept_def new_fd_def fd_def w_def)
  show "av_server_client_accept peers srv h = Stop Segv" if "\<not> fd < int AV_MAX_CLIENTS"
    using that start add_by_fd_outside [of "put_os ?w h" srv fd] al by (simp add: pbind_def fd_def)
  assume lim: "fd < int AV_MAX_CLIENTS"
  have pos: "0 \<le> fd" by (simp add: fd_def)
  obtain r g where g: "av_server_client_add_by_fd srv fd (put_os ?w h) = Ok r g" "chunks g = chunks h" "oom g = oom h"
    "server_mem (outside g) = (server_mem (outside h))(srv := joined fd b s)"
    "buffers (outside g) = (buffers (outside h))(b \<mapsto> x)" "next_buffer (outside g) = Suc b" "w_os (outside g) = ?w"
    using add_by_fd_run [of "put_os ?w h" srv fd] al lim pos s mem by (auto simp: put_os_def b_def x_def)
  let ?g = "logged ''av_server_client_accept'' ''Connected client %i.\<newline>'' g"
  have "cl_msg (sv_clients (joined fd b s) ! nat fd) = Some b" using lim pos s(2) by (simp add: joined_def)
  then have "client_buffer ?g srv fd b x"
    using al g lim pos by (simp add: client_buffer_def fits_def buffer_ok_def x_def)
  moreover have "av_server_client_accept peers srv h = Ok fd ?g"
    using start g(1) pos by (simp add: pbind_def log_run [unfolded pbind_def] pret_def)
  ultimately show "\<exists>h'. av_server_client_accept peers srv h = Ok fd h' \<and>
      server_mem (outside h') = (server_mem (outside h))(srv := joined fd b s) \<and> client_buffer h' srv fd b x \<and>
      buffers (outside h') = (buffers (outside h))(b \<mapsto> x) \<and> next_buffer (outside h') = Suc b \<and>
      chunks h' = chunks h \<and> oom h' = oom h \<and> env (w_os (outside h')) = env w \<and> next_fd (w_os (outside h')) = Suc (next_fd w) \<and>
      fds (w_os (outside h')) = (fds w)(fd \<mapsto> new_socket (peers (clock w + 1)))"
    using g by (intro exI [of _ ?g]) (simp add: logged_def put_os_def)
qed

lemma joined_table:
  assumes "length (sv_clients s) = AV_MAX_CLIENTS" and "covers s" and fd: "0 \<le> fd" "fd < int AV_MAX_CLIENTS"
  shows "FD_ISSET fd (sv_set (joined fd b s))" "covers (joined fd b s)" "cl_fd (sv_clients (joined fd b s) ! nat fd) = fd"
    "cl_msg (sv_clients (joined fd b s) ! nat fd) = Some b"
  using added_covers [of s fd] assms by (simp_all add: joined_def added_def fd_simps covers_def AV_MAX_CLIENTS_def)

text \<open>
  C33: Accepting a connection on a listening socket while nothing fails: a descriptor below 32 becomes a
  client of the server, watched by \<open>select\<close> and not above \<open>max\<close>, with an empty message buffer of its own, and
  is returned. A greater descriptor, which the kernel gives when more files are open, is written past
  the end of the table of clients or of the set.
\<close>

theorem accept_bounds:
  assumes al: "chunks h srv \<noteq> None" and nf: "\<And>n. fault (env (w_os (outside h))) n = None"
    and s: "s = server_mem (outside h) srv" "length (sv_clients s) = AV_MAX_CLIENTS" "covers s"
    and f: "fds (w_os (outside h)) (sv_fd s) = Some f" "f_kind f = F_sock" and mem: "\<And>n. \<not> oom h n"
  defines "fd \<equiv> int (next_fd (w_os (outside h)))"
  shows "if fd < int AV_MAX_CLIENTS
    then \<exists>h' b x s'. av_server_client_accept peers srv h = Ok fd h' \<and> s' = server_mem (outside h') srv \<and>
      FD_ISSET fd (sv_set s') \<and> covers s' \<and> cl_fd (sv_clients s' ! nat fd) = fd \<and>
      client_buffer h' srv fd b x \<and> contents x = [] \<and>
      fds (w_os (outside h')) fd = Some (new_socket (peers (clock (w_os (outside h)) + 1)))
    else av_server_client_accept peers srv h = Stop Segv"
proof -
  note run = accept_run [OF al nf s f mem, folded fd_def, of peers]
  have pos: "0 \<le> fd" by (simp add: fd_def)
  have "contents \<lparr>bf_buf = None, bf_used = 0, bf_size = 0\<rparr> = []" by (simp add: contents_def)
  moreover have "\<exists>x s'. s' = t \<and> Q x s'" if "Q x t" for Q x and t :: av_server using that by blast
  ultimately show ?thesis
    using run joined_table [OF s(2,3) pos] by (cases "fd < int AV_MAX_CLIENTS") fastforce+
qed

lemma accept_bounds_witness:
  "\<exists>h'. av_server_client_accept (\<lambda>_. [1, 2]) 0 demo_client = Ok 4 h' \<and>
     fds (w_os (outside h')) 4 = Some (new_socket [1, 2])"
proof -
  have "w_os (outside demo_client) = demo_os" "oom demo_client = (\<lambda>_. False)" "chunks demo_client 0 \<noteq> None"
    by (simp_all add: demo_client_def)
  moreover have "covers (server_mem (outside demo_client) 0)"
    "length (sv_clients (server_mem (outside demo_client) 0)) = AV_MAX_CLIENTS"
    "fds demo_os (sv_fd (server_mem (outside demo_client) 0)) =
       Some \<lparr>f_kind = F_sock, f_in = [1, 2, 3, 4, 5], f_out = [], f_write = True\<rparr>"
    by (auto simp: demo_client_def covers_def zero_server_def fd_simps demo_os_def)
  ultimately show ?thesis
    using accept_bounds [of demo_client 0 "server_mem (outside demo_client) 0", where peers = "\<lambda>_. [1, 2]"]
    by (auto simp: AV_MAX_CLIENTS_def)
qed

section \<open>The main loop\<close>

lemma main_round_run:
  fixes peers pending v self
  assumes valid: "srv_valid srv h"
  defines "w \<equiv> w_os (outside h)" and "clients \<equiv> sv_set (server_mem (outside h) srv)"
  defines "P \<equiv> srv_parts peers pending srv v" and "readable \<equiv> members (clients AND pending (clock w + 1))"
  shows "if fault (env w) (clock w) = None \<and> (\<forall>i \<ge> 0. FD_ISSET i clients \<longrightarrow> fds w i \<noteq> None)
     then main_round P self h = handle_all P self readable (put_os (w\<lparr>clock := clock w + 1\<rparr>) h)
     else main_round P self h = Stop (Exit 1)"
proof -
  let ?max = "sv_max (server_mem (outside h) srv)" and ?r = "clients AND pending (clock w + 1)"
  have c: "0 \<le> ?max" "\<And>i. bit clients i \<Longrightarrow> int i \<le> ?max"
    using valid by (auto simp: srv_valid_def covers_def FD_ISSET_def clients_def)
  have open_iff: "list_ex (\<lambda>i. bit clients i \<and> fds w (int i) = None) [0..<nat (?max + 1)] \<longleftrightarrow>
      \<not> (\<forall>i \<ge> 0. FD_ISSET i clients \<longrightarrow> fds w i \<noteq> None)" (is "?closed \<longleftrightarrow> \<not> ?open")
  proof -
    have nats: "(\<forall>i \<ge> 0. Q i) \<longleftrightarrow> (\<forall>n. Q (int n))" for Q by (metis of_nat_0_le_iff zero_le_imp_eq_int)
    have "n < nat (?max + 1)" if "bit clients n" for n using c(2) [OF that] by linarith
    then show ?thesis unfolding nats by (auto simp: list_ex_iff FD_ISSET_def)
  qed
  have whole: "take_bit (nat (?max + 1)) ?r = ?r"
    using c by (intro bit_word_eqI) (force simp: bit_simps)
  have P: "cs_set (cli P h) = clients" "cs_max (cli P h) = ?max"
    by (simp_all add: P_def srv_parts_def srv_cli_def Let_def clients_def)
  have wait: "wait_ready P (cs_max (cli P h) + 1) (cs_set (cli P h)) h =
      (case sys_select pending (?max + 1) clients w of (x, s) \<Rightarrow> Ok x (put_os s h))"
    unfolding P by (simp add: P_def srv_parts_def on_os_def put_os_def prog_defs w_def split: prod.split)
  show ?thesis
  proof (cases "fault (env w) (clock w) = None \<and> ?open")
    case True
    let ?g = "put_os (w\<lparr>clock := clock w + 1\<rparr>) h"
    obtain n where "wait_ready P (cs_max (cli P h) + 1) (cs_set (cli P h)) h = Ok (int n, ?r) ?g"
      using True open_iff whole unfolding wait by (simp add: sys_select_def syscall_def Let_def)
    moreover have g: "srv_valid srv ?g" "cli P ?g = cli P h"
      using valid by (simp_all add: srv_valid_def P_def srv_parts_def srv_cli_def)
    moreover have "FD_ISSET j ?r \<Longrightarrow> FD_ISSET j (cs_set (cli P h))" for j
      unfolding P by (simp add: FD_ISSET_def bit_simps)
    ultimately show ?thesis
      using True sv.round_handles_all [where peers = peers and pending = pending and v = v, of srv h "int n" ?r ?g self, folded P_def]
        valid
      by (simp add: readable_def)
  next
    case False
    then obtain s where "sys_select pending (?max + 1) clients w = ((-1, clients), s)"
      using open_iff by (cases "fault (env w) (clock w)") (simp_all add: sys_select_def syscall_def fail_with_def)
    then have "wait_ready P (cs_max (cli P h) + 1) (cs_set (cli P h)) h = Ok (-1, clients) (put_os s h)"
      using wait by simp
    then show ?thesis unfolding if_not_P [OF False] by (simp add: main_round_def pbind_def pgets_def pstop_def)
  qed
qed

lemma set_readable:
  "set (members (s AND t)) = {i. 0 \<le> i \<and> FD_ISSET i s \<and> FD_ISSET i t}" "sorted (members s)" "distinct (members s)"
  by (auto simp: set_members FD_ISSET_def bit_simps)
    (simp_all add: members_def sorted_map sorted_wrt_filter distinct_map)

text \<open>
  C32: One round of the main loop with the functions of the server as its functions on clients, when
  \<open>max\<close> bounds the set of clients. If \<open>select\<close> fails, or a client in the set has been closed, the
  process exits with 1. Otherwise exactly the clients that are in the set and can be read are handled, each
  once and in ascending order, although the handlers change the set and its \<open>max\<close>, which the loop reads
  anew for each descriptor, while it runs.
\<close>

theorem main_round_order:
  fixes peers pending v self
  assumes valid: "srv_valid srv h"
  defines "w \<equiv> w_os (outside h)" and "clients \<equiv> sv_set (server_mem (outside h) srv)"
  defines "P \<equiv> srv_parts peers pending srv v" and "readable \<equiv> members (clients AND pending (clock w + 1))"
  shows "(if fault (env w) (clock w) = None \<and> (\<forall>i \<ge> 0. FD_ISSET i clients \<longrightarrow> fds w i \<noteq> None)
     then main_round P self h = handle_all P self readable (put_os (w\<lparr>clock := clock w + 1\<rparr>) h)
     else main_round P self h = Stop (Exit 1)) \<and>
    sorted readable \<and> distinct readable \<and>
    set readable = {i. 0 \<le> i \<and> FD_ISSET i clients \<and> FD_ISSET i (pending (clock w + 1))}"
  using main_round_run [OF valid] set_readable
  unfolding w_def clients_def P_def readable_def by blast

lemma main_round_order_witness:
  "main_round (srv_parts (\<lambda>_. []) (\<lambda>_. FD_SET 3 0) 0 9) 3 demo_client =
     handle_all (srv_parts (\<lambda>_. []) (\<lambda>_. FD_SET 3 0) 0 9) 3 [3] (put_os (demo_os\<lparr>clock := 1\<rparr>) demo_client)"
proof -
  have w: "w_os (outside demo_client) = demo_os" "sv_set (server_mem (outside demo_client) 0) = FD_SET 3 0"
    "sv_max (server_mem (outside demo_client) 0) = 3" by (simp_all add: demo_client_def)
  have only: "FD_ISSET i (FD_SET 3 0) \<longleftrightarrow> i = 3" if "0 \<le> i" for i
    using that by (simp add: fd_simps)
  have "srv_valid 0 demo_client" using only by (simp add: srv_valid_def covers_def w)
  moreover have "fds demo_os 3 \<noteq> None" "clock demo_os = 0" by (simp_all add: demo_os_def)
  moreover have "members (FD_SET 3 0) = [3]"
    by (rule sorted_distinct_set_unique)
      (use only in \<open>auto simp: set_members, simp_all add: members_def sorted_map sorted_wrt_filter distinct_map\<close>)
  ultimately show ?thesis
    using main_round_order [of 0 demo_client "\<lambda>_. []" "\<lambda>_. FD_SET 3 0" 9 3] only by (simp add: w)
qed

end
