(* ===== verification/Server_Run.thy ===== *)
theory Server_Run
  imports Socket_Props "HOL-Library.Sublist"
begin

text \<open>
  The main loop together with the functions of src/server.c, over any number of rounds: which state
  every round leaves, as long as no call fails and the clients keep to what a buffer can hold.
\<close>

section \<open>The server between two rounds\<close>

definition quiet :: "app \<Rightarrow> bool" where
  "quiet h \<longleftrightarrow> (\<forall>n. fault (env (w_os (outside h))) n = None) \<and> (\<forall>n. \<not> oom h n)"

text \<open>
  A client, of which \<open>sent\<close> is all that it sends over its connection: what is in its message buffer and
  what waits at its socket are the end of that.
\<close>

definition client_ok :: "app \<Rightarrow> addr \<Rightarrow> u8 list \<Rightarrow> int \<Rightarrow> bool" where
  "client_ok h srv sent fd \<longleftrightarrow> length sent < 1024 \<and>
     (\<exists>b x f. client_buffer h srv fd b x \<and> (bf_size x = 0 \<or> 1024 \<le> unat (bf_size x)) \<and>
        fds (w_os (outside h)) fd = Some f \<and> f_kind f = F_sock \<and> suffix (contents x @ f_in f) sent)"

text \<open>The descriptors of clients: those of the set that are neither the server's socket nor the device.\<close>

definition clients :: "app \<Rightarrow> addr \<Rightarrow> int \<Rightarrow> int set" where
  "clients h srv v = {i. 0 \<le> i \<and> FD_ISSET i (sv_set (server_mem (outside h) srv))} - {sv_fd (server_mem (outside h) srv), v}"

definition serving :: "addr \<Rightarrow> int \<Rightarrow> (int \<Rightarrow> u8 list) \<Rightarrow> app \<Rightarrow> bool" where
  "serving srv v sent h \<longleftrightarrow> quiet h \<and> srv_valid srv h \<and> chunks h srv \<noteq> None \<and>
     length (sv_clients (server_mem (outside h) srv)) = AV_MAX_CLIENTS \<and>
     (\<exists>f. fds (w_os (outside h)) (sv_fd (server_mem (outside h) srv)) = Some f \<and> f_kind f = F_sock) \<and>
     fds (w_os (outside h)) v \<noteq> None \<and>
     (\<forall>i \<in> clients h srv v. client_ok h srv (sent i) i \<and>
        (\<exists>b < next_buffer (outside h). cl_msg (sv_clients (server_mem (outside h) srv) ! nat i) = Some b)) \<and>
     inj_on (\<lambda>i. cl_msg (sv_clients (server_mem (outside h) srv) ! nat i)) (clients h srv v) \<and>
     (\<forall>i \<ge> int (next_fd (w_os (outside h))). fds (w_os (outside h)) i = None)"

lemma servingD:
  assumes "serving srv v sent h"
  defines "s \<equiv> server_mem (outside h) srv" and "w \<equiv> w_os (outside h)"
  shows "fault (env w) n = None" and "\<not> oom h n" and "srv_valid srv h" and "chunks h srv \<noteq> None"
    and "length (sv_clients s) = AV_MAX_CLIENTS" and "\<exists>f. fds w (sv_fd s) = Some f \<and> f_kind f = F_sock" and "fds w v \<noteq> None"
    and "i \<in> clients h srv v \<Longrightarrow> client_ok h srv (sent i) i"
    and "i \<in> clients h srv v \<Longrightarrow> \<exists>b < next_buffer (outside h). cl_msg (sv_clients s ! nat i) = Some b"
    and "inj_on (\<lambda>i. cl_msg (sv_clients s ! nat i)) (clients h srv v)"
    and "int (next_fd w) \<le> i \<Longrightarrow> fds w i = None"
  using assms by (auto simp: serving_def quiet_def)

lemma clients_open:
  assumes "serving srv v sent h" and "0 \<le> i" and "FD_ISSET i (sv_set (server_mem (outside h) srv))"
  shows "fds (w_os (outside h)) i \<noteq> None"
  using servingD(6,7) [OF assms(1)] servingD(8) [OF assms(1), of i] assms(2,3)
  by (auto simp: clients_def client_ok_def)

lemma client_bounds: "serving srv v sent h \<Longrightarrow> i \<in> clients h srv v \<Longrightarrow> 0 \<le> i \<and> i < int AV_MAX_CLIENTS"
  using servingD(8) [of srv v sent h i] by (auto simp: client_ok_def client_buffer_def)

text \<open>
  A call on the client \<open>i\<close>, whose message buffer is \<open>b\<close>, leaves the other clients as they are.
\<close>

definition touches :: "addr \<Rightarrow> int \<Rightarrow> nat \<Rightarrow> app \<Rightarrow> app \<Rightarrow> bool" where
  "touches srv i b h h' \<longleftrightarrow> stays h h' \<and> (\<forall>c. c \<noteq> b \<longrightarrow> buffers (outside h') c = buffers (outside h) c) \<and>
     (\<forall>j. j \<noteq> i \<longrightarrow> fds (w_os (outside h')) j = fds (w_os (outside h)) j) \<and>
     sv_clients (server_mem (outside h') srv) = sv_clients (server_mem (outside h) srv) \<and>
     sv_fd (server_mem (outside h') srv) = sv_fd (server_mem (outside h) srv)"

lemma other_client:
  assumes t: "touches srv i b h h'" and j: "client_ok h srv sent j" "j \<noteq> i"
    and b: "cl_msg (sv_clients (server_mem (outside h) srv) ! nat j) \<noteq> Some b"
  shows "client_ok h' srv sent j"
proof -
  obtain c x f where "client_buffer h srv j c x" "length sent < 1024" "bf_size x = 0 \<or> 1024 \<le> unat (bf_size x)"
    "fds (w_os (outside h)) j = Some f" "f_kind f = F_sock" "suffix (contents x @ f_in f) sent"
    using j(1) by (auto simp: client_ok_def)
  moreover from this have "c \<noteq> b" using b by (auto simp: client_buffer_def)
  ultimately show ?thesis
    unfolding client_ok_def using t j(2)
    by (intro conjI exI [of _ c] exI [of _ x] exI [of _ f]) (auto simp: touches_def stays_def client_buffer_def)
qed

lemma serving_touched:
  assumes ok: "serving srv v sent h" and i: "i \<in> clients h srv v" and t: "touches srv i b h h'"
    and b: "cl_msg (sv_clients (server_mem (outside h) srv) ! nat i) = Some b"
    and valid: "srv_valid srv h'" and sub: "clients h' srv v \<subseteq> clients h srv v"
    and self: "i \<in> clients h' srv v \<Longrightarrow> client_ok h' srv (sent i) i"
    and dead: "fds (w_os (outside h)) i = None \<Longrightarrow> fds (w_os (outside h')) i = None"
  shows "serving srv v sent h'"
proof -
  note d = servingD [OF ok]
  have same: "stays h h'" "sv_clients (server_mem (outside h') srv) = sv_clients (server_mem (outside h) srv)"
    "sv_fd (server_mem (outside h') srv) = sv_fd (server_mem (outside h) srv)"
    and fds: "\<And>j. j \<noteq> i \<Longrightarrow> fds (w_os (outside h')) j = fds (w_os (outside h)) j"
    using t by (simp_all add: touches_def)
  have ne: "sv_fd (server_mem (outside h) srv) \<noteq> i" "v \<noteq> i" using i by (auto simp: clients_def)
  have "client_ok h' srv (sent j) j" if j: "j \<in> clients h' srv v" for j
  proof (cases "j = i")
    case False
    have "cl_msg (sv_clients (server_mem (outside h) srv) ! nat j) \<noteq> Some b"
      using inj_onD [OF d(10), of j i] j sub i False b by auto
    then show ?thesis using other_client [OF t d(8) False] j sub by blast
  qed (use self j in simp)
  moreover have "fds (w_os (outside h')) j = None" if "int (next_fd (w_os (outside h'))) \<le> j" for j
    using d(11) [of j] that dead fds [of j] same(1) by (cases "j = i") (auto simp: stays_def)
  moreover have "quiet h'" using d(1,2) same(1) by (auto simp: quiet_def stays_def)
  ultimately show ?thesis
    using d(4-7,9) inj_on_subset [OF d(10) sub] same fds [of "sv_fd (server_mem (outside h) srv)"] fds [of v] ne valid sub
    by (auto simp: serving_def stays_def)
qed

section \<open>A request\<close>

definition serve_request :: "addr \<Rightarrow> int \<Rightarrow> int \<Rightarrow> (app, int) prog" where
  "serve_request srv v fd = av_server_client_handle_request av_server_client_remove_by_fd
     (av_server_client_remove_by_fd srv) (\<lambda>b n. av_buffer_grow b (word_of_int n)) (unknown_ioctl v) srv fd"

lemma stays_refl [simp]: "stays h h"
  by (simp add: stays_def)

lemma stays_trans: "stays h h' \<Longrightarrow> stays h' h'' \<Longrightarrow> stays h h''"
  by (simp add: stays_def)

text \<open>The end of a newline: the \<open>ioctl\<close> that no device knows, and the buffer is emptied.\<close>

lemma proxied_run:
  assumes nf: "\<And>n. fault (env (w_os (outside h))) n = None" and b: "buffers (outside h) b = Some y"
  obtains r h' where "(pthen (unknown_ioctl v b) (pthen (set_used b 0) uninitialised)) h = Ok r h'" and "stays h h'"
    and "server_mem (outside h') = server_mem (outside h)" and "fds (w_os (outside h')) = fds (w_os (outside h))"
    and "buffers (outside h') = (buffers (outside h))(b \<mapsto> y\<lparr>bf_used := 0\<rparr>)"
proof -
  let ?w = "(w_os (outside h))\<lparr>clock := Suc (clock (w_os (outside h))), errno := ENOTTY\<rparr>"
  have "(pthen (unknown_ioctl v b) (pthen (set_used b 0) uninitialised)) h =
      (pthen (set_used b 0) uninitialised) (put_os ?w h)"
    using nf by (simp add: unknown_ioctl_def on_os_def put_os_def syscall_def fail_with_def prog_defs)
  also have "\<dots> = uninitialised (with_buffer b (y\<lparr>bf_used := 0\<rparr>) (put_os ?w h))"
    using b by (simp add: run)
  finally show thesis
    by (intro that [of _ "with_buffer b (y\<lparr>bf_used := 0\<rparr>) (put_os ?w h)"])
      (simp_all add: uninitialised_def prog_defs stays_def with_buffer_def put_os_def)
qed

lemma close_run:
  assumes "\<And>n. fault (env (w_os (outside h))) n = None" and "fds (w_os (outside h)) fd \<noteq> None"
  defines "w \<equiv> w_os (outside h)"
  shows "pbind (on_os (pcall (sys_close fd))) k h = k 0 (put_os (w\<lparr>clock := Suc (clock w), fds := (fds w)(fd := None)\<rparr>) h)"
  using assms by (auto simp: on_os_def put_os_def prog_defs sys_close_def Let_def)

lemma request_eof:
  assumes c: "client_buffer h srv fd b x" and nf: "\<And>n. fault (env (w_os (outside h))) n = None"
    and f: "fds (w_os (outside h)) fd = Some f" "f_kind f = F_sock" "f_in f = []" and mem: "\<And>n. \<not> oom h n"
    and small: "unat (bf_used x) < 8192"
  obtains r h' where "serve_request srv v fd h = Ok r h'" and "stays h h'"
    and "server_mem (outside h') = (server_mem (outside h))(srv := removed fd (server_mem (outside h) srv))"
    and "fds (w_os (outside h')) = (fds (w_os (outside h)))(fd := None)"
    and "\<And>c. c \<noteq> b \<Longrightarrow> buffers (outside h') c = buffers (outside h) c"
proof -
  let ?w = "w_os (outside h)"
  let ?h = "put_os (?w\<lparr>clock := Suc (clock ?w)\<rparr>) h"
  have x: "buffers (outside ?h) b = Some x" "fits x" "unat (bf_size x) + unat (word_of_int 0 :: u64) < 2 ^ 31 - 1024"
    using c by (simp_all add: client_buffer_def)
  obtain g y bs where g: "av_buffer_grow (Some b) (word_of_int 0) ?h = Ok 0 g" "same_but_buffers ?h g"
    "buffers (outside g) = (buffers (outside ?h))(b \<mapsto> y)" "bf_buf y = Some bs" "bf_used y = bf_used x"
    by (rule fits_grow [OF x]) (use mem in simp_all)
  have gw: "w_os (outside g) = ?w\<lparr>clock := Suc (clock ?w)\<rparr>" "chunks g = chunks h" "oom g = oom h"
    "server_mem (outside g) = server_mem (outside h)" "next_buffer (outside g) = next_buffer (outside h)"
    using g(2) by (simp_all add: same_but_buffers_def)
  obtain u where used: "sint (bf_used y) = int u" "u < 8192" "of_nat u = bf_used y"
    using x(2) buffer_size(3) [of "bf_used x"] small by (intro that [of "unat (bf_used x)"]) (simp_all add: fits_def g(5))
  have fdv: "fd_valid fd" "chunks h srv \<noteq> None" using c by (auto simp: client_buffer_def fd_valid_def AV_MAX_CLIENTS_def)
  let ?s = "?w\<lparr>clock := Suc (Suc (clock ?w)), fds := (fds ?w)(fd \<mapsto> f\<lparr>f_in := []\<rparr>)\<rparr>"
  let ?g = "with_buffer b y (put_os ?s g)"
  let ?g1 = "put_server srv (removed fd (server_mem (outside h) srv)) ?g"
  let ?g2 = "put_os (?s\<lparr>clock := Suc (clock ?s), fds := (fds ?s)(fd := None)\<rparr>) ?g1"
  have "serve_request srv v fd h = av_server_client_receive (av_server_client_remove_by_fd srv) (unknown_ioctl v) fd b g"
    unfolding serve_request_def using request_start [OF c nf f(1,2)] f(3) small g(1) by (simp add: pbind_def)
  also have "\<dots> = (pthen (av_server_client_remove_by_fd srv fd) (pthen (on_os (pcall (sys_close fd))) uninitialised)) ?g"
  proof -
    have recv: "pbind (on_os (pcall (sys_recv fd count))) k g = k (0, []) (put_os ?s g)"
      for count and k :: "int \<times> u8 list \<Rightarrow> (app, int) prog"
      using recv_run [of g fd f count k] nf f by (simp add: gw arriving_def xfer_len_def)
    show ?thesis
      using recv used g(3) by (simp add: av_server_client_receive_def MAX_MSG_SIZE_def run store_block_def)
  qed
  also have "\<dots> = (pthen (on_os (pcall (sys_close fd))) uninitialised) ?g1"
    using remove_by_fd_run [of ?g srv fd] fdv by (simp add: pbind_def gw with_buffer_def put_os_def)
  also have "\<dots> = uninitialised ?g2"
    using nf by (subst close_run) (simp_all add: put_server_def with_buffer_def put_os_def)
  finally show thesis
    by (intro that [of _ ?g2])
      (auto simp: uninitialised_def prog_defs stays_def put_server_def with_buffer_def put_os_def gw g(3) fun_eq_iff)
qed

lemma contents_split:
  assumes "bf_buf y = Some bs" and "sint (bf_used y) = int n"
  shows "contents y = take n bs"
proof -
  have "int (unat (bf_used y)) = int n" using buffer_size(3) [of "bf_used y"] assms(2) by (metis of_nat_0_le_iff)
  then have "unat (bf_used y) = n" by (simp only: of_nat_eq_iff)
  then show ?thesis using assms(1) by (simp add: contents_def)
qed

lemma length_contents: "fits x \<Longrightarrow> length (contents x) = unat (bf_used x)"
  by (auto simp: fits_def buffer_ok_def contents_def unsigned_eq_0_iff split: option.split)

lemma emptied:
  assumes "client_buffer h srv fd b y" and "bf_size y = 0 \<or> 1024 \<le> unat (bf_size y)" and "suffix bs sent"
    and "fds (w_os (outside h')) fd = Some f" "f_kind f = F_sock" "f_in f = bs" and "length sent < 1024"
    and "chunks h' = chunks h" "server_mem (outside h') = server_mem (outside h)"
    and "buffers (outside h') = (buffers (outside h))(b \<mapsto> y\<lparr>bf_used := 0\<rparr>)"
  shows "client_ok h' srv sent fd"
  unfolding client_ok_def using assms
  by (intro conjI exI [of _ b] exI [of _ "y\<lparr>bf_used := 0\<rparr>"] exI [of _ f])
    (auto simp: client_buffer_def fits_def buffer_ok_def contents_def split: option.split)

text \<open>A request with something to read: nothing of it is lost, and the client stays.\<close>

lemma request_data:
  assumes ok: "serving srv v sent h" and i: "i \<in> clients h srv v"
    and c: "client_buffer h srv i b x" "bf_size x = 0 \<or> 1024 \<le> unat (bf_size x)"
    and f: "fds (w_os (outside h)) i = Some f" "f_kind f = F_sock" "f_in f \<noteq> []"
    and all: "suffix (contents x @ f_in f) (sent i)" "length (sent i) < 1024"
  obtains r h' where "serve_request srv v i h = Ok r h'" and "touches srv i b h h'"
    and "server_mem (outside h') = server_mem (outside h)" and "client_ok h' srv (sent i) i"
proof -
  note d = servingD [OF ok]
  let ?u = "unat (bf_used x)" and ?cap = "unat (bf_size x)" and ?w = "length (f_in f)"
  let ?got = "arriving f ((w_os (outside h))\<lparr>clock := clock (w_os (outside h)) + 2\<rparr>)"
  have fx: "fits x" using c(1) by (simp add: client_buffer_def)
  have sum: "?u + ?w < 1024" using suffix_length_le [OF all(1)] all(2) length_contents [OF fx] by simp
  have got: "length ?got \<le> ?w" "take (length ?got) (f_in f) = ?got"
    by (simp_all add: arriving_def xfer_len_def)
  have fit: "\<not> (?w < ?cap \<and> (?cap < ?u + length ?got \<or> ?cap = ?u + length ?got \<and> last ?got = 10))"
    using c(2) sum got(1) by auto
  have small: "\<not> 8192 \<le> ?u + ?w" "length (f_in f) < 2 ^ 30" using sum by simp_all
  obtain h1 y bs where r: "serve_request srv v i h =
      (if last ?got = 10 then (pthen (unknown_ioctl v b) (pthen (set_used b 0) uninitialised)) h1 else Ok 0 h1)"
    and y: "buffers (outside h1) = (buffers (outside h))(b \<mapsto> y)" "sint (bf_used y) = int (?u + length ?got)" "bf_buf y = Some bs"
      "take (?u + length ?got) bs = contents x @ ?got" "client_buffer h1 srv i b y"
      "length bs = (if ?w < ?cap then ?cap else grown (?cap + ?w))"
    and w: "fds (w_os (outside h1)) = (fds (w_os (outside h)))(i \<mapsto> f\<lparr>f_in := drop (length ?got) (f_in f)\<rparr>)"
      "stays h h1" "server_mem (outside h1) = server_mem (outside h)"
    by (rule request_kept [where drop_client = av_server_client_remove_by_fd and leave = "av_server_client_remove_by_fd srv"
      and proxy = "unknown_ioctl v", OF c(1) d(1) f(1,2,3) small(2) d(2) small(1) fit, folded serve_request_def])
  have "1024 \<le> length bs" using y(6) c(2) by (auto simp: grown_def)
  moreover have "length bs = unat (bf_size y)" using y(3,5) by (simp add: client_buffer_def fits_def buffer_ok_def)
  ultimately have size: "bf_size y = 0 \<or> 1024 \<le> unat (bf_size y)" by simp
  have rest: "contents y @ drop (length ?got) (f_in f) = contents x @ f_in f"
    using contents_split [OF y(3,2)] got(2) y(4) by (metis append_take_drop_id append.assoc)
  have f1: "fds (w_os (outside h1)) i = Some (f\<lparr>f_in := drop (length ?got) (f_in f)\<rparr>)" by (simp add: w(1))
  show thesis
  proof (cases "last ?got = 10")
    case False
    have "client_ok h1 srv (sent i) i"
      unfolding client_ok_def using y(1,5) size f1 f(2) rest all
      by (intro conjI exI [of _ b] exI [of _ y] exI [of _ "f\<lparr>f_in := drop (length ?got) (f_in f)\<rparr>"]) simp_all
    moreover have "touches srv i b h h1" using y(1) w by (simp add: touches_def)
    ultimately show thesis using that [of 0 h1] r False w(3) by simp
  next
    case True
    have nf: "fault (env (w_os (outside h1))) n = None" for n using d(1) w(2) by (simp add: stays_def)
    have hb: "buffers (outside h1) b = Some y" by (simp add: y(1))
    obtain q h' where h': "(pthen (unknown_ioctl v b) (pthen (set_used b 0) uninitialised)) h1 = Ok q h'" "stays h1 h'"
      "server_mem (outside h') = server_mem (outside h1)" "fds (w_os (outside h')) = fds (w_os (outside h1))"
      "buffers (outside h') = (buffers (outside h1))(b \<mapsto> y\<lparr>bf_used := 0\<rparr>)"
      by (rule proxied_run [OF nf hb])
    have "suffix (drop (length ?got) (f_in f)) (sent i)"
      using all(1) rest by (metis suffix_appendD)
    then have "client_ok h' srv (sent i) i"
      by (intro emptied [OF y(5) size, where h' = h' and f = "f\<lparr>f_in := drop (length ?got) (f_in f)\<rparr>"]) (use f1 f(2) h' all(2) in \<open>simp_all add: stays_def\<close>)
    moreover have "touches srv i b h h'" using y(1) w h' by (simp add: touches_def stays_def)
    ultimately show thesis using that [of q h'] r True h' w(3) by simp
  qed
qed

text \<open>A request that finds the connection closed removes the client.\<close>

lemma request_leaves:
  assumes ok: "serving srv v sent h" and i: "i \<in> clients h srv v"
    and c: "client_buffer h srv i b x" and f: "fds (w_os (outside h)) i = Some f" "f_kind f = F_sock" "f_in f = []"
    and small: "unat (bf_used x) < 8192"
  obtains r h' where "serve_request srv v i h = Ok r h'" and "touches srv i b h h'"
    and "srv_valid srv h'" and "clients h' srv v = clients h srv v - {i}"
proof -
  note d = servingD [OF ok]
  let ?s = "server_mem (outside h) srv"
  obtain r h' where h': "serve_request srv v i h = Ok r h'" "stays h h'"
    "server_mem (outside h') = (server_mem (outside h))(srv := removed i ?s)"
    "fds (w_os (outside h')) = (fds (w_os (outside h)))(i := None)"
    "\<And>c. c \<noteq> b \<Longrightarrow> buffers (outside h') c = buffers (outside h) c"
    by (rule request_eof [where v = v, OF c d(1) f d(2) small]) blast
  have pos: "0 \<le> i" using client_bounds [OF ok i] by simp
  have cov: "covers (removed i ?s)" "sv_set (removed i ?s) = FD_CLR i (sv_set ?s)"
    using removed_covers [OF _ pos, of ?s] d(3) by (simp_all add: srv_valid_def)
  have same: "sv_clients (removed i ?s) = sv_clients ?s" "sv_fd (removed i ?s) = sv_fd ?s"
    by (simp_all add: removed_def Let_def split: option.split)
  have "srv_valid srv h'" using cov(1) removed_max [OF pos, of ?s] d(3) h'(3) by (auto simp: srv_valid_def covers_def)
  moreover have "clients h' srv v = clients h srv v - {i}"
    using pos by (auto simp: clients_def h'(3) cov(2) same(2) fd_simps)
  moreover have "touches srv i b h h'" using h' same by (simp add: touches_def)
  ultimately show thesis using that h'(1) by blast
qed

lemma request_served:
  assumes ok: "serving srv v sent h" and i: "i \<in> clients h srv v"
  obtains r h' where "serve_request srv v i h = Ok r h'" and "serving srv v sent h'" and "stays h h'"
    and "sv_fd (server_mem (outside h') srv) = sv_fd (server_mem (outside h) srv)"
    and "clients h srv v - {i} \<subseteq> clients h' srv v"
proof -
  obtain b x f where c: "client_buffer h srv i b x" "bf_size x = 0 \<or> 1024 \<le> unat (bf_size x)"
    and f: "fds (w_os (outside h)) i = Some f" "f_kind f = F_sock"
    and all: "suffix (contents x @ f_in f) (sent i)" "length (sent i) < 1024"
    using servingD(8) [OF ok i] by (auto simp: client_ok_def)
  have b: "cl_msg (sv_clients (server_mem (outside h) srv) ! nat i) = Some b" using c(1) by (simp add: client_buffer_def)
  note result = that
  have finish: thesis
    if r: "serve_request srv v i h = Ok r h'" and t: "touches srv i b h h'" and valid: "srv_valid srv h'"
      and sub: "clients h' srv v \<subseteq> clients h srv v" "clients h srv v - {i} \<subseteq> clients h' srv v"
      and self: "i \<in> clients h' srv v \<Longrightarrow> client_ok h' srv (sent i) i" for r h'
  proof -
    have "serving srv v sent h'" by (rule serving_touched [OF ok i t b valid sub(1) self]) (use f in auto)
    then show thesis using result [OF r] t sub(2) by (simp add: touches_def)
  qed
  show thesis
  proof (cases "f_in f = []")
    case True
    have "unat (bf_used x) < 8192"
      using suffix_length_le [OF all(1)] all(2) c(1) length_contents [of x] by (simp add: client_buffer_def)
    from ok i c(1) f True this show thesis
      by (rule request_leaves) (rule finish, auto)
  next
    case False
    from ok i c f False all show thesis
    proof (rule request_data)
      fix r h'
      assume r: "serve_request srv v i h = Ok r h'" "touches srv i b h h'"
        and s: "server_mem (outside h') = server_mem (outside h)" and "client_ok h' srv (sent i) i"
      then show thesis
        using servingD(3) [OF ok] by (intro finish [OF r]) (auto simp: srv_valid_def clients_def)
    qed
  qed
qed

section \<open>A connection\<close>

lemma accept_served:
  assumes ok: "serving srv v sent h" and lim: "next_fd (w_os (outside h)) < 32" and short: "\<And>t. length (peers t) < 1024"
  obtains h' bs where "av_server_client_accept peers srv h = Ok (int (next_fd (w_os (outside h)))) h'"
    and "bs \<in> range peers" and "serving srv v (sent(int (next_fd (w_os (outside h))) := bs)) h'"
    and "next_fd (w_os (outside h')) = Suc (next_fd (w_os (outside h)))"
    and "sv_fd (server_mem (outside h') srv) = sv_fd (server_mem (outside h) srv)"
    and "clients h' srv v = insert (int (next_fd (w_os (outside h)))) (clients h srv v)"
proof -
  note d = servingD [OF ok]
  let ?w = "w_os (outside h)" and ?s = "server_mem (outside h) srv" and ?b = "next_buffer (outside h)"
  let ?fd = "int (next_fd ?w)" and ?x = "\<lparr>bf_buf = None, bf_used = 0, bf_size = 0\<rparr>"
  let ?bs = "peers (clock ?w + 1)"
  have cov: "covers ?s" using d(3) by (simp add: srv_valid_def)
  obtain f where f: "fds ?w (sv_fd ?s) = Some f" "f_kind f = F_sock" using d(6) by blast
  have fd: "0 \<le> ?fd" "?fd < int AV_MAX_CLIENTS" using lim by (simp_all add: AV_MAX_CLIENTS_def)
  obtain h' where h': "av_server_client_accept peers srv h = Ok ?fd h'"
    "server_mem (outside h') = (server_mem (outside h))(srv := joined ?fd ?b ?s)" "client_buffer h' srv ?fd ?b ?x"
    "buffers (outside h') = (buffers (outside h))(?b \<mapsto> ?x)" "next_buffer (outside h') = Suc ?b"
    "chunks h' = chunks h" "oom h' = oom h" "env (w_os (outside h')) = env ?w" "next_fd (w_os (outside h')) = Suc (next_fd ?w)"
    "fds (w_os (outside h')) = (fds ?w)(?fd \<mapsto> new_socket ?bs)"
    using accept_run(2) [OF d(4,1) refl d(5) cov f d(2) fd(2)] by blast
  note tab = joined_table [OF d(5) cov fd]
  have new: "?fd \<noteq> sv_fd ?s" "?fd \<noteq> v" "?fd \<notin> clients h srv v"
    using d(11) [of ?fd] f d(7) clients_open [OF ok fd(1)] by (auto simp: clients_def)
  have cl: "clients h' srv v = insert ?fd (clients h srv v)"
    using new fd by (auto simp: clients_def h'(2) joined_def added_def fd_simps AV_MAX_CLIENTS_def)
  have at: "sv_clients (joined ?fd ?b ?s) ! nat j = sv_clients ?s ! nat j" if "j \<in> clients h srv v" for j
    using client_bounds [OF ok that] that new(3) by (simp add: joined_def) (metis nat_int nat_0_le nth_list_update_neq)
  have old: "client_ok h' srv (sent j) j" if j: "j \<in> clients h srv v" for j
  proof -
    obtain c x f where "client_buffer h srv j c x" "length (sent j) < 1024" "bf_size x = 0 \<or> 1024 \<le> unat (bf_size x)"
      "fds ?w j = Some f" "f_kind f = F_sock" "suffix (contents x @ f_in f) (sent j)"
      using d(8) [OF j] by (auto simp: client_ok_def)
    moreover from this have "c \<noteq> ?b" using d(9) [OF j] by (auto simp: client_buffer_def)
    ultimately show ?thesis
      unfolding client_ok_def using h' j new(3) at [OF j]
      by (intro conjI exI [of _ c] exI [of _ x] exI [of _ f]) (auto simp: client_buffer_def)
  qed
  have fresh: "client_ok h' srv ?bs ?fd"
    unfolding client_ok_def using h' short
    by (intro conjI exI [of _ ?b] exI [of _ ?x] exI [of _ "new_socket ?bs"]) (auto simp: contents_def new_socket_def)
  have msg: "\<exists>b < Suc ?b. cl_msg (sv_clients (joined ?fd ?b ?s) ! nat j) = Some b" if "j \<in> insert ?fd (clients h srv v)" for j
    using that tab(4) d(9) [of j] at [of j] by (cases "j = ?fd") (auto intro: less_SucI)
  have "cl_msg (sv_clients ?s ! nat j) \<noteq> Some ?b" if "j \<in> clients h srv v" for j
    using d(9) [OF that] by auto
  then have "inj_on (\<lambda>j. cl_msg (sv_clients (joined ?fd ?b ?s) ! nat j)) (insert ?fd (clients h srv v))"
    using d(10) at tab(4) by (auto simp: inj_on_def) metis+
  moreover have "srv_valid srv h'"
    using d(3) tab(2) fd(2) h'(2) by (auto simp: srv_valid_def joined_def added_def AV_MAX_CLIENTS_def)
  moreover have "\<forall>j \<ge> int (Suc (next_fd ?w)). ((fds ?w)(?fd \<mapsto> new_socket ?bs)) j = None" using d(11) by simp
  moreover have "client_ok h' srv ((sent(?fd := ?bs)) j) j" if "j \<in> insert ?fd (clients h srv v)" for j
    using that old [of j] fresh by (cases "j = ?fd") auto
  ultimately have "serving srv v (sent(?fd := ?bs)) h'"
    using d(1,2,4,5,7) f new msg h' unfolding serving_def cl
    by (simp add: quiet_def joined_def added_def)
  then show thesis
    by (rule that [OF h'(1) rangeI _ h'(9) _ cl]) (simp add: h'(2) joined_def added_def)
qed

section \<open>Rounds\<close>

definition short :: "(nat \<Rightarrow> u8 list) \<Rightarrow> bool" where
  "short peers \<longleftrightarrow> (\<forall>t. length (peers t) < 1024)"

text \<open>Every connection carries what \<open>sent\<close> said, or what a peer had to say.\<close>

definition extends :: "(nat \<Rightarrow> u8 list) \<Rightarrow> (int \<Rightarrow> u8 list) \<Rightarrow> (int \<Rightarrow> u8 list) \<Rightarrow> bool" where
  "extends peers sent sent' \<longleftrightarrow> (\<forall>i. sent' i = sent i \<or> sent' i \<in> range peers)"

lemma extends_refl [simp]: "extends peers sent sent"
  by (simp add: extends_def)

lemma extends_trans: "extends peers s t \<Longrightarrow> extends peers t u \<Longrightarrow> extends peers s u"
  unfolding extends_def by metis

lemma handle_served:
  assumes ok: "serving srv v sent h" and peers: "short peers"
  defines "self \<equiv> sv_fd (server_mem (outside h) srv)" and "k \<equiv> next_fd (w_os (outside h))"
  assumes i: "i = self \<and> k < 32 \<or> i = v \<and> i \<noteq> self \<or> i \<in> clients h srv v"
  obtains h' sent' where "handle_ready (srv_parts peers pending srv v) s i h = Ok () h'"
    and "serving srv v sent' h'" and "extends peers sent sent'"
    and "next_fd (w_os (outside h')) = (if i = self then Suc k else k)" and "sv_fd (server_mem (outside h') srv) = self"
    and "clients h srv v - {i} \<subseteq> clients h' srv v"
proof -
  note result = that
  have step: "handle_ready (srv_parts peers pending srv v) s i h =
    (if i = self then (pthen (av_server_client_accept peers srv) (pret ())) h
     else if i = v then Ok () h else (pthen (serve_request srv v i) (pret ())) h)"
    by (simp add: handle_ready_def srv_parts_def srv_cli_def serve_request_def self_def prog_defs Let_def)
  consider (accept) "i = self" "k < 32" | (device) "i = v" "i \<noteq> self" | (request) "i \<in> clients h srv v" "i \<noteq> self" "i \<noteq> v"
    using i by (auto simp: clients_def self_def)
  then show thesis
  proof cases
    case accept
    obtain h' bs where acc: "av_server_client_accept peers srv h = Ok (int k) h'" and bs: "bs \<in> range peers"
      and "serving srv v (sent(int k := bs)) h'" "next_fd (w_os (outside h')) = Suc k"
      "sv_fd (server_mem (outside h') srv) = self" "clients h' srv v = insert (int k) (clients h srv v)"
      using accept_served [OF ok accept(2) [unfolded k_def], of peers] peers by (auto simp: short_def self_def k_def)
    moreover have "handle_ready (srv_parts peers pending srv v) s i h = Ok () h'"
      using step accept(1) acc by (simp add: pbind_def pret_def)
    moreover have "extends peers sent (sent(int k := bs))" using bs by (simp add: extends_def)
    ultimately show thesis using accept(1) by (intro result) auto
  next
    case device
    then have "handle_ready (srv_parts peers pending srv v) s i h = Ok () h" using step by simp
    then show thesis using device ok by (intro result [of h sent]) (auto simp: self_def k_def)
  next
    case request
    obtain r h' where "serve_request srv v i h = Ok r h'" "serving srv v sent h'" "stays h h'"
      "sv_fd (server_mem (outside h') srv) = self" "clients h srv v - {i} \<subseteq> clients h' srv v"
      using request_served [OF ok request(1)] unfolding self_def by blast
    then show thesis
      using request by (intro result [of h' sent]) (auto simp: step pbind_def pret_def stays_def k_def)
  qed
qed

lemma handle_all_served:
  assumes "serving srv v sent h" and peers: "short peers" and "distinct is"
  defines "accepts \<equiv> \<lambda>h. if sv_fd (server_mem (outside h) srv) \<in> set is then 1 else 0 :: nat"
  assumes "\<And>i. i \<in> set is \<Longrightarrow> i = sv_fd (server_mem (outside h) srv) \<or> i = v \<or> i \<in> clients h srv v"
    and "next_fd (w_os (outside h)) + accepts h \<le> 32"
  shows "\<exists>h' sent'. handle_all (srv_parts peers pending srv v) s is h = Ok () h' \<and> serving srv v sent' h' \<and>
    extends peers sent sent' \<and> next_fd (w_os (outside h')) \<le> next_fd (w_os (outside h)) + accepts h \<and>
    sv_fd (server_mem (outside h') srv) = sv_fd (server_mem (outside h) srv)"
  using assms(1,3,5,6) unfolding accepts_def
proof (induction "is" arbitrary: h sent)
  case Nil
  then show ?case by (auto simp: pret_def)
next
  case (Cons i js)
  let ?self = "sv_fd (server_mem (outside h) srv)" and ?k = "next_fd (w_os (outside h))"
  let ?P = "srv_parts peers pending srv v"
  have "i = ?self \<and> ?k < 32 \<or> i = v \<and> i \<noteq> ?self \<or> i \<in> clients h srv v"
    using Cons.prems(3) [of i] Cons.prems(4) by (auto split: if_splits)
  then obtain h1 sent1 where h1: "handle_ready ?P s i h = Ok () h1"
    "serving srv v sent1 h1" "extends peers sent sent1" "next_fd (w_os (outside h1)) = (if i = ?self then Suc ?k else ?k)"
    "sv_fd (server_mem (outside h1) srv) = ?self" "clients h srv v - {i} \<subseteq> clients h1 srv v"
    by (rule handle_served [OF Cons.prems(1) peers])
  have rest: "j = sv_fd (server_mem (outside h1) srv) \<or> j = v \<or> j \<in> clients h1 srv v" if "j \<in> set js" for j
    using Cons.prems(2) Cons.prems(3) [of j] that h1(5,6) by auto
  have bound: "next_fd (w_os (outside h1)) + (if sv_fd (server_mem (outside h1) srv) \<in> set js then 1 else 0) \<le>
      ?k + (if ?self \<in> set (i # js) then 1 else 0)"
    using Cons.prems(2) h1(4,5) by auto
  obtain h' sent' where h': "handle_all ?P s js h1 = Ok () h'" "serving srv v sent' h'" "extends peers sent1 sent'"
    "next_fd (w_os (outside h')) \<le> next_fd (w_os (outside h1)) + (if sv_fd (server_mem (outside h1) srv) \<in> set js then 1 else 0)"
    "sv_fd (server_mem (outside h') srv) = sv_fd (server_mem (outside h1) srv)"
    using Cons.IH [OF h1(2) _ rest] Cons.prems(2,4) bound by auto
  show ?case
    using h' h1(1,5) bound extends_trans [OF h1(3) h'(3)]
    by (intro exI [of _ h'] exI [of _ sent']) (simp add: pbind_def)
qed

lemma serving_later: "serving srv v sent h \<Longrightarrow> serving srv v sent (put_os ((w_os (outside h))\<lparr>clock := c\<rparr>) h)"
  by (simp add: serving_def quiet_def srv_valid_def clients_def client_ok_def client_buffer_def put_os_def)

lemma round_served:
  assumes ok: "serving srv v sent h" and peers: "short peers" and lim: "next_fd (w_os (outside h)) < 32"
  shows "\<exists>h' sent'. main_round (srv_parts peers pending srv v) s h = Ok () h' \<and> serving srv v sent' h' \<and>
    extends peers sent sent' \<and> next_fd (w_os (outside h')) \<le> Suc (next_fd (w_os (outside h)))"
proof -
  let ?w = "w_os (outside h)" and ?set = "sv_set (server_mem (outside h) srv)"
  let ?ready = "members (?set AND pending (clock ?w + 1))"
  let ?g = "put_os (?w\<lparr>clock := clock ?w + 1\<rparr>) h"
  have "main_round (srv_parts peers pending srv v) s h = handle_all (srv_parts peers pending srv v) s ?ready ?g"
    using main_round_run [OF servingD(3) [OF ok], of peers pending v s] servingD(1) [OF ok] clients_open [OF ok] by simp
  moreover have g: "serving srv v sent ?g" by (rule serving_later [OF ok])
  moreover have "i = sv_fd (server_mem (outside ?g) srv) \<or> i = v \<or> i \<in> clients ?g srv v" if "i \<in> set ?ready" for i
    using that by (auto simp: set_readable clients_def)
  moreover have "next_fd (w_os (outside ?g)) + (if sv_fd (server_mem (outside ?g) srv) \<in> set ?ready then 1 else 0) \<le> 32"
    using lim by (simp add: put_os_def)
  ultimately obtain h' sent' where "main_round (srv_parts peers pending srv v) s h = Ok () h'" "serving srv v sent' h'"
    "extends peers sent sent'"
    "next_fd (w_os (outside h')) \<le> next_fd (w_os (outside ?g)) + (if sv_fd (server_mem (outside ?g) srv) \<in> set ?ready then 1 else 0)"
    using handle_all_served [OF g peers set_readable(3)] by metis
  then show ?thesis by (intro exI [of _ h'] exI [of _ sent']) (simp add: put_os_def split: if_splits)
qed

lemma rounds_served:
  "serving srv v sent h \<Longrightarrow> short peers \<Longrightarrow> next_fd (w_os (outside h)) + n \<le> 32 \<Longrightarrow>
   \<exists>h' sent'. main_rounds n (srv_parts peers pending srv v) s h = Ok () h' \<and> serving srv v sent' h' \<and> extends peers sent sent'"
proof (induction n arbitrary: h sent)
  case 0
  then show ?case by (auto simp: pret_def)
next
  case (Suc n)
  obtain h1 sent1 where h1: "main_round (srv_parts peers pending srv v) s h = Ok () h1" "serving srv v sent1 h1"
    "extends peers sent sent1" "next_fd (w_os (outside h1)) \<le> Suc (next_fd (w_os (outside h)))"
    using round_served [OF Suc.prems(1,2), of pending s] Suc.prems(3) by auto
  obtain h' sent' where "main_rounds n (srv_parts peers pending srv v) s h1 = Ok () h'" "serving srv v sent' h'"
    "extends peers sent1 sent'"
    using Suc.IH [OF h1(2) Suc.prems(2)] Suc.prems(3) h1(4) by auto
  then show ?case using h1(1) extends_trans [OF h1(3)] by (auto simp: pbind_def)
qed

section \<open>Setting up\<close>

lemma socket_create_run:
  assumes nf: "\<And>n. fault (env (w_os (outside h))) n = None" and path: "length path < SUN_PATH_SIZE"
  defines "w \<equiv> w_os (outside h)"
  defines "k \<equiv> next_fd w"
  shows "av_server_socket_create path h = Ok (int k)
    (put_os (w\<lparr>clock := clock w + 4, fds := (fds w)(int k \<mapsto> new_socket []), next_fd := Suc k\<rparr>) h)"
proof -
  let ?s = "\<lambda>n. w\<lparr>clock := clock w + n, fds := (fds w)(int k \<mapsto> new_socket []), next_fd := Suc k\<rparr>"
  have calls: "sys_socket w = (int k, ?s 1)" "sys_unlink path (?s 1) = (0, ?s 2)"
    "sys_bind (int k) path (?s 2) = (0, ?s 3)" "sys_listen (int k) 5 (?s 3) = (0, ?s 4)"
    using nf by (simp_all add: socket_defs new_fd_def new_socket_def w_def k_def)
  show ?thesis
    using path calls by (simp add: av_server_socket_create_def on_os_def put_os_def prog_defs w_def)
qed

lemma setup_served:
  assumes q: "quiet h" and al: "chunks h srv \<noteq> None" and v: "fds (w_os (outside h)) v \<noteq> None" "0 \<le> v" "v < 32"
    and fresh: "\<And>i. int (next_fd (w_os (outside h))) \<le> i \<Longrightarrow> fds (w_os (outside h)) i = None"
    and lim: "next_fd (w_os (outside h)) < 32"
  defines "k \<equiv> next_fd (w_os (outside h))"
  obtains h' where "main_setup (srv_parts peers pending srv v) h = Ok (int k, v) h'"
    and "serving srv v (\<lambda>_. []) h'" and "next_fd (w_os (outside h')) = Suc k"
proof -
  let ?P = "srv_parts peers pending srv v" and ?w = "w_os (outside h)"
  let ?w1 = "?w\<lparr>clock := clock ?w + 4, fds := (fds ?w)(int k \<mapsto> new_socket []), next_fd := Suc k\<rparr>"
  let ?s0 = "zero_server\<lparr>sv_fd := int k\<rparr>"
  let ?h0 = "put_server srv ?s0 (put_os ?w1 h)"
  have nf: "fault (env ?w) n = None" and mem: "\<not> oom h n" for n using q by (simp_all add: quiet_def)
  have vk: "v \<noteq> int k" using v fresh [of "int k"] by (auto simp: k_def)
  have k: "0 \<le> int k" "int k < int AV_MAX_CLIENTS" and v2: "v < int AV_MAX_CLIENTS"
    using lim v by (simp_all add: k_def AV_MAX_CLIENTS_def)
  have cov0: "covers ?s0" "length (sv_clients ?s0) = AV_MAX_CLIENTS"
    by (auto simp: covers_def zero_server_def FD_ISSET_def)
  define b where "b = next_buffer (outside h)"
  let ?s1 = "joined (int k) b ?s0" and ?s2 = "joined v (Suc b) (joined (int k) b ?s0)"
  have cov1: "covers ?s1" "length (sv_clients ?s1) = AV_MAX_CLIENTS"
    using joined_table(2) [OF cov0(2,1) k] cov0(2) by (simp_all add: joined_def added_def)
  have cov2: "covers ?s2" "length (sv_clients ?s2) = AV_MAX_CLIENTS"
    using joined_table(2) [OF cov1(2,1) v(2) v2] cov1(2) by (simp_all add: joined_def added_def)
  obtain r h1 where h1: "av_server_client_add_by_fd srv (int k) ?h0 = Ok r h1" "chunks h1 = chunks h" "oom h1 = oom h"
    "server_mem (outside h1) = (server_mem (outside ?h0))(srv := ?s1)" "next_buffer (outside h1) = Suc b" "w_os (outside h1) = ?w1"
    using add_by_fd_run [of ?h0 srv "int k"] al k cov0(2) mem by (auto simp: b_def put_server_def put_os_def)
  obtain r2 h2 where h2: "av_server_client_add_by_fd srv v h1 = Ok r2 h2" "chunks h2 = chunks h" "oom h2 = oom h"
    "server_mem (outside h2) = (server_mem (outside h1))(srv := ?s2)" "next_buffer (outside h2) = Suc (Suc b)" "w_os (outside h2) = ?w1"
    using add_by_fd_run [of h1 srv v] al v(2) v2 cov1(2) mem h1 by auto
  have init: "client_init ?P h = Ok () (put_server srv zero_server h)"
    using upd_server_run [of h srv "\<lambda>_. zero_server"] al by (simp add: srv_parts_def)
  have sock: "av_server_socket_setup ?P (put_server srv zero_server h) = Ok (int k) (put_os ?w1 (put_server srv zero_server h))"
    using socket_create_run [of "put_server srv zero_server h" "''/tmp/v4lproxy.sock''"] nf
    by (simp add: srv_parts_def SUN_PATH_SIZE_def put_server_def k_def)
  have self: "set_cli ?P ((cli ?P g)\<lparr>cs_self := int k\<rparr>) g = ?h0" if "g = put_os ?w1 (put_server srv zero_server h)" for g
    using that by (simp add: srv_parts_def srv_cli_def Let_def put_server_def put_os_def)
  have dev: "set_cli ?P ((cli ?P h1)\<lparr>cs_device := v\<rparr>) h1 = h1"
    by (simp add: srv_parts_def srv_cli_def Let_def put_server_def)
  have adds: "client_add ?P (int k) ?h0 = Ok () h1" "client_add ?P v h1 = Ok () h2"
    using h1(1) h2(1) by (simp_all add: srv_parts_def pbind_def pret_def)
  have video: "video_setup ?P g = Ok v g" for g by (simp add: srv_parts_def pret_def)
  have "main_setup ?P h = Ok (int k, v) h2"
    using init sock self [OF refl] dev adds video
    by (simp add: main_setup_def upd_cli_def pbind_def pmodify_def pret_def)
  moreover have none: "\<not> FD_ISSET i 0" for i by (simp add: FD_ISSET_def)
  moreover have "clients h2 srv v = {}"
    using k v(2) v2 by (auto simp: clients_def h2(4) joined_def added_def fd_simps zero_server_def AV_MAX_CLIENTS_def none)
  moreover have "srv_valid srv h2"
    using cov2(1) k v2 by (simp add: srv_valid_def h2(4) joined_def added_def zero_server_def AV_MAX_CLIENTS_def)
  ultimately have "main_setup ?P h = Ok (int k, v) h2" "serving srv v (\<lambda>_. []) h2"
    using nf mem al cov2(2) h2 v fresh vk
    by (auto simp: serving_def quiet_def joined_def added_def new_socket_def k_def)
  then show thesis by (rule that) (simp add: h2(6))
qed

section \<open>The whole program\<close>



end
