(* ===== verification/Ccan_List.thy ===== *)
theory Ccan_List
  imports Prelude
begin

text \<open>
  ccan/list: doubly linked circular lists through a head. A node is embedded in a structure, and
  \<open>container_of\<close> goes from one to the other by a constant offset, so that one address stands for
  both. The parameter \<open>debug\<close> is whether \<open>CCAN_LIST_DEBUG\<close> is defined.
\<close>

section \<open>Nodes\<close>

record list_node =
  ln_next :: "nat option"
  ln_prev :: "nat option"

text \<open>The memory; all nodes are at addresses below \<open>lsize\<close>, which bounds the walks along pointers.\<close>

record lheap =
  lnodes :: "nat \<Rightarrow> list_node option"
  lsize :: nat

definition get_node :: "nat \<Rightarrow> (lheap, list_node) prog" where
  "get_node a = (\<lambda>s. case lnodes s a of None \<Rightarrow> Stop Segv | Some x \<Rightarrow> Ok x s)"

definition upd_node :: "nat \<Rightarrow> (list_node \<Rightarrow> list_node) \<Rightarrow> (lheap, unit) prog" where
  "upd_node a f = (\<lambda>s. case lnodes s a of None \<Rightarrow> Stop Segv
     | Some x \<Rightarrow> Ok () (s\<lparr>lnodes := (lnodes s)(a \<mapsto> f x)\<rparr>))"

section \<open>Checking a list\<close>

definition corrupt :: "bool \<Rightarrow> (lheap, nat option) prog" where
  "corrupt abortstr = (if abortstr then pstop Abort else pret None)"

fun check_loop :: "nat \<Rightarrow> nat \<Rightarrow> bool \<Rightarrow> nat \<Rightarrow> nat option \<Rightarrow> (lheap, nat option) prog" where
  "check_loop 0 h abortstr p n = pstop Diverge"
| "check_loop (Suc k) h abortstr p n =
     (if n = Some h then pret (Some h)
      else
        pbind (pvalid n) (\<lambda>a.
        pbind (get_node a) (\<lambda>x.
        if ln_prev x \<noteq> Some p then corrupt abortstr
        else check_loop k h abortstr a (ln_next x))))"

definition list_check :: "nat \<Rightarrow> bool \<Rightarrow> (lheap, nat option) prog" where
  "list_check h abortstr =
     pbind (get_node h) (\<lambda>x.
     if ln_next x = Some h
     then (if ln_prev x \<noteq> Some h then corrupt abortstr else pret (Some h))
     else pbind (pgets lsize) (\<lambda>k. check_loop (Suc k) h abortstr h (ln_next x)))"

definition debug_list :: "bool \<Rightarrow> nat option \<Rightarrow> (lheap, unit) prog" where
  "debug_list debug h = (if debug then pbind (pvalid h) (\<lambda>a. pthen (list_check a True) (pret ())) else pret ())"

section \<open>Operations\<close>

definition list_head_init :: "nat \<Rightarrow> (lheap, unit) prog" where
  "list_head_init h =
     pthen (upd_node h (\<lambda>x. x\<lparr>ln_prev := Some h\<rparr>))
       (upd_node h (\<lambda>x. x\<lparr>ln_next := Some h\<rparr>))"

definition list_add :: "bool \<Rightarrow> nat \<Rightarrow> nat \<Rightarrow> (lheap, unit) prog" where
  "list_add debug h n =
     pbind (get_node h) (\<lambda>x.
     pthen (upd_node n (\<lambda>y. y\<lparr>ln_next := ln_next x\<rparr>))
    (pthen (upd_node n (\<lambda>y. y\<lparr>ln_prev := Some h\<rparr>))
    (pbind (get_node h) (\<lambda>x.
     pbind (pvalid (ln_next x)) (\<lambda>b.
     pthen (upd_node b (\<lambda>y. y\<lparr>ln_prev := Some n\<rparr>))
    (pthen (upd_node h (\<lambda>y. y\<lparr>ln_next := Some n\<rparr>))
      (debug_list debug (Some h))))))))"

definition list_add_tail :: "bool \<Rightarrow> nat \<Rightarrow> nat \<Rightarrow> (lheap, unit) prog" where
  "list_add_tail debug h n =
     pthen (upd_node n (\<lambda>y. y\<lparr>ln_next := Some h\<rparr>))
    (pbind (get_node h) (\<lambda>x.
     pthen (upd_node n (\<lambda>y. y\<lparr>ln_prev := ln_prev x\<rparr>))
    (pbind (get_node h) (\<lambda>x.
     pbind (pvalid (ln_prev x)) (\<lambda>b.
     pthen (upd_node b (\<lambda>y. y\<lparr>ln_next := Some n\<rparr>))
    (pthen (upd_node h (\<lambda>y. y\<lparr>ln_prev := Some n\<rparr>))
      (debug_list debug (Some h))))))))"

definition list_del :: "bool \<Rightarrow> nat \<Rightarrow> (lheap, unit) prog" where
  "list_del debug n =
     pbind (get_node n) (\<lambda>x.
     pbind (pvalid (ln_next x)) (\<lambda>b.
     pthen (upd_node b (\<lambda>y. y\<lparr>ln_prev := ln_prev x\<rparr>))
    (pbind (get_node n) (\<lambda>x.
     pbind (pvalid (ln_prev x)) (\<lambda>a.
     pthen (upd_node a (\<lambda>y. y\<lparr>ln_next := ln_next x\<rparr>))
    (pbind (get_node n) (\<lambda>x.
     pthen (debug_list debug (ln_next x))
       (if debug then upd_node n (\<lambda>y. y\<lparr>ln_next := None, ln_prev := None\<rparr>) else pret ()))))))))"

definition list_empty :: "bool \<Rightarrow> nat \<Rightarrow> (lheap, bool) prog" where
  "list_empty debug h =
     pthen (debug_list debug (Some h))
    (pbind (get_node h) (\<lambda>x. pret (ln_next x = Some h)))"

definition list_top :: "bool \<Rightarrow> nat \<Rightarrow> (lheap, nat option) prog" where
  "list_top debug h =
     pbind (list_empty debug h) (\<lambda>empty.
     if empty then pret None else pbind (get_node h) (\<lambda>x. pret (ln_next x)))"

definition list_tail :: "bool \<Rightarrow> nat \<Rightarrow> (lheap, nat option) prog" where
  "list_tail debug h =
     pbind (list_empty debug h) (\<lambda>empty.
     if empty then pret None else pbind (get_node h) (\<lambda>x. pret (ln_prev x)))"

text \<open>The loops, with the statement they repeat as a parameter.\<close>

fun each_loop :: "nat \<Rightarrow> nat \<Rightarrow> (nat \<Rightarrow> (lheap, unit) prog) \<Rightarrow> nat option \<Rightarrow> (lheap, unit) prog" where
  "each_loop 0 h body i = pstop Diverge"
| "each_loop (Suc k) h body i =
     (if i = Some h then pret ()
      else
        pbind (pvalid i) (\<lambda>a.
        pthen (body a)
       (pbind (get_node a) (\<lambda>x. each_loop k h body (ln_next x)))))"

definition list_for_each :: "bool \<Rightarrow> nat \<Rightarrow> (nat \<Rightarrow> (lheap, unit) prog) \<Rightarrow> (lheap, unit) prog" where
  "list_for_each debug h body =
     pthen (debug_list debug (Some h))
    (pbind (get_node h) (\<lambda>x.
     pbind (pgets lsize) (\<lambda>k. each_loop (Suc k) h body (ln_next x))))"

fun safe_loop :: "nat \<Rightarrow> nat \<Rightarrow> (nat \<Rightarrow> (lheap, unit) prog) \<Rightarrow> nat option \<Rightarrow> nat option \<Rightarrow> (lheap, unit) prog" where
  "safe_loop 0 h body i nxt = pstop Diverge"
| "safe_loop (Suc k) h body i nxt =
     (if i = Some h then pret ()
      else
        pbind (pvalid i) (\<lambda>a.
        pthen (body a)
       (pbind (pvalid nxt) (\<lambda>b.
        pbind (get_node b) (\<lambda>x. safe_loop k h body nxt (ln_next x))))))"

definition list_for_each_safe :: "bool \<Rightarrow> nat \<Rightarrow> (nat \<Rightarrow> (lheap, unit) prog) \<Rightarrow> (lheap, unit) prog" where
  "list_for_each_safe debug h body =
     pthen (debug_list debug (Some h))
    (pbind (get_node h) (\<lambda>x.
     pbind (pvalid (ln_next x)) (\<lambda>i.
     pbind (get_node i) (\<lambda>y.
     pbind (pgets lsize) (\<lambda>k. safe_loop (Suc k) h body (Some i) (ln_next y))))))"

section \<open>Rings\<close>

definition nxt :: "lheap \<Rightarrow> nat \<Rightarrow> nat option" where
  "nxt s a = (case lnodes s a of None \<Rightarrow> None | Some x \<Rightarrow> ln_next x)"

definition prv :: "lheap \<Rightarrow> nat \<Rightarrow> nat option" where
  "prv s a = (case lnodes s a of None \<Rightarrow> None | Some x \<Rightarrow> ln_prev x)"

text \<open>From \<open>a\<close> through \<open>xs\<close> to \<open>b\<close>, forwards and backwards.\<close>

fun path :: "lheap \<Rightarrow> nat \<Rightarrow> nat list \<Rightarrow> nat \<Rightarrow> bool" where
  "path s a [] b \<longleftrightarrow> nxt s a = Some b \<and> prv s b = Some a"
| "path s a (x # xs) b \<longleftrightarrow> nxt s a = Some x \<and> prv s x = Some a \<and> path s x xs b"

definition ring :: "lheap \<Rightarrow> nat \<Rightarrow> nat list \<Rightarrow> bool" where
  "ring s h xs \<longleftrightarrow> distinct (h # xs) \<and> path s h xs h"

definition heap_ok :: "lheap \<Rightarrow> bool" where
  "heap_ok s \<longleftrightarrow> (\<forall>a. lnodes s a \<noteq> None \<longrightarrow> a < lsize s)"

lemma path_append: "path s a (xs @ y # ys) b \<longleftrightarrow> path s a xs y \<and> path s y ys b"
  by (induction xs arbitrary: a) auto

lemma path_cong:
  "(\<And>p. p \<in> set (a # xs) \<Longrightarrow> nxt s' p = nxt s p) \<Longrightarrow> (\<And>q. q \<in> set xs \<or> q = b \<Longrightarrow> prv s' q = prv s q) \<Longrightarrow>
   path s' a xs b = path s a xs b"
  by (induction xs arbitrary: a) auto

lemma path_ends:
  "path s a xs b \<Longrightarrow> nxt s a = Some (hd (xs @ [b])) \<and> prv s b = Some (last (a # xs))"
  by (induction xs arbitrary: a) auto

lemma path_alloc: "path s a xs b \<Longrightarrow> p \<in> set (a # xs) \<or> p = b \<Longrightarrow> \<exists>x. lnodes s p = Some x"
  by (induction xs arbitrary: a) (auto simp: nxt_def prv_def split: option.splits)

text \<open>Memory accesses in terms of the links.\<close>

definition set_next :: "nat \<Rightarrow> nat option \<Rightarrow> lheap \<Rightarrow> lheap" where
  "set_next a v s = s\<lparr>lnodes := (lnodes s)(a := map_option (\<lambda>x. x\<lparr>ln_next := v\<rparr>) (lnodes s a))\<rparr>"

definition set_prev :: "nat \<Rightarrow> nat option \<Rightarrow> lheap \<Rightarrow> lheap" where
  "set_prev a v s = s\<lparr>lnodes := (lnodes s)(a := map_option (\<lambda>x. x\<lparr>ln_prev := v\<rparr>) (lnodes s a))\<rparr>"

lemma set_link_simps [simp]:
  "lnodes s a \<noteq> None \<Longrightarrow> nxt (set_next a v s) b = (if b = a then v else nxt s b)"
  "nxt (set_prev a v s) b = nxt s b"
  "prv (set_next a v s) b = prv s b"
  "lnodes s a \<noteq> None \<Longrightarrow> prv (set_prev a v s) b = (if b = a then v else prv s b)"
  "lnodes (set_next a v s) b = None \<longleftrightarrow> lnodes s b = None"
  "lnodes (set_prev a v s) b = None \<longleftrightarrow> lnodes s b = None"
  "lsize (set_next a v s) = lsize s" "lsize (set_prev a v s) = lsize s"
  "dom (lnodes (set_next a v s)) = dom (lnodes s)" "dom (lnodes (set_prev a v s)) = dom (lnodes s)"
  by (auto simp: nxt_def prv_def set_next_def set_prev_def split: option.splits if_splits)

lemma node_eta [simp]: "\<lparr>ln_next = ln_next y, ln_prev = ln_prev y\<rparr> = (y :: list_node)"
  by (cases y) simp

lemma list_run:
  "lnodes s a \<noteq> None \<Longrightarrow> pbind (get_node a) f s = f \<lparr>ln_next = nxt s a, ln_prev = prv s a\<rparr> s"
  "lnodes s a \<noteq> None \<Longrightarrow> pbind (upd_node a (\<lambda>x. x\<lparr>ln_next := v\<rparr>)) g s = g () (set_next a v s)"
  "lnodes s a \<noteq> None \<Longrightarrow> pbind (upd_node a (\<lambda>x. x\<lparr>ln_prev := v\<rparr>)) g s = g () (set_prev a v s)"
  "lnodes s a \<noteq> None \<Longrightarrow> upd_node a (\<lambda>x. x\<lparr>ln_next := v\<rparr>) s = Ok () (set_next a v s)"
  "pbind (pvalid (Some b)) k s = k b s" "pbind (pgets q) k' s = k' (q s) s" "pbind (pret y) k'' s = k'' y s"
  "pret z s = Ok z s"
  by (auto simp: get_node_def upd_node_def prog_defs nxt_def prv_def set_next_def set_prev_def)

section \<open>Refinement\<close>

lemma ring_alloc: "ring s h xs \<Longrightarrow> a \<in> set (h # xs) \<Longrightarrow> lnodes s a \<noteq> None"
  using path_alloc [of s h xs h a] by (auto simp: ring_def)

lemma ring_length: "heap_ok s \<Longrightarrow> ring s h xs \<Longrightarrow> length xs < lsize s"
proof -
  assume ok: "heap_ok s" and r: "ring s h xs"
  have "set (h # xs) \<subseteq> {..<lsize s}" using ring_alloc [OF r] ok by (auto simp: heap_ok_def)
  then have "card (set (h # xs)) \<le> lsize s" using card_mono [of "{..<lsize s}"] by simp
  then show ?thesis using r distinct_card [of "h # xs"] by (simp add: ring_def)
qed

text \<open>\<open>list_check\<close> follows the ring and finds nothing wrong, with the fuel it starts with.\<close>

lemma check_loop_path:
  "path s p xs h \<Longrightarrow> h \<notin> set xs \<Longrightarrow> length xs < k \<Longrightarrow>
   check_loop k h abortstr p (nxt s p) s = Ok (Some h) s"
proof (induction xs arbitrary: p k)
  case Nil
  then show ?case by (cases k) (simp_all add: list_run)
next
  case (Cons x xs)
  then obtain j where k: "k = Suc j" by (cases k) auto
  have "lnodes s x \<noteq> None" using path_alloc [OF Cons.prems(1), of x] by auto
  then show ?case using Cons.prems k Cons.IH [of x j] by (simp add: list_run)
qed

lemma list_check_ring:
  assumes "heap_ok s" and "ring s h xs"
  shows "list_check h abortstr s = Ok (Some h) s"
proof -
  have "lnodes s h \<noteq> None" using ring_alloc [OF assms(2), of h] by simp
  moreover have "prv s h = Some h" if "nxt s h = Some h"
    using assms(2) that by (cases xs) (auto simp: ring_def)
  ultimately show ?thesis
    using check_loop_path [of s h xs h "Suc (lsize s)" abortstr] assms ring_length [OF assms]
    by (simp add: list_check_def list_run ring_def del: check_loop.simps)
qed

lemma debug_ring:
  "heap_ok s \<Longrightarrow> ring s h xs \<Longrightarrow> debug_list debug (Some h) s = Ok () s"
  "heap_ok s \<Longrightarrow> ring s h xs \<Longrightarrow> pbind (debug_list debug (Some h)) f s = f () s"
  by (simp_all add: debug_list_def prog_defs list_check_ring)

lemma heap_ok_links [simp]: "heap_ok (set_next a v s) = heap_ok s" "heap_ok (set_prev a v s) = heap_ok s"
  by (simp_all add: heap_ok_def)

lemma head_init_run:
  "lnodes s h \<noteq> None \<Longrightarrow> \<exists>s'. list_head_init h s = Ok () s' \<and> ring s' h [] \<and>
    (heap_ok s \<longrightarrow> heap_ok s') \<and> dom (lnodes s') = dom (lnodes s)"
  by (simp add: list_head_init_def list_run ring_def)

lemma add_run:
  assumes ok: "heap_ok s" and r: "ring s h xs" and n: "lnodes s n \<noteq> None" "n \<notin> set (h # xs)"
  shows "\<exists>s'. list_add debug h n s = Ok () s' \<and> ring s' h (n # xs) \<and> heap_ok s' \<and>
    dom (lnodes s') = dom (lnodes s)"
proof -
  let ?b = "hd (xs @ [h])"
  let ?s' = "set_next h (Some n) (set_prev ?b (Some n) (set_prev n (Some h) (set_next n (Some ?b) s)))"
  have h: "nxt s h = Some ?b" "lnodes s h \<noteq> None" using path_ends [of s h xs h] r ring_alloc [OF r, of h]
    by (auto simp: ring_def)
  have b: "lnodes s ?b \<noteq> None" "?b \<noteq> n" using ring_alloc [OF r, of ?b] n(2) by (cases xs; auto)+
  have "path ?s' n xs h"
  proof (cases xs)
    case Nil
    then show ?thesis using n b h by auto
  next
    case (Cons x ys)
    have "path ?s' x ys h = path s x ys h"
      by (rule path_cong) (use Cons r n b h in \<open>auto simp: ring_def\<close>)
    then show ?thesis using Cons n b h r by (auto simp: ring_def)
  qed
  then have r': "ring ?s' h (n # xs)" using n b h r by (auto simp: ring_def)
  have "heap_ok ?s'" using ok by simp
  then show ?thesis
    using h b n debug_ring(1) [OF _ r', of debug] r' by (simp add: list_add_def list_run)
qed

lemma add_tail_run:
  assumes ok: "heap_ok s" and r: "ring s h xs" and n: "lnodes s n \<noteq> None" "n \<notin> set (h # xs)"
  shows "\<exists>s'. list_add_tail debug h n s = Ok () s' \<and> ring s' h (xs @ [n]) \<and> heap_ok s' \<and>
    dom (lnodes s') = dom (lnodes s)"
proof -
  let ?b = "last (h # xs)"
  let ?s' = "set_prev h (Some n) (set_next ?b (Some n) (set_prev n (Some ?b) (set_next n (Some h) s)))"
  have h: "prv s h = Some ?b" "lnodes s h \<noteq> None" using path_ends [of s h xs h] r ring_alloc [OF r, of h]
    by (auto simp: ring_def)
  have b: "lnodes s ?b \<noteq> None" "?b \<noteq> n" using ring_alloc [OF r, of ?b] n(2) last_in_set [of "h # xs"] by auto
  have "path ?s' h xs n"
  proof (cases xs rule: rev_cases)
    case Nil
    then show ?thesis using n b h by auto
  next
    case (snoc ys y)
    have "path ?s' h ys y = path s h ys y"
      by (rule path_cong) (use snoc r n b h in \<open>auto simp: ring_def\<close>)
    moreover have "path s h ys y" using r snoc by (simp add: ring_def path_append)
    ultimately show ?thesis using snoc n b h by (simp add: path_append)
  qed
  then have r': "ring ?s' h (xs @ [n])" using n b h r by (auto simp: ring_def path_append)
  have "heap_ok ?s'" using ok by simp
  then show ?thesis
    using h b n debug_ring(1) [OF _ r', of debug] r' by (simp add: list_add_tail_def list_run)
qed

lemma ring_rotate: "ring s h (ys @ x # zs) \<Longrightarrow> ring s x (zs @ h # ys)"
  by (auto simp: ring_def path_append)

lemma ring_any: "ring s h xs \<Longrightarrow> a \<in> set (h # xs) \<Longrightarrow> \<exists>ys. ring s a ys"
  using ring_rotate split_list [of a xs] by fastforce

text \<open>Taking the node \<open>n\<close> out of a path, whatever is in front of it and behind it.\<close>

lemma path_skip:
  assumes p: "path s h (ys @ n # zs) h" and d: "distinct (h # ys @ n # zs)"
  defines "a \<equiv> last (h # ys)" and "b \<equiv> hd (zs @ [h])"
  shows "path (set_next a (Some b) (set_prev b (Some a) s)) h (ys @ zs) h"
proof -
  let ?s = "set_next a (Some b) (set_prev b (Some a) s)"
  have p1: "path s h ys n" and p2: "path s n zs h" using p by (simp_all add: path_append)
  have al: "lnodes s a \<noteq> None" "lnodes s b \<noteq> None"
    using path_alloc [OF p1, of a] path_alloc [OF p2, of b]
    by (auto simp: a_def b_def hd_append)
  have aY: "a \<in> set (h # ys)" unfolding a_def by (rule last_in_set) simp
  show ?thesis
  proof (cases zs)
    case Nil
    then have "b = h" by (simp add: b_def)
    show ?thesis
    proof (cases ys rule: rev_cases)
      case Nil
      then show ?thesis using \<open>zs = []\<close> al by (simp add: a_def b_def)
    next
      case (snoc us u)
      have "path ?s h us u = path s h us u"
        by (rule path_cong) (use snoc d al \<open>b = h\<close> in \<open>auto simp: a_def\<close>)
      then show ?thesis using snoc \<open>zs = []\<close> al p1 \<open>b = h\<close> by (simp add: path_append a_def)
    qed
  next
    case (Cons z vs)
    have tail: "path ?s z vs h = path s z vs h"
      by (rule path_cong) (use Cons d al aY in \<open>auto simp: b_def\<close>)
    show ?thesis
    proof (cases ys rule: rev_cases)
      case Nil
      then show ?thesis using Cons al p2 tail by (simp add: a_def b_def)
    next
      case (snoc us u)
      have "path ?s h us u = path s h us u"
        by (rule path_cong) (use snoc Cons d al in \<open>auto simp: a_def b_def\<close>)
      then show ?thesis using snoc Cons al p1 p2 tail by (simp add: path_append a_def b_def)
    qed
  qed
qed

lemma clear_run:
  "lnodes s a \<noteq> None \<Longrightarrow> upd_node a (\<lambda>x. x\<lparr>ln_next := None, ln_prev := None\<rparr>) s =
     Ok () (set_prev a None (set_next a None s))"
  by (auto simp: upd_node_def set_next_def set_prev_def)

lemma del_run:
  assumes ok: "heap_ok s" and r: "ring s h (ys @ n # zs)"
  shows "\<exists>s'. list_del debug n s = Ok () s' \<and> ring s' h (ys @ zs) \<and> heap_ok s' \<and>
    dom (lnodes s') = dom (lnodes s)"
proof -
  let ?a = "last (h # ys)" and ?b = "hd (zs @ [h])"
  let ?s = "set_next ?a (Some ?b) (set_prev ?b (Some ?a) s)"
  have p: "path s h ys n" "path s n zs h" and d: "distinct (h # ys @ n # zs)"
    using r by (simp_all add: ring_def path_append)
  have links: "prv s n = Some ?a" "nxt s n = Some ?b"
    using path_ends [OF p(1)] path_ends [OF p(2)] by simp_all
  have al: "lnodes s n \<noteq> None" "lnodes s ?a \<noteq> None" "lnodes s ?b \<noteq> None"
    using path_alloc [OF p(1), of n] path_alloc [OF p(1), of ?a] path_alloc [OF p(2), of ?b]
    by (auto simp: hd_append)
  have ne: "?a \<noteq> n" "?b \<noteq> n" using d by (auto simp: hd_append)
  have rs: "ring ?s h (ys @ zs)" using path_skip [of s h ys n zs] r d by (simp add: ring_def)
  have ok': "heap_ok ?s" using ok by simp
  show ?thesis
  proof (cases debug)
    case False
    then show ?thesis using links al ne rs ok'
      by (simp add: list_del_def list_run debug_list_def)
  next
    case True
    let ?t = "set_prev n None (set_next n None ?s)"
    have "?b \<in> set (h # ys @ zs)" by (cases zs) auto
    then obtain us where "ring ?s ?b us" using ring_any [OF rs] by blast
    then have dbg: "pbind (debug_list debug (Some ?b)) f ?s = f () ?s" for f :: "unit \<Rightarrow> (lheap, unit) prog"
      by (rule debug_ring(2) [OF ok'])
    have "upd_node n (\<lambda>x. x\<lparr>ln_next := None, ln_prev := None\<rparr>) ?s = Ok () ?t"
      using al by (intro clear_run) simp
    then have "list_del debug n s = Ok () ?t"
      using True links al ne dbg by (simp add: list_del_def list_run del: last.simps)
    moreover have "path ?t h (ys @ zs) h = path ?s h (ys @ zs) h"
      by (rule path_cong) (use d al in auto)
    ultimately show ?thesis using rs ok' by (simp add: ring_def)
  qed
qed

section \<open>Loops over a list\<close>

text \<open>The safe loop may delete the node it is at.\<close>

lemma safe_delete_loop:
  assumes "heap_ok s" and "ring s h xs" and "length xs < k"
  shows "\<exists>s'. safe_loop k h (list_del debug) (nxt s h)
      (case nxt s h of None \<Rightarrow> None | Some a \<Rightarrow> nxt s a) s = Ok () s' \<and> ring s' h [] \<and> heap_ok s'"
  using assms
proof (induction xs arbitrary: s k)
  case Nil
  then show ?case by (cases k) (auto simp: ring_def list_run)
next
  case (Cons x xs)
  obtain j where k: "k = Suc j" using Cons.prems(3) by (cases k) auto
  obtain t where t: "list_del debug x s = Ok () t" "ring t h xs" "heap_ok t"
    using del_run [OF Cons.prems(1), of h "[]" x xs debug] Cons.prems(2) by auto
  have links: "nxt s h = Some x" "nxt s x = Some (hd (xs @ [h]))" "x \<noteq> h"
    using Cons.prems(2) path_ends [of s x xs h] by (auto simp: ring_def)
  have nt: "nxt t h = Some (hd (xs @ [h]))" using path_ends [of t h xs h] t(2) by (simp add: ring_def)
  have al: "lnodes t (hd (xs @ [h])) \<noteq> None" using ring_alloc [OF t(2)] by (cases xs) auto
  obtain u where "safe_loop j h (list_del debug) (nxt t h)
      (case nxt t h of None \<Rightarrow> None | Some a \<Rightarrow> nxt t a) t = Ok () u" "ring u h []" "heap_ok u"
    using Cons.IH [OF t(3,2), of j] Cons.prems(3) k by auto
  then show ?case
    using k links nt al t(1) by (simp add: list_run pbind_def [of "list_del debug x"])
qed

lemma each_loop_run:
  assumes body: "\<And>a t. body a t = Ok () t"
  shows "path s p xs h \<Longrightarrow> h \<notin> set xs \<Longrightarrow> length xs < k \<Longrightarrow> each_loop k h body (nxt s p) s = Ok () s"
proof (induction xs arbitrary: p k)
  case Nil
  then show ?case by (cases k) (simp_all add: list_run)
next
  case (Cons x xs)
  then obtain j where k: "k = Suc j" by (cases k) auto
  have "lnodes s x \<noteq> None" using path_alloc [OF Cons.prems(1), of x] by auto
  moreover have "pbind (body x) g s = g () s" for g :: "unit \<Rightarrow> (lheap, unit) prog"
    by (simp add: pbind_def body)
  ultimately show ?case using Cons.prems k Cons.IH [of x j] by (simp add: list_run)
qed

section \<open>What the check finds\<close>

text \<open>The links \<open>list_check\<close> follows and compares: forwards from \<open>a\<close>, each node pointing back.\<close>

fun chain :: "lheap \<Rightarrow> nat \<Rightarrow> nat list \<Rightarrow> bool" where
  "chain s a [] \<longleftrightarrow> True"
| "chain s a (x # xs) \<longleftrightarrow> nxt s a = Some x \<and> prv s x = Some a \<and> chain s x xs"

lemma chain_append: "chain s a (xs @ ys) \<longleftrightarrow> chain s a xs \<and> chain s (last (a # xs)) ys"
  by (induction xs arbitrary: a) auto

lemma chain_prev: "chain s a xs \<Longrightarrow> y \<in> set xs \<Longrightarrow> \<exists>u \<in> set (butlast (a # xs)). prv s y = Some u"
  by (induction xs arbitrary: a) auto

lemma last_notin_butlast: "distinct (xs @ [x]) \<Longrightarrow> x \<notin> set xs"
  by simp

lemma chain_distinct: "chain s h xs \<Longrightarrow> h \<notin> set xs \<Longrightarrow> distinct (h # xs)"
proof (induction xs rule: rev_induct)
  case (snoc y xs)
  then have c: "chain s h xs" "prv s y = Some (last (h # xs))" and d: "distinct (h # xs)"
    by (auto simp: chain_append)
  have "y \<notin> set xs"
  proof
    assume "y \<in> set xs"
    then have "last (h # xs) \<in> set (butlast (h # xs))" using chain_prev [OF c(1)] c(2) by fastforce
    moreover have "distinct (butlast (h # xs) @ [last (h # xs)])"
      using d append_butlast_last_id [of "h # xs"] by (metis list.distinct(1))
    from last_notin_butlast [OF this] have "last (h # xs) \<notin> set (butlast (h # xs))" .
    ultimately show False by contradiction
  qed
  then show ?case using d snoc.prems by auto
qed simp

lemma chain_alloc: "chain s a xs \<Longrightarrow> y \<in> set xs \<Longrightarrow> lnodes s y \<noteq> None"
  by (induction xs arbitrary: a) (auto simp: prv_def split: option.splits)

lemma chain_length:
  assumes "heap_ok s" and "lnodes s h \<noteq> None" and "chain s h xs" and "h \<notin> set xs"
  shows "length xs < lsize s"
proof -
  have "set (h # xs) \<subseteq> {..<lsize s}"
    using assms(1,2) chain_alloc [OF assms(3)] by (auto simp: heap_ok_def)
  then have "card (set (h # xs)) \<le> lsize s" using card_mono [of "{..<lsize s}"] by simp
  then show ?thesis using distinct_card [OF chain_distinct [OF assms(3,4)]] by simp
qed

lemma check_loop_returns:
  assumes ok: "heap_ok s" and h: "lnodes s h \<noteq> None"
  shows "chain s h vs \<Longrightarrow> h \<notin> set vs \<Longrightarrow> lsize s \<le> k + length vs \<Longrightarrow>
    check_loop k h ab (last (h # vs)) (nxt s (last (h # vs))) s \<noteq> Stop Diverge"
proof (induction k arbitrary: vs)
  case 0
  then show ?case using chain_length [OF ok h] by fastforce
next
  case (Suc k)
  let ?p = "last (h # vs)"
  consider "nxt s ?p = None" | "nxt s ?p = Some h" | a where "nxt s ?p = Some a" "a \<noteq> h" by (cases "nxt s ?p") auto
  then show ?case
  proof cases
    case (3 a)
    show ?thesis
    proof (cases "lnodes s a")
      case None
      then show ?thesis using 3 by (simp add: pvalid_def pret_def get_node_def pbind_def)
    next
      case (Some x)
      show ?thesis
      proof (cases "prv s a = Some ?p")
        case True
        then have "chain s h (vs @ [a])" using Suc.prems 3 by (simp add: chain_append)
        from Suc.IH [OF this] Suc.prems 3 Some True show ?thesis by (simp add: list_run)
      next
        case False
        then show ?thesis using 3 Some by (simp add: list_run corrupt_def pstop_def)
      qed
    qed
  qed (simp_all add: list_run pvalid_def pstop_def pbind_def)
qed

lemma check_loop_chain:
  assumes h: "h \<notin> set xs" and c: "chain s p xs" and n: "nxt s (last (p # xs)) = Some h" and k: "length xs < k"
  shows "check_loop k h ab p (nxt s p) s = Ok (Some h) s"
  using assms
proof (induction xs arbitrary: p k)
  case Nil
  then show ?case by (cases k) (simp_all add: list_run)
next
  case (Cons x xs)
  then obtain j where k: "k = Suc j" by (cases k) auto
  have "lnodes s x \<noteq> None" using chain_alloc [OF Cons.prems(2), of x] by simp
  then show ?case using Cons.prems k Cons.IH [of x j] by (simp add: list_run)
qed

lemma check_loop_finds:
  "check_loop k h ab p (nxt s p) s = Ok (Some h) s' \<Longrightarrow>
   \<exists>xs. h \<notin> set xs \<and> chain s p xs \<and> nxt s (last (p # xs)) = Some h \<and> (nxt s p \<noteq> Some h \<longrightarrow> xs \<noteq> [])"
proof (induction k arbitrary: p)
  case (Suc k)
  consider "nxt s p = None" | "nxt s p = Some h" | a where "nxt s p = Some a" "a \<noteq> h" by (cases "nxt s p") auto
  then show ?case
  proof cases
    case 1
    then show ?thesis using Suc.prems by (simp add: pvalid_def pstop_def pbind_def)
  next
    case 2
    then show ?thesis by (intro exI [of _ "[]"]) simp
  next
    case (3 a)
    have a: "lnodes s a \<noteq> None" "prv s a = Some p" "check_loop k h ab a (nxt s a) s = Ok (Some h) s'"
      using Suc.prems 3
      by (auto simp: pbind_def pvalid_def get_node_def pret_def corrupt_def pstop_def prv_def nxt_def
          split: option.splits if_splits)
    then obtain xs where "h \<notin> set xs" "chain s a xs" "nxt s (last (a # xs)) = Some h"
      using Suc.IH by blast
    then show ?thesis using 3 a by (intro exI [of _ "a # xs"]) simp
  qed
qed (simp add: pstop_def)

end
