(* ===== verification/Ccan_List_Props.thy ===== *)
theory Ccan_List_Props
  imports Ccan_List
begin

text \<open>
  The properties of ccan/list: the operations on rings of nodes are those on lists, and what
  \<open>list_check\<close> finds out about links that may be anything.
\<close>

section \<open>Operations on a list\<close>

datatype list_op = Add nat | Add_tail nat | Del nat

fun run_ops :: "bool \<Rightarrow> nat \<Rightarrow> list_op list \<Rightarrow> (lheap, unit) prog" where
  "run_ops debug h [] = pret ()"
| "run_ops debug h (Add n # ops) = pthen (list_add debug h n) (run_ops debug h ops)"
| "run_ops debug h (Add_tail n # ops) = pthen (list_add_tail debug h n) (run_ops debug h ops)"
| "run_ops debug h (Del n # ops) = pthen (list_del debug n) (run_ops debug h ops)"

text \<open>The same on a list, and when it makes sense: nodes that are added are new, nodes that are deleted are there.\<close>

fun op_nodes :: "list_op \<Rightarrow> nat" where
  "op_nodes (Add n) = n"
| "op_nodes (Add_tail n) = n"
| "op_nodes (Del n) = n"

fun abs_ops :: "nat \<Rightarrow> list_op list \<Rightarrow> nat list \<Rightarrow> nat list option" where
  "abs_ops h [] xs = Some xs"
| "abs_ops h (Add n # ops) xs = (if n \<in> set (h # xs) then None else abs_ops h ops (n # xs))"
| "abs_ops h (Add_tail n # ops) xs = (if n \<in> set (h # xs) then None else abs_ops h ops (xs @ [n]))"
| "abs_ops h (Del n # ops) xs = (if n \<in> set xs then abs_ops h ops (remove1 n xs) else None)"

lemma run_ops_ring:
  assumes "heap_ok s" and "ring s h xs" and "op_nodes ` set ops \<subseteq> dom (lnodes s)" and "abs_ops h ops xs = Some ys"
  shows "\<exists>s'. run_ops debug h ops s = Ok () s' \<and> ring s' h ys \<and> heap_ok s'"
  using assms
proof (induction ops arbitrary: s xs)
  case (Cons x ops)
  have step: ?case if run: "\<exists>t. run_ops debug h (x # ops) s = run_ops debug h ops t \<and> ring t h zs \<and> heap_ok t \<and>
      dom (lnodes t) = dom (lnodes s)" and abs: "abs_ops h ops zs = Some ys" for zs
  proof -
    obtain t where t: "run_ops debug h (x # ops) s = run_ops debug h ops t" "ring t h zs" "heap_ok t"
      "dom (lnodes t) = dom (lnodes s)" using run by blast
    from Cons.IH [OF t(3,2) _ abs] Cons.prems(3) t show ?thesis by simp
  qed
  show ?case
  proof (cases x)
    case (Add n)
    have n: "lnodes s n \<noteq> None" "n \<notin> set (h # xs)" using Cons.prems Add by (auto split: if_splits)
    obtain t where "list_add debug h n s = Ok () t" "ring t h (n # xs)" "heap_ok t" "dom (lnodes t) = dom (lnodes s)"
      using add_run [OF Cons.prems(1,2) n] by blast
    then show ?thesis using Add Cons.prems n(2) by (intro step [of "n # xs"]) (auto simp: pbind_def)
  next
    case (Add_tail n)
    have n: "lnodes s n \<noteq> None" "n \<notin> set (h # xs)" using Cons.prems Add_tail by (auto split: if_splits)
    obtain t where "list_add_tail debug h n s = Ok () t" "ring t h (xs @ [n])" "heap_ok t" "dom (lnodes t) = dom (lnodes s)"
      using add_tail_run [OF Cons.prems(1,2) n] by blast
    then show ?thesis using Add_tail Cons.prems n(2) by (intro step [of "xs @ [n]"]) (auto simp: pbind_def)
  next
    case (Del n)
    have n: "n \<in> set xs" using Cons.prems Del by (auto split: if_splits)
    then obtain us vs where xs: "xs = us @ n # vs" by (auto dest: split_list)
    have "distinct xs" using Cons.prems(2) by (simp add: ring_def)
    then have rm: "remove1 n xs = us @ vs" using xs by (simp add: remove1_append)
    have "ring s h (us @ n # vs)" using Cons.prems(2) xs by simp
    from del_run [OF Cons.prems(1) this, where debug = debug]
    obtain t where "list_del debug n s = Ok () t" "ring t h (us @ vs)" "heap_ok t" "dom (lnodes t) = dom (lnodes s)"
      by blast
    then show ?thesis using Del Cons.prems n rm by (intro step [of "us @ vs"]) (auto simp: pbind_def)
  qed
qed (simp add: pret_def)

text \<open>What the queries answer.\<close>

lemma ring_queries:
  assumes ok: "heap_ok s" and r: "ring s h xs"
  shows "list_empty debug h s = Ok (xs = []) s"
    and "list_top debug h s = Ok (if xs = [] then None else Some (hd xs)) s"
    and "list_tail debug h s = Ok (if xs = [] then None else Some (last xs)) s"
proof -
  have al: "lnodes s h \<noteq> None" using ring_alloc [OF r, of h] by simp
  have links: "nxt s h = Some (hd (xs @ [h]))" "prv s h = Some (last (h # xs))"
    using path_ends [of s h xs h] r by (simp_all add: ring_def)
  have "hd (xs @ [h]) = h \<longleftrightarrow> xs = []" using r by (cases xs) (auto simp: ring_def)
  then show e: "list_empty debug h s = Ok (xs = []) s"
    using al links by (simp add: list_empty_def debug_ring [OF ok r] list_run)
  have hd: "hd (xs @ [h]) = hd xs" "last (h # xs) = last xs" if "xs \<noteq> []" using that by simp_all
  show "list_top debug h s = Ok (if xs = [] then None else Some (hd xs)) s"
    using al links(1) hd(1) by (simp add: list_top_def pbind_def [of "list_empty debug h"] e list_run)
  show "list_tail debug h s = Ok (if xs = [] then None else Some (last xs)) s"
    using al links(2) hd(2) by (simp add: list_tail_def pbind_def [of "list_empty debug h"] e list_run)
qed

lemma delete_all_run:
  assumes ok: "heap_ok s" and r: "ring s h xs"
  shows "\<exists>s'. list_for_each_safe debug h (list_del debug) s = Ok () s' \<and> ring s' h []"
proof -
  have al: "lnodes s h \<noteq> None" using ring_alloc [OF r, of h] by simp
  have n: "nxt s h = Some (hd (xs @ [h]))" using path_ends [of s h xs h] r by (simp add: ring_def)
  have al': "lnodes s (hd (xs @ [h])) \<noteq> None" using ring_alloc [OF r] by (cases xs) auto
  obtain s' where "safe_loop (Suc (lsize s)) h (list_del debug) (nxt s h)
      (case nxt s h of None \<Rightarrow> None | Some a \<Rightarrow> nxt s a) s = Ok () s'" "ring s' h []"
    using safe_delete_loop [OF ok r, of "Suc (lsize s)" debug] ring_length [OF ok r] by auto
  then show ?thesis
    using al al' n
    by (simp add: list_for_each_safe_def debug_ring [OF ok r] list_run del: safe_loop.simps)
qed

section \<open>A small heap\<close>

definition demo_lheap :: "nat option \<Rightarrow> lheap" where
  "demo_lheap p = \<lparr>lnodes = (\<lambda>a. if a = 0 then Some \<lparr>ln_next = Some 1, ln_prev = p\<rparr>
       else if a = 1 then Some \<lparr>ln_next = Some 0, ln_prev = Some 0\<rparr>
       else if a = 2 then Some \<lparr>ln_next = None, ln_prev = None\<rparr> else None), lsize = 3\<rparr>"

lemma demo_lheap_ok: "heap_ok (demo_lheap p)" "lnodes (demo_lheap p) 0 \<noteq> None"
  by (simp_all add: heap_ok_def demo_lheap_def)

section \<open>Properties\<close>

text \<open>
  C34: After \<open>list_head_init\<close> and any sequence of \<open>list_add\<close>, \<open>list_add_tail\<close> and \<open>list_del\<close>, of new nodes
  and of nodes that are there, the links form a ring through the head in the order that the same
  operations produce on a list, with debugging or without; \<open>list_empty\<close>, \<open>list_top\<close> and \<open>list_tail\<close> answer
  for that list, and a safe loop that deletes each node it visits empties it.
\<close>

theorem list_operations_refine:
  assumes "heap_ok s" and "lnodes s h \<noteq> None" and "op_nodes ` set ops \<subseteq> dom (lnodes s)"
    and "abs_ops h ops [] = Some xs"
  shows "\<exists>s'. pthen (list_head_init h) (run_ops debug h ops) s = Ok () s' \<and> ring s' h xs \<and>
    list_empty debug h s' = Ok (xs = []) s' \<and>
    list_top debug h s' = Ok (if xs = [] then None else Some (hd xs)) s' \<and>
    list_tail debug h s' = Ok (if xs = [] then None else Some (last xs)) s' \<and>
    (\<exists>s''. list_for_each_safe debug h (list_del debug) s' = Ok () s'' \<and> ring s'' h [])"
proof -
  obtain t where t: "list_head_init h s = Ok () t" "ring t h []" "heap_ok t" "dom (lnodes t) = dom (lnodes s)"
    using head_init_run [OF assms(2)] assms(1) by blast
  then obtain s' where s': "run_ops debug h ops t = Ok () s'" "ring s' h xs" "heap_ok s'"
    using run_ops_ring [OF t(3,2) _ assms(4), where debug = debug] assms(3) by auto
  have "pthen (list_head_init h) (run_ops debug h ops) s = Ok () s'" using t(1) s'(1) by (simp add: pbind_def)
  then show ?thesis
    using s'(2) ring_queries [OF s'(3,2)] delete_all_run [OF s'(3,2), where debug = debug] by (intro exI [of _ s']) simp
qed

lemma list_operations_refine_witness:
  "\<exists>s'. pthen (list_head_init 0) (run_ops True 0 [Add 1, Add_tail 2, Del 1]) (demo_lheap None) = Ok () s' \<and>
     ring s' 0 [2] \<and> list_top True 0 s' = Ok (Some 2) s'"
proof -
  let ?ops = "[Add 1, Add_tail 2, Del 1]"
  have n: "op_nodes ` set ?ops \<subseteq> dom (lnodes (demo_lheap None))" by (auto simp: demo_lheap_def)
  have a: "abs_ops 0 ?ops [] = Some [2]" by simp
  obtain s' where s': "pthen (list_head_init 0) (run_ops True 0 ?ops) (demo_lheap None) = Ok () s'" "ring s' 0 [2]"
    "list_top True 0 s' = Ok (if [2] = ([] :: nat list) then None else Some (hd [2])) s'"
    using list_operations_refine [OF demo_lheap_ok n a, where debug = True] by (elim exE conjE)
  show ?thesis by (rule exI [of _ s']) (use s' in \<open>simp del: run_ops.simps\<close>)
qed

text \<open>
  C37: \<open>list_check\<close> returns on every heap, whatever the links are: it never runs in circles. It
  accepts a list exactly when following the nodes from the head leads back to the head and every
  node points back to the one before it, or when the head points to itself both ways; that the
  head of a list with nodes points back to the last of them is not looked at.
\<close>

theorem list_check_decides:
  assumes ok: "heap_ok s" and h: "lnodes s h \<noteq> None"
  shows "list_check h abortstr s \<noteq> Stop Diverge \<and>
    ((\<exists>s'. list_check h abortstr s = Ok (Some h) s') \<longleftrightarrow> (nxt s h = Some h \<and> prv s h = Some h) \<or>
      (\<exists>xs. xs \<noteq> [] \<and> h \<notin> set xs \<and> chain s h xs \<and> nxt s (last xs) = Some h))"
proof (cases "nxt s h = Some h")
  case True
  have "\<not> (xs \<noteq> [] \<and> h \<notin> set xs \<and> chain s h xs)" for xs using True by (cases xs) auto
  then show ?thesis
    using True h by (auto simp: list_check_def list_run corrupt_def pstop_def)
next
  case False
  let ?k = "Suc (lsize s)"
  have run: "list_check h abortstr s = check_loop ?k h abortstr h (nxt s h) s"
    using False h by (simp add: list_check_def list_run del: check_loop.simps)
  have "check_loop ?k h abortstr h (nxt s h) s \<noteq> Stop Diverge"
    using check_loop_returns [OF ok h, of "[]" ?k abortstr] by (simp del: check_loop.simps)
  moreover have "\<exists>xs. xs \<noteq> [] \<and> h \<notin> set xs \<and> chain s h xs \<and> nxt s (last xs) = Some h"
    if run': "check_loop ?k h abortstr h (nxt s h) s = Ok (Some h) s'" for s'
  proof -
    obtain xs where "h \<notin> set xs" "chain s h xs" "nxt s (last (h # xs)) = Some h" "xs \<noteq> []"
      using check_loop_finds [OF run'] False by blast
    then show ?thesis by (intro exI [of _ xs]) simp
  qed
  moreover have "check_loop ?k h abortstr h (nxt s h) s = Ok (Some h) s"
    if xs: "xs \<noteq> []" "h \<notin> set xs" "chain s h xs" "nxt s (last xs) = Some h" for xs
    using check_loop_chain [OF xs(2,3), of ?k abortstr] chain_length [OF ok h xs(3,2)] xs(1,4)
    by (simp del: check_loop.simps)
  ultimately show ?thesis unfolding run using False by blast
qed

lemma list_check_decides_witness:
  "(\<exists>s'. list_check 0 True (demo_lheap None) = Ok (Some 0) s') \<and> \<not> (\<exists>xs. ring (demo_lheap None) 0 xs)"
proof -
  have "chain (demo_lheap None) 0 [1] \<and> nxt (demo_lheap None) (last [1]) = Some 0"
    by (simp add: nxt_def prv_def demo_lheap_def)
  moreover have "\<not> ring (demo_lheap None) 0 xs" for xs
    using path_ends [of "demo_lheap None" 0 xs 0] by (auto simp: ring_def prv_def demo_lheap_def)
  ultimately show ?thesis
    using list_check_decides [OF demo_lheap_ok, where abortstr = True]
    by (metis list.distinct(1) empty_iff list.set(1) set_ConsD zero_neq_one)
qed

end
